(* ===== verification/WotPrelude.thy ===== *)
theory WotPrelude
  imports Main "HOL-Library.Word" "HOL-Library.List_Lexorder" "HOL-Library.Char_ord" "HOL-Library.Code_Target_Nat"
begin

text \<open>
  Prelude of the development: the machine types and the parts of the Rust standard library that
  the oracle uses on its sorted adjacency vectors (\<open>sort_unstable\<close>, \<open>dedup\<close>,
  \<open>binary_search\<close>, \<open>Vec::insert\<close>, \<open>Vec::remove\<close>, indexing that panics,
  saturating arithmetic), with the lemmas every component shares. A panic is the value \<open>None\<close>
  of an \<open>option\<close>; a Rust \<open>Result\<close> is the datatype \<open>result\<close>.
  Strings are byte lists ordered lexicographically, as \<open>String\<close> and \<open>str\<close> compare.
\<close>

section \<open>Types\<close>

type_synonym u64 = "64 word"

datatype ('a, 'e) result = Ok 'a | Err 'e

definition is_ok :: "('a, 'e) result \<Rightarrow> bool" where
  "is_ok r = (case r of Ok _ \<Rightarrow> True | Err _ \<Rightarrow> False)"

lemma is_ok_simps [simp]: "is_ok (Ok a)" "\<not> is_ok (Err e)"
  by (simp_all add: is_ok_def)

text \<open>\<open>usize as u32\<close> keeps the low 32 bits.\<close>

definition as_u32 :: "nat \<Rightarrow> nat" where
  "as_u32 n = n mod 2 ^ 32"

lemma as_u32_id: "n < 2 ^ 32 \<Longrightarrow> as_u32 n = n"
  by (simp add: as_u32_def)

named_theorems vec_simps \<open>set and order facts about sorted vectors\<close>

section \<open>Indexing\<close>

text \<open>\<open>xs[i]\<close> panics out of range.\<close>

definition index :: "'a list \<Rightarrow> nat \<Rightarrow> 'a option" where
  "index xs i = (if i < length xs then Some (xs ! i) else None)"

lemma index_Some [simp]: "i < length xs \<Longrightarrow> index xs i = Some (xs ! i)"
  by (simp add: index_def)

lemma index_eq_Some: "index xs i = Some x \<longleftrightarrow> i < length xs \<and> xs ! i = x"
  by (auto simp: index_def)

text \<open>A traversal whose body can panic: the panic of any element is the panic of the whole.\<close>

fun collect_all :: "('a \<Rightarrow> 'b option) \<Rightarrow> 'a list \<Rightarrow> 'b list option" where
  "collect_all f [] = Some []"
| "collect_all f (x # xs) =
     (case f x of None \<Rightarrow> None
      | Some y \<Rightarrow> (case collect_all f xs of None \<Rightarrow> None | Some ys \<Rightarrow> Some (y # ys)))"

lemma collect_all_map: "(\<And>x. x \<in> set xs \<Longrightarrow> f x = Some (g x)) \<Longrightarrow> collect_all f xs = Some (map g xs)"
  by (induction xs) auto

lemma collect_all_index:
  "(\<And>i. i \<in> set is \<Longrightarrow> i < length xs) \<Longrightarrow> collect_all (index xs) is = Some (map ((!) xs) is)"
  by (rule collect_all_map) simp

lemma all_set_update: "\<forall>x \<in> set xs. P x \<Longrightarrow> P y \<Longrightarrow> \<forall>x \<in> set (xs[i := y]). P x"
  using set_update_subset_insert [of xs i y] by blast

section \<open>Sorted vectors\<close>

text \<open>
  Adjacency vectors are strictly increasing. \<open>sort_unstable(); dedup()\<close> makes one from any
  list of ids (equal ids are indistinguishable, so stability does not show).
\<close>

abbreviation increasing :: "nat list \<Rightarrow> bool" where
  "increasing xs \<equiv> sorted_wrt (<) xs"

definition sort_dedup :: "nat list \<Rightarrow> nat list" where
  "sort_dedup xs = remdups_adj (sort xs)"

lemma sorted_remdups_adj_increasing: "sorted xs \<Longrightarrow> sorted_wrt (<) (remdups_adj (xs :: nat list))"
proof (induction xs rule: remdups_adj.induct)
  case (3 x y xs)
  show ?case
  proof (cases "x = y")
    case True
    then show ?thesis using 3 by simp
  next
    case False
    then have "\<forall>z \<in> set (y # xs). x < z" using "3.prems" by auto
    moreover have "sorted_wrt (<) (remdups_adj (y # xs))"
      using False 3 by simp
    moreover have "remdups_adj (x # y # xs) = x # remdups_adj (y # xs)"
      using False by simp
    ultimately show ?thesis
      by (metis remdups_adj_set sorted_wrt.simps(2))
  qed
qed simp_all

lemma increasing_sort_dedup [simp]: "increasing (sort_dedup xs)"
  by (simp add: sort_dedup_def sorted_remdups_adj_increasing)

lemma set_sort_dedup [simp, vec_simps]: "set (sort_dedup xs) = set xs"
  by (simp add: sort_dedup_def)

lemma increasing_unique: "increasing xs \<Longrightarrow> increasing ys \<Longrightarrow> set xs = set ys \<Longrightarrow> xs = ys"
  by (rule strict_sorted_equal) auto

lemma increasing_distinct: "increasing xs \<Longrightarrow> distinct xs"
  by (simp add: strict_sorted_iff)

lemma increasing_nth_less: "increasing xs \<Longrightarrow> i < j \<Longrightarrow> j < length xs \<Longrightarrow> xs ! i < xs ! j"
  by (rule sorted_wrt_nth_less)

lemma sort_dedup_idem: "increasing xs \<Longrightarrow> sort_dedup xs = xs"
  by (rule increasing_unique) auto

text \<open>A vector of ids below \<open>n\<close>.\<close>

definition row_ok :: "nat \<Rightarrow> nat list \<Rightarrow> bool" where
  "row_ok n xs \<longleftrightarrow> increasing xs \<and> set xs \<subseteq> {..<n}"

lemma row_ok_sort_dedup: "set xs \<subseteq> {..<n} \<Longrightarrow> row_ok n (sort_dedup xs)"
  by (simp add: row_ok_def)

lemma row_ok_bound: "row_ok n xs \<Longrightarrow> x \<in> set xs \<Longrightarrow> x < n"
  by (auto simp: row_ok_def)

lemma row_ok_mono: "row_ok n xs \<Longrightarrow> n \<le> m \<Longrightarrow> row_ok m xs"
  by (auto simp: row_ok_def)

lemma row_ok_Nil [simp]: "row_ok n []"
  by (simp add: row_ok_def)

section \<open>Binary search, insertion and removal\<close>

text \<open>
  \<open>slice::binary_search\<close>: \<open>Ok pos\<close> of a match, or \<open>Err pos\<close> of the place where the
  key would be inserted.
\<close>

function search_between :: "nat list \<Rightarrow> nat \<Rightarrow> nat \<Rightarrow> nat \<Rightarrow> (nat, nat) result" where
  "search_between xs x lo hi =
     (if lo < hi then
        let mid = (lo + hi) div 2 in
        if xs ! mid = x then Ok mid
        else if xs ! mid < x then search_between xs x (Suc mid) hi
        else search_between xs x lo mid
      else Err lo)"
  by pat_completeness auto
termination
  by (relation "measure (\<lambda>(xs, x, lo, hi). hi - lo)") auto

declare search_between.simps [simp del]

definition binary_search :: "nat list \<Rightarrow> nat \<Rightarrow> (nat, nat) result" where
  "binary_search xs x = search_between xs x 0 (length xs)"

definition search_ok :: "nat list \<Rightarrow> nat \<Rightarrow> (nat, nat) result \<Rightarrow> bool" where
  "search_ok xs x r =
     (case r of
        Ok p \<Rightarrow> p < length xs \<and> xs ! p = x
      | Err p \<Rightarrow> p \<le> length xs \<and> (\<forall>i<p. xs ! i < x) \<and> (\<forall>i<length xs. p \<le> i \<longrightarrow> x < xs ! i))"

lemma search_between_ok:
  assumes "increasing xs" "hi \<le> length xs" "lo \<le> hi"
    "\<forall>i<lo. xs ! i < x" "\<forall>i<length xs. hi \<le> i \<longrightarrow> x < xs ! i"
  shows "search_ok xs x (search_between xs x lo hi)"
  using assms
proof (induction xs x lo hi rule: search_between.induct)
  case (1 xs x lo hi)
  define mid where "mid = (lo + hi) div 2"
  show ?case
  proof (cases "lo < hi")
    case False
    then have "search_between xs x lo hi = Err lo"
      by (subst search_between.simps) simp
    then show ?thesis
      using "1.prems" False by (simp add: search_ok_def)
  next
    case True
    then have mid: "lo \<le> mid" "mid < hi" "mid < length xs"
      using "1.prems"(2) by (auto simp: mid_def)
    consider (eq) "xs ! mid = x" | (lt) "xs ! mid < x" | (gt) "x < xs ! mid"
      by (rule linorder_cases)
    then show ?thesis
    proof cases
      case eq
      then show ?thesis
        using True mid by (simp add: search_between.simps [of xs x lo hi] search_ok_def flip: mid_def)
    next
      case lt
      have "xs ! i < x" if "i < Suc mid" for i
        using increasing_nth_less [OF "1.prems"(1), of i mid] lt mid that
        by (cases "i = mid") auto
      then have "search_ok xs x (search_between xs x (Suc mid) hi)"
        using "1.IH"(1) [OF True mid_def] lt "1.prems" mid by simp
      then show ?thesis
        using True lt by (simp add: search_between.simps [of xs x lo hi] flip: mid_def)
    next
      case gt
      have "x < xs ! i" if "mid \<le> i" "i < length xs" for i
        using increasing_nth_less [OF "1.prems"(1), of mid i] gt that
        by (cases "i = mid") auto
      then have "search_ok xs x (search_between xs x lo mid)"
        using "1.IH"(2) [OF True mid_def] gt "1.prems" mid by simp
      then show ?thesis
        using True gt by (simp add: search_between.simps [of xs x lo hi] flip: mid_def)
    qed
  qed
qed

lemma binary_search_ok: "increasing xs \<Longrightarrow> search_ok xs x (binary_search xs x)"
  unfolding binary_search_def by (rule search_between_ok) auto

lemma binary_search_Ok: "increasing xs \<Longrightarrow> binary_search xs x = Ok p \<Longrightarrow> p < length xs \<and> xs ! p = x"
  using binary_search_ok [of xs x] by (simp add: search_ok_def)

lemma binary_search_Err:
  "increasing xs \<Longrightarrow> binary_search xs x = Err p \<Longrightarrow>
     p \<le> length xs \<and> (\<forall>i<p. xs ! i < x) \<and> (\<forall>i<length xs. p \<le> i \<longrightarrow> x < xs ! i)"
  using binary_search_ok [of xs x] by (simp add: search_ok_def)

lemma binary_search_mem [vec_simps]: "increasing xs \<Longrightarrow> is_ok (binary_search xs x) \<longleftrightarrow> x \<in> set xs"
proof (cases "binary_search xs x")
  case (Ok p)
  then show "increasing xs \<Longrightarrow> ?thesis"
    using binary_search_Ok nth_mem by fastforce
next
  case (Err p)
  then show "increasing xs \<Longrightarrow> ?thesis"
    using binary_search_Err [of xs x p] by (metis in_set_conv_nth is_ok_simps(2) not_le_imp_less order_less_irrefl)
qed

text \<open>\<open>Vec::insert(pos, x)\<close> and \<open>Vec::remove(pos)\<close>, for positions in range.\<close>

definition vec_insert :: "nat \<Rightarrow> 'a \<Rightarrow> 'a list \<Rightarrow> 'a list" where
  "vec_insert pos x xs = take pos xs @ x # drop pos xs"

definition vec_remove :: "nat \<Rightarrow> 'a list \<Rightarrow> 'a list" where
  "vec_remove pos xs = take pos xs @ drop (Suc pos) xs"

lemma vec_insert_increasing:
  assumes "increasing xs" "p \<le> length xs" "\<forall>i<p. xs ! i < x" "\<forall>i<length xs. p \<le> i \<longrightarrow> x < xs ! i"
  shows "increasing (vec_insert p x xs)"
proof -
  have "increasing (take p xs @ drop p xs)" using assms(1) by simp
  then have "increasing (take p xs)" "increasing (drop p xs)"
    "\<forall>a \<in> set (take p xs). \<forall>b \<in> set (drop p xs). a < b"
    unfolding sorted_wrt_append by blast+
  moreover have "\<forall>a \<in> set (take p xs). a < x"
    using assms(2,3) by (auto simp: in_set_conv_nth)
  moreover have "\<forall>b \<in> set (drop p xs). x < b"
    using assms(4) by (auto simp: in_set_conv_nth)
  ultimately show ?thesis by (auto simp: vec_insert_def sorted_wrt_append)
qed

lemma set_vec_insert: "set (vec_insert p x xs) = insert x (set xs)"
proof -
  have "set (take p xs) \<union> set (drop p xs) = set xs"
    by (metis append_take_drop_id set_append)
  then show ?thesis by (auto simp: vec_insert_def)
qed

lemma vec_remove_split: "p < length xs \<Longrightarrow> xs = take p xs @ xs ! p # drop (Suc p) xs"
  by (rule id_take_nth_drop)

lemma vec_remove_increasing:
  assumes "increasing xs" "p < length xs"
  shows "increasing (vec_remove p xs)" "set (vec_remove p xs) = set xs - {xs ! p}"
proof -
  have s: "increasing (take p xs @ xs ! p # drop (Suc p) xs)"
    using assms vec_remove_split [of p xs] by simp
  then show "increasing (vec_remove p xs)"
    by (simp add: vec_remove_def sorted_wrt_append)
  have "set xs = set (take p xs) \<union> {xs ! p} \<union> set (drop (Suc p) xs)"
    using arg_cong [OF vec_remove_split [OF assms(2)], of set] by auto
  moreover have "xs ! p \<notin> set (take p xs)" "xs ! p \<notin> set (drop (Suc p) xs)"
    using s by (fastforce simp: sorted_wrt_append)+
  ultimately show "set (vec_remove p xs) = set xs - {xs ! p}"
    by (auto simp: vec_remove_def)
qed

section \<open>Saturating arithmetic\<close>

definition sat_add :: "u64 \<Rightarrow> u64 \<Rightarrow> u64" where
  "sat_add a b = (if unat a + unat b < 2 ^ 64 then a + b else - 1)"

definition sat_mul :: "u64 \<Rightarrow> u64 \<Rightarrow> u64" where
  "sat_mul a b = (if unat a * unat b < 2 ^ 64 then a * b else - 1)"

text \<open>\<open>capped n\<close>: the natural number \<open>n\<close>, cut off at \<open>u64::MAX\<close>.\<close>

definition capped :: "nat \<Rightarrow> u64" where
  "capped n = of_nat (min n (2 ^ 64 - 1))"

lemma unat_capped [simp]: "unat (capped n) = min n (2 ^ 64 - 1)"
  by (simp add: capped_def unat_of_nat min_def take_bit_nat_def)

lemma unat_u64_max: "unat (- 1 :: u64) = 2 ^ 64 - 1"
  by (simp add: unsigned_minus_1_eq_mask mask_eq_exp_minus_1)

lemma unat_sat_add: "unat (sat_add a b) = min (unat a + unat b) (2 ^ 64 - 1)"
  by (auto simp: sat_add_def unat_word_ariths unat_u64_max)

lemma unat_sat_mul: "unat (sat_mul a b) = min (unat a * unat b) (2 ^ 64 - 1)"
  by (auto simp: sat_mul_def unat_word_ariths unat_u64_max)

lemma capped_eq: "unat a = min n (2 ^ 64 - 1) \<Longrightarrow> a = capped n"
  by (metis unat_capped word_unat_eq_iff)

lemma capped_0 [simp]: "capped 0 = 0" and capped_1 [simp]: "capped (Suc 0) = 1"
  by (simp_all add: capped_def)

lemma sat_add_capped: "sat_add (capped a) (capped b) = capped (a + b)"
  by (rule capped_eq) (simp add: unat_sat_add min_def)

lemma min_mult_cap: "min (min a m * min b m) m = min (a * b) (m :: nat)"
proof -
  have big: "m \<le> x * y" if "m \<le> x" "0 < y" for x y :: nat
    using mult_le_mono [OF that(1), of 1 y] that(2) by simp
  consider "a \<le> m" "b \<le> m" | "m < a" "b = 0" | "m < b" "a = 0" | "m < a" "0 < b" | "m < b" "0 < a"
    by linarith
  then show ?thesis
  proof cases
    case 4
    then have "m \<le> a * b" using big [of a b] by simp
    moreover have "m \<le> m * min b m \<or> m = 0" using 4 by simp
    ultimately show ?thesis using 4 by (auto simp: min_def)
  next
    case 5
    then have "m \<le> b * a" using big [of b a] by simp
    moreover have "m \<le> min a m * m \<or> m = 0" using 5 by simp
    ultimately show ?thesis using 5 by (auto simp: min_def mult.commute)
  qed (auto simp: min_def)
qed

lemma sat_mul_capped: "sat_mul (capped a) (capped b) = capped (a * b)"
  by (rule capped_eq) (simp only: unat_sat_mul unat_capped min_mult_cap)

lemma sat_sum_capped: "foldl sat_add (capped a) (map (\<lambda>x. capped (f x)) xs) = capped (a + sum_list (map f xs))"
  by (induction xs arbitrary: a) (simp_all add: sat_add_capped add.assoc)

lemma u64_of_nat_zero: "n < 2 ^ 64 \<Longrightarrow> (of_nat n :: u64) = 0 \<Longrightarrow> n = 0"
  using nat_dvd_not_less [of n "2 ^ 64"] by (auto simp: word_of_nat_eq_0_iff)

end
