(* ===== verification/EventOrder.thy ===== *)
theory EventOrder
  imports WotPrelude
begin

text \<open>
  Replaceable-event ordering. The graph (\<open>accepts_event\<close> in \<open>graph/store.rs\<close>) and the
  database (\<open>event_wins\<close> in \<open>db/sqlite.rs\<close>) each decide whether a received list event
  replaces the stored one: newest timestamp first, lowest event id on a tie, missing provenance
  loses. The datatype \<open>version\<close> gives the order a name and a \<open>linorder\<close> instance; the
  locale \<open>lww_store\<close> is the contract of a store of replaceable lists and proves what every
  such store does with a whole sequence of events: the result depends on the set of events only.
\<close>

section \<open>The two comparison functions of the code\<close>

type_synonym meta = "int option \<times> string option"

definition accepts_event :: "int option \<Rightarrow> string option \<Rightarrow> int option \<Rightarrow> string option \<Rightarrow> bool" where
  "accepts_event old_ts old_id new_ts new_id =
     (case (old_ts, new_ts) of
        (None, _) \<Rightarrow> True
      | (Some _, None) \<Rightarrow> False
      | (Some old, Some new) \<Rightarrow>
          old < new \<or>
          (new = old \<and>
             (case new_id of
                None \<Rightarrow> False
              | Some n \<Rightarrow> (case old_id of None \<Rightarrow> True | Some o' \<Rightarrow> n < o'))))"

definition event_wins :: "int option \<Rightarrow> string option \<Rightarrow> int option \<Rightarrow> string option \<Rightarrow> bool" where
  "event_wins new_ts new_id old_ts old_id =
     (let by_id = (case (new_id, old_id) of
                     (Some new, Some old) \<Rightarrow> new < old
                   | (Some _, None) \<Rightarrow> True
                   | _ \<Rightarrow> False) in
      case (new_ts, old_ts) of
        (Some new, Some old) \<Rightarrow> if new \<noteq> old then old < new else by_id
      | (Some _, None) \<Rightarrow> True
      | (None, Some _) \<Rightarrow> False
      | (None, None) \<Rightarrow> True)"

lemma event_wins_accepts:
  "event_wins new_ts new_id old_ts old_id = accepts_event old_ts old_id new_ts new_id"
  by (auto simp: event_wins_def accepts_event_def split: option.splits)

abbreviation accepts :: "meta \<Rightarrow> meta \<Rightarrow> bool" where
  "accepts old new \<equiv> accepts_event (fst old) (snd old) (fst new) (snd new)"

lemma accepts_no_ts [simp]: "accepts_event None i t j"
  by (simp add: accepts_event_def)

section \<open>Versions and their order\<close>

datatype version = Version (ver_ts: int) (ver_id: string)

instantiation version :: linorder
begin

definition less_version :: "version \<Rightarrow> version \<Rightarrow> bool" where
  "less_version a b \<longleftrightarrow>
     ver_ts a < ver_ts b \<or> (ver_ts a = ver_ts b \<and> ver_id b < ver_id a)"

definition less_eq_version :: "version \<Rightarrow> version \<Rightarrow> bool" where
  "less_eq_version a b \<longleftrightarrow> a < b \<or> a = b" for a b :: version

instance
proof
  fix x y z :: version
  show "x < y \<longleftrightarrow> x \<le> y \<and> \<not> y \<le> x"
    by (auto simp: less_version_def less_eq_version_def)
  show "x \<le> x" by (simp add: less_eq_version_def)
  show "x \<le> y \<Longrightarrow> y \<le> z \<Longrightarrow> x \<le> z"
    by (auto simp: less_version_def less_eq_version_def)
  show "x \<le> y \<Longrightarrow> y \<le> x \<Longrightarrow> x = y"
    by (auto simp: less_version_def less_eq_version_def)
  show "x \<le> y \<or> y \<le> x"
    by (cases x; cases y) (auto simp: less_version_def less_eq_version_def)
qed

end

definition meta_of :: "version \<Rightarrow> meta" where
  "meta_of v = (Some (ver_ts v), Some (ver_id v))"

lemma meta_of_inj [simp]: "meta_of v = meta_of w \<longleftrightarrow> v = w"
  by (cases v; cases w) (auto simp: meta_of_def)

lemma accepts_versions [simp]: "accepts (meta_of v) (meta_of w) \<longleftrightarrow> v < w"
  by (auto simp: meta_of_def accepts_event_def less_version_def)

text \<open>Acceptance by a stored event of any provenance is monotone in the new version.\<close>

lemma accepts_mono: "accepts m (meta_of v) \<Longrightarrow> v \<le> w \<Longrightarrow> accepts m (meta_of w)"
  by (cases m) (auto simp: meta_of_def accepts_event_def less_eq_version_def less_version_def
      split: option.splits)

lemma accepts_chain: "\<not> accepts m (meta_of v) \<Longrightarrow> accepts m (meta_of w) \<Longrightarrow> v < w"
  by (meson accepts_mono not_le)

section \<open>The contract of a store of replaceable lists\<close>

text \<open>
  A write carries its author, its provenance and its list. \<open>small\<close> is the capacity bound of
  the store (the graph's \<open>u32\<close> ids), \<open>seen\<close> what an observer reads back from a list.
\<close>

type_synonym list_event = "string \<times> version \<times> string list"

locale lww_store =
  fixes invar :: "'s \<Rightarrow> bool"
    and small :: "'s \<Rightarrow> bool"
    and put :: "string \<Rightarrow> meta \<Rightarrow> string list \<Rightarrow> 's \<Rightarrow> 's"
    and cell :: "'s \<Rightarrow> string \<Rightarrow> meta \<times> 'c"
    and seen :: "string list \<Rightarrow> 'c"
  assumes small_put: "small (put k m l s) \<Longrightarrow> small s"
    and invar_put: "invar s \<Longrightarrow> small (put k m l s) \<Longrightarrow> invar (put k m l s)"
    and cell_put: "invar s \<Longrightarrow> small (put k m l s) \<Longrightarrow>
      cell (put k m l s) a =
        (if a = k \<and> accepts (fst (cell s k)) m then (m, seen l) else cell s a)"
begin

fun apply_events :: "list_event list \<Rightarrow> 's \<Rightarrow> 's" where
  "apply_events [] s = s"
| "apply_events ((k, v, l) # es) s = apply_events es (put k (meta_of v) l s)"

lemma small_apply: "small (apply_events es s) \<Longrightarrow> small s"
  by (induction es s rule: apply_events.induct) (auto dest: small_put)

lemma invar_apply: "invar s \<Longrightarrow> small (apply_events es s) \<Longrightarrow> invar (apply_events es s)"
  by (induction es s rule: apply_events.induct) (auto intro: invar_put dest: small_apply)

text \<open>
  \<open>settled E k c0 c\<close>: the cell of author \<open>k\<close>, which held \<open>c0\<close>, holds \<open>c\<close> after
  the events \<open>E\<close>: the newest of the author's events, where it beats \<open>c0\<close>, else \<open>c0\<close>.
\<close>

definition settled :: "list_event set \<Rightarrow> string \<Rightarrow> meta \<times> 'c \<Rightarrow> meta \<times> 'c \<Rightarrow> bool" where
  "settled E k c0 c \<longleftrightarrow>
     (c = c0 \<and> (\<forall>v l. (k, v, l) \<in> E \<longrightarrow> \<not> accepts (fst c0) (meta_of v))) \<or>
     (\<exists>v l. (k, v, l) \<in> E \<and> c = (meta_of v, seen l) \<and> accepts (fst c0) (meta_of v) \<and>
        (\<forall>v' l'. (k, v', l') \<in> E \<longrightarrow> v' \<le> v))"

lemma settled_keep:
  "(\<And>v l. (k, v, l) \<in> E \<Longrightarrow> \<not> accepts (fst c0) (meta_of v)) \<Longrightarrow> settled E k c0 c0"
  unfolding settled_def by blast

lemma settled_new:
  "(k, v, l) \<in> E \<Longrightarrow> accepts (fst c0) (meta_of v) \<Longrightarrow> (\<And>v' l'. (k, v', l') \<in> E \<Longrightarrow> v' \<le> v) \<Longrightarrow>
     settled E k c0 (meta_of v, seen l)"
  unfolding settled_def by blast

lemma settled_cases:
  assumes "settled E k c0 c"
  obtains (keep) "c = c0" "\<And>v l. (k, v, l) \<in> E \<Longrightarrow> \<not> accepts (fst c0) (meta_of v)"
    | (new) v l where "(k, v, l) \<in> E" "c = (meta_of v, seen l)" "accepts (fst c0) (meta_of v)"
        "\<And>v' l'. (k, v', l') \<in> E \<Longrightarrow> v' \<le> v"
  using assms unfolding settled_def by blast

lemma settled_other: "k \<noteq> k' \<Longrightarrow> settled (insert (k', v, l) E) k c0 c = settled E k c0 c"
  by (simp add: settled_def)

lemma settled_accepted:
  assumes acc: "accepts (fst c0) (meta_of v)" and "settled E k (meta_of v, seen l) c"
  shows "settled (insert (k, v, l) E) k c0 c"
  using assms(2)
proof (cases rule: settled_cases)
  case keep
  then have "v' \<le> v" if "(k, v', l') \<in> insert (k, v, l) E" for v' l'
    using that by fastforce
  then show ?thesis unfolding keep(1) by (intro settled_new) (use acc in auto)
next
  case (new w m)
  then have "v < w" by simp
  then have "accepts (fst c0) (meta_of w)" by (meson acc accepts_mono less_imp_le)
  then show ?thesis unfolding new(2) by (rule settled_new [rotated]) (use new \<open>v < w\<close> in auto)
qed

lemma settled_rejected:
  assumes rej: "\<not> accepts (fst c0) (meta_of v)" and "settled E k c0 c"
  shows "settled (insert (k, v, l) E) k c0 c"
  using assms(2)
proof (cases rule: settled_cases)
  case keep
  then show ?thesis using rej unfolding keep(1) by (intro settled_keep) auto
next
  case (new w m)
  have "v < w" using rej new(3) by (rule accepts_chain)
  then show ?thesis unfolding new(2) by (intro settled_new) (use new in auto)
qed

theorem apply_settles:
  "invar s \<Longrightarrow> small (apply_events es s) \<Longrightarrow> settled (set es) k (cell s k) (cell (apply_events es s) k)"
proof (induction es s rule: apply_events.induct)
  case (1 s)
  show ?case by (simp add: settled_def)
next
  case (2 k' v l es s)
  let ?s = "put k' (meta_of v) l s"
  have sm: "small ?s" using "2.prems"(2) small_apply by simp
  have inv: "invar ?s" using invar_put [OF "2.prems"(1) sm] .
  have IH: "settled (set es) k (cell ?s k) (cell (apply_events es ?s) k)"
    using "2.IH" inv "2.prems"(2) by simp
  have cell: "cell ?s k = (if k = k' \<and> accepts (fst (cell s k')) (meta_of v)
      then (meta_of v, seen l) else cell s k)"
    using cell_put [OF "2.prems"(1) sm] .
  show ?case
  proof (cases "k = k'")
    case True
    then show ?thesis
      using IH cell settled_accepted settled_rejected by (cases "accepts (fst (cell s k')) (meta_of v)") simp_all
  next
    case False
    then show ?thesis using IH cell by (simp add: settled_other)
  qed
qed

text \<open>An event id names one event, so a version of an author determines the list.\<close>

definition one_list_per_version :: "list_event set \<Rightarrow> bool" where
  "one_list_per_version E \<longleftrightarrow> (\<forall>k v l l'. (k, v, l) \<in> E \<longrightarrow> (k, v, l') \<in> E \<longrightarrow> seen l = seen l')"

lemma settled_unique:
  assumes one: "one_list_per_version E" and "settled E k c0 c" and c': "settled E k c0 c'"
  shows "c = c'"
  using assms(2)
proof (cases rule: settled_cases)
  case keep
  from c' show ?thesis using keep by (cases rule: settled_cases) auto
next
  case (new v l)
  from c' show ?thesis
  proof (cases rule: settled_cases)
    case keep
    then show ?thesis using new by auto
  next
    case (new v' l')
    then have "v = v'" using \<open>(k, v, l) \<in> E\<close> \<open>\<And>v' l'. (k, v', l') \<in> E \<Longrightarrow> v' \<le> v\<close> by (meson antisym)
    then show ?thesis
      using one new(1,2) \<open>(k, v, l) \<in> E\<close> \<open>c = (meta_of v, seen l)\<close>
      unfolding one_list_per_version_def by blast
  qed
qed

text \<open>Order and repetition of the events do not matter.\<close>

theorem apply_order_irrelevant:
  assumes "invar s" "one_list_per_version (set es)" "set es = set es'"
    "small (apply_events es s)" "small (apply_events es' s)"
  shows "cell (apply_events es s) k = cell (apply_events es' s) k"
  using settled_unique [OF assms(2) apply_settles [OF assms(1,4)]]
    apply_settles [OF assms(1,5)] assms(3) by simp

text \<open>Dropping events another event of the batch supersedes does not matter either.\<close>

lemma settled_superset:
  assumes "settled F k c0 c" "F \<subseteq> E" and dom: "\<And>v l. (k, v, l) \<in> E \<Longrightarrow> \<exists>w m. (k, w, m) \<in> F \<and> v \<le> w"
  shows "settled E k c0 c"
  using assms(1)
proof (cases rule: settled_cases)
  case keep
  then show ?thesis unfolding keep(1) using dom accepts_mono by (intro settled_keep) blast
next
  case (new v l)
  have "v' \<le> v" if "(k, v', l') \<in> E" for v' l'
    using dom [OF that] new(4) by (meson order_trans)
  then show ?thesis unfolding new(2) using new assms(2) by (intro settled_new) auto
qed

theorem apply_winners:
  assumes "invar s" "one_list_per_version (set es)" "set ws \<subseteq> set es"
    and "\<And>k v l. (k, v, l) \<in> set es \<Longrightarrow> \<exists>w m. (k, w, m) \<in> set ws \<and> v \<le> w"
    and "small (apply_events es s)" "small (apply_events ws s)"
  shows "cell (apply_events ws s) k = cell (apply_events es s) k"
proof -
  have "settled (set es) k (cell s k) (cell (apply_events ws s) k)"
    using apply_settles [OF assms(1,6)] assms(3,4) by (rule settled_superset)
  then show ?thesis
    using settled_unique [OF assms(2)] apply_settles [OF assms(1,5)] by blast
qed

end

end
