(* ===== verification/Interner.thy ===== *)
theory Interner
  imports WotPrelude
begin

text \<open>
  The pubkey interner (\<open>graph/interner.rs\<close>). An \<open>Arc<str>\<close> is a pointer with its
  contents; the concurrent set is the list of interned arcs, and \<open>next_ptr\<close> stands for the
  allocator, whose addresses are fresh. \<open>intern\<close> has a fast path and a slow path; between the
  two another thread may have interned the same string, so the slow path takes the state it finds.
\<close>

record arc =
  arc_ptr :: nat
  arc_str :: string

record interner =
  interned :: "arc list"
  next_ptr :: nat

definition interner_new :: interner where
  "interner_new = \<lparr>interned = [], next_ptr = 0\<rparr>"

definition interner_get :: "interner \<Rightarrow> string \<Rightarrow> arc option" where
  "interner_get it s = find (\<lambda>a. arc_str a = s) (interned it)"

text \<open>\<open>entry(arc).or_insert(())\<close>: keeps an entry with equal contents.\<close>

definition interner_or_insert :: "interner \<Rightarrow> arc \<Rightarrow> interner" where
  "interner_or_insert it a =
     (case interner_get it (arc_str a) of
        Some _ \<Rightarrow> it
      | None \<Rightarrow> it\<lparr>interned := interned it @ [a]\<rparr>)"

definition intern_slow :: "interner \<Rightarrow> string \<Rightarrow> arc \<times> interner" where
  "intern_slow it s =
     (let a = \<lparr>arc_ptr = next_ptr it, arc_str = s\<rparr>;
          it' = interner_or_insert (it\<lparr>next_ptr := Suc (next_ptr it)\<rparr>) a
      in (case interner_get it' s of Some e \<Rightarrow> (e, it') | None \<Rightarrow> (a, it')))"

definition intern :: "interner \<Rightarrow> string \<Rightarrow> arc \<times> interner" where
  "intern it s =
     (case interner_get it s of
        Some e \<Rightarrow> (e, it)
      | None \<Rightarrow> intern_slow it s)"

definition interner_len :: "interner \<Rightarrow> nat" where
  "interner_len it = length (interned it)"

definition interner_is_empty :: "interner \<Rightarrow> bool" where
  "interner_is_empty it \<longleftrightarrow> interned it = []"

section \<open>One arc per string\<close>

definition interner_wf :: "interner \<Rightarrow> bool" where
  "interner_wf it \<longleftrightarrow>
     distinct (map arc_str (interned it)) \<and> distinct (map arc_ptr (interned it)) \<and>
     (\<forall>a \<in> set (interned it). arc_ptr a < next_ptr it)"

definition interned_strings :: "interner \<Rightarrow> string set" where
  "interned_strings it = arc_str ` set (interned it)"

lemma interner_new_wf [simp]: "interner_wf interner_new" "interned_strings interner_new = {}"
  by (simp_all add: interner_wf_def interner_new_def interned_strings_def)

lemma interner_get_Some: "interner_get it s = Some a \<Longrightarrow> a \<in> set (interned it) \<and> arc_str a = s"
  by (auto simp: interner_get_def find_Some_iff)

lemma interner_get_None: "interner_get it s = None \<longleftrightarrow> s \<notin> interned_strings it"
  by (auto simp: interner_get_def find_None_iff interned_strings_def)

lemma interner_get_in:
  assumes "interner_wf it" "a \<in> set (interned it)"
  shows "interner_get it (arc_str a) = Some a"
proof (cases "interner_get it (arc_str a)")
  case None
  then show ?thesis using assms(2) by (simp add: interner_get_None interned_strings_def)
next
  case (Some b)
  then have "b \<in> set (interned it)" "arc_str b = arc_str a"
    by (simp_all add: interner_get_Some)
  then have "b = a" using assms by (auto simp: interner_wf_def distinct_map dest: inj_onD)
  then show ?thesis using Some by simp
qed

lemma find_append_None: "find P xs = None \<Longrightarrow> find P (xs @ ys) = find P ys"
  by (induction xs) (auto split: if_splits)

lemma intern_slow_fresh:
  "s \<notin> interned_strings it \<Longrightarrow>
     intern_slow it s =
       (\<lparr>arc_ptr = next_ptr it, arc_str = s\<rparr>,
        \<lparr>interned = interned it @ [\<lparr>arc_ptr = next_ptr it, arc_str = s\<rparr>], next_ptr = Suc (next_ptr it)\<rparr>)"
proof -
  assume s: "s \<notin> interned_strings it"
  then have f: "find (\<lambda>a. arc_str a = s) (interned it) = None"
    by (simp add: interner_get_None [unfolded interner_get_def])
  then show ?thesis
    by (simp add: intern_slow_def interner_or_insert_def interner_get_def Let_def find_append_None)
qed

lemma intern_slow_raced:
  "interner_get it s = Some e \<Longrightarrow> intern_slow it s = (e, it\<lparr>next_ptr := Suc (next_ptr it)\<rparr>)"
  by (simp add: intern_slow_def interner_or_insert_def interner_get_def Let_def)

lemma intern_slow_wf:
  assumes "interner_wf it" "intern_slow it s = (e, it')"
  shows "interner_wf it' \<and> arc_str e = s \<and> interned_strings it' = insert s (interned_strings it) \<and>
    interner_get it' s = Some e \<and> set (interned it) \<subseteq> set (interned it')"
proof (cases "s \<in> interned_strings it")
  case True
  then obtain e0 where e0: "interner_get it s = Some e0"
    using interner_get_None [of it s] by auto
  have e: "e = e0" "it' = it\<lparr>next_ptr := Suc (next_ptr it)\<rparr>"
    using intern_slow_raced [OF e0] assms(2) by simp_all
  show ?thesis
    using assms(1) e0 True interner_get_Some [OF e0]
    by (auto simp: e interner_wf_def interned_strings_def interner_get_def)
next
  case False
  let ?a = "\<lparr>arc_ptr = next_ptr it, arc_str = s\<rparr>"
  have e: "e = ?a" "it' = \<lparr>interned = interned it @ [?a], next_ptr = Suc (next_ptr it)\<rparr>"
    using intern_slow_fresh [OF False] assms(2) by simp_all
  have wf: "interner_wf it'"
    using assms(1) False by (auto simp: e(2) interner_wf_def interned_strings_def)
  then have "interner_get it' (arc_str ?a) = Some ?a"
    by (rule interner_get_in) (simp add: e(2))
  then show ?thesis using wf by (auto simp: e interned_strings_def)
qed

lemma intern_wf:
  assumes "interner_wf it" "intern it s = (e, it')"
  shows "interner_wf it' \<and> arc_str e = s \<and> interned_strings it' = insert s (interned_strings it) \<and>
    interner_get it' s = Some e \<and> set (interned it) \<subseteq> set (interned it')"
proof (cases "interner_get it s")
  case None
  then show ?thesis using assms intern_slow_wf by (simp add: intern_def)
next
  case (Some e0)
  then have "e = e0" "it' = it" using assms(2) by (simp_all add: intern_def)
  then show ?thesis
    using assms(1) Some interner_get_Some [OF Some] by (auto simp: interned_strings_def)
qed

lemma intern_str [simp]: "arc_str (fst (intern it s)) = s"
proof (cases "interner_get it s")
  case None
  then have "s \<notin> interned_strings it" by (simp add: interner_get_None)
  then show ?thesis using None by (simp add: intern_def intern_slow_fresh)
next
  case (Some e)
  then show ?thesis by (simp add: intern_def interner_get_Some)
qed

text \<open>
  Whatever the other threads interned in between, two calls for one string return one pointer.
\<close>

lemma intern_shares:
  assumes "interner_wf it" "intern it s = (e, it1)"
    and "interner_wf it2" "set (interned it1) \<subseteq> set (interned it2)"
  shows "fst (intern it2 s) = e" "fst (intern_slow it2 s) = e"
proof -
  have "e \<in> set (interned it2)" "arc_str e = s"
    using intern_wf [OF assms(1,2)] interner_get_Some assms(4) by blast+
  then have "interner_get it2 s = Some e"
    using interner_get_in [OF assms(3)] by blast
  then show "fst (intern it2 s) = e" "fst (intern_slow it2 s) = e"
    by (simp_all add: intern_def intern_slow_raced)
qed

end
