(* ===== verification/GraphStore.thy ===== *)
theory GraphStore
  imports EventOrder Interner "HOL-Library.AList"
begin

text \<open>
  The follow graph (\<open>graph/store.rs\<close>): its state and the operations that change it. A
  \<open>DashMap\<close> is a partial map, the \<open>RwLock<Vec<_>>\<close> fields are lists indexed by node id, the
  mute lists an association list (so that \<open>values()\<close> can be traversed). The \<open>mutation\<close>
  mutex serialises the writers, so an operation is one state transformation; pubkeys are compared
  by their contents, so the graph stores the string of an interned \<open>Arc<str>\<close>. The lock timing
  metrics are modelled in their own theory. Node ids are natural numbers truncated to 32 bits
  where the code casts; the revision is a 64-bit word and wraps as \<open>fetch_add\<close> does.
\<close>

section \<open>State\<close>

record node_info =
  kind3_event_id :: "string option"
  kind3_created_at :: "int option"

record mute_list =
  mute_ids :: "nat list"
  mute_event_id :: "string option"
  mute_created_at :: "int option"

record wot_graph =
  revision :: u64
  interner :: interner
  pubkey_to_id :: "string \<Rightarrow> nat option"
  id_to_pubkey :: "string list"
  follows :: "nat list list"
  followers :: "nat list list"
  node_infos :: "node_info option list"
  mutes :: "(nat \<times> mute_list) list"

definition graph_new :: wot_graph where
  "graph_new =
     \<lparr>revision = 0, interner = interner_new, pubkey_to_id = Map.empty, id_to_pubkey = [],
      follows = [], followers = [], node_infos = [], mutes = []\<rparr>"

definition bump :: "wot_graph \<Rightarrow> wot_graph" where
  "bump g = g\<lparr>revision := revision g + 1\<rparr>"

section \<open>Nodes\<close>

text \<open>
  The second look-up of \<open>get_or_create_node_locked\<close>, after the write locks are taken, finds
  what the first one found, because the caller holds \<open>mutation\<close>.
\<close>

definition get_or_create_node_locked :: "wot_graph \<Rightarrow> string \<Rightarrow> nat \<times> wot_graph" where
  "get_or_create_node_locked g pubkey =
     (case pubkey_to_id g pubkey of
        Some nid \<Rightarrow> (nid, g)
      | None \<Rightarrow>
          let (a, it) = intern (interner g) pubkey;
              nid = as_u32 (length (id_to_pubkey g))
          in (nid, bump (g\<lparr>interner := it,
                          id_to_pubkey := id_to_pubkey g @ [arc_str a],
                          follows := follows g @ [[]],
                          followers := followers g @ [[]],
                          node_infos := node_infos g @ [None],
                          pubkey_to_id := (pubkey_to_id g)(arc_str a \<mapsto> nid)\<rparr>)))"

definition get_or_create_node :: "wot_graph \<Rightarrow> string \<Rightarrow> nat \<times> wot_graph" where
  "get_or_create_node g pubkey =
     (case pubkey_to_id g pubkey of
        Some nid \<Rightarrow> (nid, g)
      | None \<Rightarrow> get_or_create_node_locked g pubkey)"

fun get_or_create_nodes :: "wot_graph \<Rightarrow> string list \<Rightarrow> nat list \<times> wot_graph" where
  "get_or_create_nodes g [] = ([], g)"
| "get_or_create_nodes g (pk # pks) =
     (let (nid, g1) = get_or_create_node_locked g pk;
          (ids, g2) = get_or_create_nodes g1 pks
      in (nid # ids, g2))"

section \<open>Follow lists\<close>

text \<open>The merge loop of \<open>update_follows\<close>: ids to remove and ids to add.\<close>

fun diff_sorted :: "nat list \<Rightarrow> nat list \<Rightarrow> nat list \<times> nat list" where
  "diff_sorted [] new = ([], new)"
| "diff_sorted old [] = (old, [])"
| "diff_sorted (o' # old) (n # new) =
     (if o' < n then
        let (to_remove, to_add) = diff_sorted old (n # new) in (o' # to_remove, to_add)
      else if n < o' then
        let (to_remove, to_add) = diff_sorted (o' # old) new in (to_remove, n # to_add)
      else diff_sorted old new)"

text \<open>\<open>get_mut\<close> of an id out of range finds nothing to change.\<close>

definition remove_follower :: "nat \<Rightarrow> nat \<Rightarrow> nat list list \<Rightarrow> nat list list" where
  "remove_follower node_id old_followed fls =
     (case index fls old_followed of
        None \<Rightarrow> fls
      | Some fl \<Rightarrow>
          (case binary_search fl node_id of
             Ok pos \<Rightarrow> fls[old_followed := vec_remove pos fl]
           | Err _ \<Rightarrow> fls))"

definition add_follower :: "nat \<Rightarrow> nat \<Rightarrow> nat list list \<Rightarrow> nat list list" where
  "add_follower node_id followed fls =
     (case index fls followed of
        None \<Rightarrow> fls
      | Some fl \<Rightarrow>
          (case binary_search fl node_id of
             Ok _ \<Rightarrow> fls
           | Err pos \<Rightarrow> fls[followed := vec_insert pos node_id fl]))"

definition set_node_info :: "nat \<Rightarrow> node_info \<Rightarrow> wot_graph \<Rightarrow> wot_graph" where
  "set_node_info node_id info g = g\<lparr>node_infos := (node_infos g)[node_id := Some info]\<rparr>"

definition replace_follows :: "nat \<Rightarrow> nat list \<Rightarrow> wot_graph \<Rightarrow> wot_graph" where
  "replace_follows node_id new_follow_ids g =
     (let old_follow_ids = (case index (follows g) node_id of Some l \<Rightarrow> l | None \<Rightarrow> []);
          (to_remove, to_add) = diff_sorted old_follow_ids new_follow_ids;
          edges_changed = (to_remove \<noteq> [] \<or> to_add \<noteq> []);
          g1 = g\<lparr>followers := fold (add_follower node_id) to_add
                               (fold (remove_follower node_id) to_remove (followers g)),
                 follows := (follows g)[node_id := new_follow_ids]\<rparr>
      in if edges_changed then bump g1 else g1)"

definition update_follows ::
    "wot_graph \<Rightarrow> string \<Rightarrow> string list \<Rightarrow> string option \<Rightarrow> int option \<Rightarrow> bool \<times> wot_graph" where
  "update_follows g pubkey follow_pubkeys event_id created_at =
     (let (node_id, g1) = get_or_create_node_locked g pubkey;
          stale = (case index (node_infos g1) node_id of
                     Some (Some info) \<Rightarrow>
                       \<not> accepts_event (kind3_created_at info) (kind3_event_id info) created_at event_id
                   | _ \<Rightarrow> False)
      in if stale then (False, g1)
         else
           let (ids, g2) = get_or_create_nodes g1 follow_pubkeys;
               g3 = replace_follows node_id (sort_dedup ids) g2
           in (True, set_node_info node_id
                       \<lparr>kind3_event_id = event_id, kind3_created_at = created_at\<rparr> g3))"

section \<open>Mute lists\<close>

definition update_mutes ::
    "wot_graph \<Rightarrow> string \<Rightarrow> string list \<Rightarrow> string option \<Rightarrow> int option \<Rightarrow> bool \<times> wot_graph" where
  "update_mutes g pubkey mute_pubkeys event_id created_at =
     (let (node_id, g1) = get_or_create_node_locked g pubkey;
          stale = (case map_of (mutes g1) node_id of
                     Some old \<Rightarrow>
                       \<not> accepts_event (mute_created_at old) (mute_event_id old) created_at event_id
                   | None \<Rightarrow> False)
      in if stale then (False, g1)
         else
           let (ids, g2) = get_or_create_nodes g1 mute_pubkeys
           in (True, bump (g2\<lparr>mutes := AList.update node_id
                 \<lparr>mute_ids = sort_dedup ids, mute_event_id = event_id, mute_created_at = created_at\<rparr>
                 (mutes g2)\<rparr>)))"

section \<open>Well-formed graphs\<close>

abbreviation node_count :: "wot_graph \<Rightarrow> nat" where
  "node_count g \<equiv> length (id_to_pubkey g)"

definition names_wf :: "wot_graph \<Rightarrow> bool" where
  "names_wf g \<longleftrightarrow>
     distinct (id_to_pubkey g) \<and>
     (\<forall>pk i. pubkey_to_id g pk = Some i \<longleftrightarrow> i < node_count g \<and> id_to_pubkey g ! i = pk) \<and>
     interner_wf (interner g) \<and> interned_strings (interner g) = set (id_to_pubkey g)"

text \<open>\<open>followers\<close> is the transpose of \<open>follows\<close>; every vector is strictly increasing.\<close>

definition adjacency_wf :: "nat list list \<Rightarrow> nat list list \<Rightarrow> bool" where
  "adjacency_wf out inn \<longleftrightarrow>
     length inn = length out \<and>
     (\<forall>ts \<in> set out. row_ok (length out) ts) \<and>
     (\<forall>i<length out. increasing (inn ! i) \<and> set (inn ! i) = {j. j < length out \<and> i \<in> set (out ! j)})"

definition mutes_wf :: "nat \<Rightarrow> (nat \<times> mute_list) list \<Rightarrow> bool" where
  "mutes_wf n ms \<longleftrightarrow>
     distinct (map fst ms) \<and>
     (\<forall>(i, l) \<in> set ms. i < n \<and> increasing (mute_ids l) \<and> set (mute_ids l) \<subseteq> {..<n})"

definition graph_wf :: "wot_graph \<Rightarrow> bool" where
  "graph_wf g \<longleftrightarrow>
     names_wf g \<and> length (follows g) = node_count g \<and> length (node_infos g) = node_count g \<and>
     adjacency_wf (follows g) (followers g) \<and> mutes_wf (node_count g) (mutes g) \<and>
     (\<forall>i<node_count g. node_infos g ! i = None \<longrightarrow> follows g ! i = [])"

text \<open>Node ids fit in \<open>u32\<close>.\<close>

definition graph_small :: "wot_graph \<Rightarrow> bool" where
  "graph_small g \<longleftrightarrow> node_count g \<le> 2 ^ 32"

section \<open>What an observer reads\<close>

definition name_of :: "wot_graph \<Rightarrow> nat \<Rightarrow> string" where
  "name_of g i = id_to_pubkey g ! i"

text \<open>
  The follow cell of a pubkey: the provenance of its list and the pubkeys in it; the mute cell
  the same, with \<open>None\<close> for a list that was never received.
\<close>

definition follow_cell :: "wot_graph \<Rightarrow> string \<Rightarrow> meta \<times> string set" where
  "follow_cell g a =
     (case pubkey_to_id g a of
        None \<Rightarrow> ((None, None), {})
      | Some i \<Rightarrow>
          ((case node_infos g ! i of
              None \<Rightarrow> (None, None)
            | Some info \<Rightarrow> (kind3_created_at info, kind3_event_id info)),
           name_of g ` set (follows g ! i)))"

definition mute_cell :: "wot_graph \<Rightarrow> string \<Rightarrow> meta \<times> string set option" where
  "mute_cell g a =
     (case pubkey_to_id g a of
        None \<Rightarrow> ((None, None), None)
      | Some i \<Rightarrow>
          (case map_of (mutes g) i of
             None \<Rightarrow> ((None, None), None)
           | Some l \<Rightarrow> ((mute_created_at l, mute_event_id l), Some (name_of g ` set (mute_ids l)))))"

lemma graph_new_wf [simp]: "graph_wf graph_new" "graph_small graph_new"
  by (simp_all add: graph_wf_def graph_new_def names_wf_def adjacency_wf_def mutes_wf_def graph_small_def)

end
