(* ===== verification/GraphInvariant.thy ===== *)
theory GraphInvariant
  imports GraphStore
begin

text \<open>
  Node creation and the graph's invariant. Creating nodes extends the graph with isolated nodes
  (\<open>extends\<close>) and changes no cell an observer reads. \<open>update_follows\<close> and
  \<open>update_mutes\<close> keep the invariant and write exactly their own cell; the graph is a
  \<open>lww_store\<close> twice, once for follow lists and once for mute lists.
\<close>

section \<open>Adding isolated nodes\<close>

definition extends :: "wot_graph \<Rightarrow> string list \<Rightarrow> wot_graph \<Rightarrow> bool" where
  "extends g ps g' \<longleftrightarrow>
     id_to_pubkey g' = id_to_pubkey g @ ps \<and>
     follows g' = follows g @ replicate (length ps) [] \<and>
     followers g' = followers g @ replicate (length ps) [] \<and>
     node_infos g' = node_infos g @ replicate (length ps) None \<and>
     mutes g' = mutes g \<and> revision g' = revision g + of_nat (length ps)"

lemma extends_refl [simp]: "extends g [] g"
  by (simp add: extends_def)

lemma extends_trans: "extends g ps g1 \<Longrightarrow> extends g1 qs g2 \<Longrightarrow> extends g (ps @ qs) g2"
  by (simp add: extends_def replicate_add)

lemma locked_known: "pubkey_to_id g pk = Some nid \<Longrightarrow> get_or_create_node_locked g pk = (nid, g)"
  by (simp add: get_or_create_node_locked_def)

lemma locked_fresh:
  "pubkey_to_id g pk = None \<Longrightarrow>
     get_or_create_node_locked g pk =
       (as_u32 (node_count g),
        bump (g\<lparr>interner := snd (intern (interner g) pk), id_to_pubkey := id_to_pubkey g @ [pk],
                follows := follows g @ [[]], followers := followers g @ [[]],
                node_infos := node_infos g @ [None],
                pubkey_to_id := (pubkey_to_id g)(pk \<mapsto> as_u32 (node_count g))\<rparr>))"
  by (cases "intern (interner g) pk")
    (simp add: get_or_create_node_locked_def Let_def, metis fst_conv intern_str)

lemma get_or_create_node_eq: "get_or_create_node g pk = get_or_create_node_locked g pk"
  by (simp add: get_or_create_node_def get_or_create_node_locked_def split: option.split)

lemma locked_extends:
  assumes "get_or_create_node_locked g pk = (nid, g')"
  obtains (old) "pubkey_to_id g pk = Some nid" "g' = g"
    | (new) "pubkey_to_id g pk = None" "extends g [pk] g'" "nid = as_u32 (node_count g)"
proof (cases "pubkey_to_id g pk")
  case None
  then show thesis using assms by (intro new) (auto simp: locked_fresh extends_def bump_def)
next
  case (Some i)
  then show thesis using assms by (intro old) (auto simp: locked_known)
qed

lemma nodes_extends: "get_or_create_nodes g pks = (ids, g') \<Longrightarrow> \<exists>ps. extends g ps g'"
proof (induction pks arbitrary: g ids g')
  case Nil
  then show ?case by (auto intro: exI [of _ "[]"])
next
  case (Cons pk pks)
  obtain nid g1 where 1: "get_or_create_node_locked g pk = (nid, g1)" by fastforce
  obtain ids' g2 where 2: "get_or_create_nodes g1 pks = (ids', g2)" by fastforce
  have "\<exists>ps. extends g ps g1" using 1 by (cases rule: locked_extends) (auto intro: extends_refl)
  moreover have "g2 = g'" using Cons.prems 1 2 by simp
  ultimately show ?case using Cons.IH [OF 2] extends_trans by blast
qed

lemma extends_small: "extends g ps g' \<Longrightarrow> graph_small g' \<Longrightarrow> graph_small g"
  by (auto simp: extends_def graph_small_def)

lemma nth_append_replicate:
  "i < length xs + k \<Longrightarrow> (xs @ replicate k y) ! i = (if i < length xs then xs ! i else y)"
  by (simp add: nth_append)

lemma adjacency_wf_append:
  assumes wf: "adjacency_wf out inn"
  shows "adjacency_wf (out @ replicate k []) (inn @ replicate k [])"
proof -
  let ?out = "out @ replicate k []" and ?n = "length out"
  have "{j. j < length ?out \<and> i \<in> set (?out ! j)} =
      (if i < ?n then {j. j < ?n \<and> i \<in> set (out ! j)} else {})" for i
  proof -
    have "j < length ?out \<and> i \<in> set (?out ! j) \<longleftrightarrow> j < ?n \<and> i \<in> set (out ! j)" for j
      by (cases "j < ?n") (simp_all add: nth_append)
    moreover have "\<not> i < ?n \<Longrightarrow> j < ?n \<Longrightarrow> i \<notin> set (out ! j)" for j
      using wf row_ok_bound unfolding adjacency_wf_def by (metis nth_mem)
    ultimately show ?thesis by auto
  qed
  moreover have "length inn = ?n" "\<forall>ts \<in> set out. row_ok ?n ts"
    "\<And>i. i < ?n \<Longrightarrow> increasing (inn ! i) \<and> set (inn ! i) = {j. j < ?n \<and> i \<in> set (out ! j)}"
    using wf by (simp_all add: adjacency_wf_def)
  ultimately show ?thesis
    unfolding adjacency_wf_def
    by (auto simp: nth_append_replicate intro: row_ok_mono)
qed

lemma locked_names_wf:
  assumes "names_wf g" "get_or_create_node_locked g pk = (nid, g')" "graph_small g'"
  shows "names_wf g' \<and> pubkey_to_id g' pk = Some nid \<and> pubkey_to_id g \<subseteq>\<^sub>m pubkey_to_id g'"
proof (cases "pubkey_to_id g pk")
  case None
  then have g': "nid = as_u32 (node_count g)"
    "g' = bump (g\<lparr>interner := snd (intern (interner g) pk), id_to_pubkey := id_to_pubkey g @ [pk],
                follows := follows g @ [[]], followers := followers g @ [[]],
                node_infos := node_infos g @ [None],
                pubkey_to_id := (pubkey_to_id g)(pk \<mapsto> as_u32 (node_count g))\<rparr>)"
    using assms(2) unfolding locked_fresh [OF None] by auto
  have nid: "nid = node_count g"
    using assms(3) by (simp add: g' as_u32_id bump_def graph_small_def)
  have fresh: "pk \<notin> set (id_to_pubkey g)"
    using None assms(1) unfolding names_wf_def by (metis in_set_conv_nth option.distinct(1))
  have it: "interner_wf (snd (intern (interner g) pk))"
    "interned_strings (snd (intern (interner g) pk)) = insert pk (interned_strings (interner g))"
    using intern_wf [of "interner g" pk] assms(1) unfolding names_wf_def by (metis prod.collapse)+
  have "\<forall>a i. pubkey_to_id g' a = Some i \<longleftrightarrow> i < node_count g' \<and> id_to_pubkey g' ! i = a"
    using assms(1) fresh nid unfolding names_wf_def
    by (auto simp: g' bump_def nth_append less_Suc_eq)
  moreover have "distinct (id_to_pubkey g')" "interner_wf (interner g')"
    "interned_strings (interner g') = set (id_to_pubkey g')"
    using assms(1) fresh it unfolding names_wf_def by (simp_all add: g' bump_def)
  ultimately have "names_wf g'" unfolding names_wf_def by blast
  moreover have "pubkey_to_id g' = (pubkey_to_id g)(pk \<mapsto> nid)"
    by (simp add: g' bump_def)
  ultimately show ?thesis using None by (auto simp: map_le_def)
next
  case (Some i)
  then show ?thesis using assms by (auto simp: locked_known)
qed

lemma extends_graph_wf:
  assumes "graph_wf g" "extends g ps g'" "names_wf g'"
  shows "graph_wf g'"
proof -
  have len: "length (follows g) = node_count g" "length (node_infos g) = node_count g"
    using assms(1) by (simp_all add: graph_wf_def)
  have "adjacency_wf (follows g') (followers g')"
    using assms(1,2) adjacency_wf_append by (simp add: graph_wf_def extends_def)
  moreover have "mutes_wf (node_count g') (mutes g')"
    using assms(1,2) by (fastforce simp: graph_wf_def extends_def mutes_wf_def)
  moreover have "\<forall>i<node_count g'. node_infos g' ! i = None \<longrightarrow> follows g' ! i = []"
    using assms(1,2) len by (auto simp: graph_wf_def extends_def nth_append)
  ultimately show ?thesis
    using assms len by (simp add: graph_wf_def extends_def)
qed

lemma names_wf_iff: "names_wf g \<Longrightarrow> pubkey_to_id g a = Some i \<longleftrightarrow> i < node_count g \<and> id_to_pubkey g ! i = a"
  by (simp add: names_wf_def)

lemma graph_wf_names [simp]: "graph_wf g \<Longrightarrow> names_wf g"
  by (simp add: graph_wf_def)

lemma graph_wf_ids:
  assumes "graph_wf g" "i < node_count g"
  shows "increasing (follows g ! i)" "set (follows g ! i) \<subseteq> {..<node_count g}"
    "increasing (followers g ! i)" "set (followers g ! i) = {j. j < node_count g \<and> i \<in> set (follows g ! j)}"
proof -
  have "adjacency_wf (follows g) (followers g)" "length (follows g) = node_count g"
    using assms(1) by (simp_all add: graph_wf_def)
  then show "increasing (follows g ! i)" "set (follows g ! i) \<subseteq> {..<node_count g}"
    "increasing (followers g ! i)" "set (followers g ! i) = {j. j < node_count g \<and> i \<in> set (follows g ! j)}"
    using assms(2) unfolding adjacency_wf_def row_ok_def by (metis nth_mem)+
qed

lemma graph_wf_lengths:
  assumes "graph_wf g"
  shows "length (follows g) = node_count g" "length (followers g) = node_count g"
    "length (node_infos g) = node_count g"
  using assms by (simp_all add: graph_wf_def adjacency_wf_def)

lemma mutes_wf_ids:
  assumes "mutes_wf n ms" "map_of ms i = Some l"
  shows "i < n" "increasing (mute_ids l)" "set (mute_ids l) \<subseteq> {..<n}"
  using assms map_of_SomeD [OF assms(2)] by (fastforce simp: mutes_wf_def)+

text \<open>A revision bump shows nowhere else.\<close>

lemma bump_fields [simp]:
  "id_to_pubkey (bump g) = id_to_pubkey g" "pubkey_to_id (bump g) = pubkey_to_id g"
  "interner (bump g) = interner g" "follows (bump g) = follows g" "followers (bump g) = followers g"
  "node_infos (bump g) = node_infos g" "mutes (bump g) = mutes g" "revision (bump g) = revision g + 1"
  by (simp_all add: bump_def)

lemma bump_wf [simp]: "graph_wf (bump g) = graph_wf g" "graph_small (bump g) = graph_small g"
  by (simp_all add: graph_wf_def graph_small_def names_wf_def)

lemma bump_cells [simp]: "follow_cell (bump g) = follow_cell g" "mute_cell (bump g) = mute_cell g"
  by (rule ext; simp add: follow_cell_def mute_cell_def name_of_def split: option.split)+

text \<open>Isolated nodes show in no cell.\<close>

lemma extends_name: "extends g ps g' \<Longrightarrow> i < node_count g \<Longrightarrow> name_of g' i = name_of g i"
  by (simp add: extends_def name_of_def nth_append)

lemma extends_cells:
  assumes g: "graph_wf g" and e: "extends g ps g'" and n': "names_wf g'"
  shows "follow_cell g' a = follow_cell g a" "mute_cell g' a = mute_cell g a"
proof -
  have len: "length (follows g) = node_count g" "length (node_infos g) = node_count g"
    using g by (simp_all add: graph_wf_def)
  have image: "name_of g' ` A = name_of g ` A" if "A \<subseteq> {..<node_count g}" for A
    using that extends_name [OF e] by (intro image_cong) auto
  have "follow_cell g' a = follow_cell g a \<and> mute_cell g' a = mute_cell g a"
  proof (cases "pubkey_to_id g a")
    case (Some i)
    then have i: "i < node_count g" "id_to_pubkey g ! i = a"
      using names_wf_iff g by auto
    then have "pubkey_to_id g' a = Some i"
      using names_wf_iff [OF n'] e by (simp add: extends_def nth_append)
    moreover have "follows g' ! i = follows g ! i" "node_infos g' ! i = node_infos g ! i"
      "mutes g' = mutes g"
      using e i len by (simp_all add: extends_def nth_append)
    moreover have "set (follows g ! i) \<subseteq> {..<node_count g}"
      using graph_wf_ids [OF g i(1)] by simp
    moreover have "set (mute_ids l) \<subseteq> {..<node_count g}" if "map_of (mutes g) i = Some l" for l
      using mutes_wf_ids [OF _ that] g by (simp add: graph_wf_def)
    ultimately show ?thesis
      using Some image by (auto simp: follow_cell_def mute_cell_def split: option.split)
  next
    case None
    show ?thesis
    proof (cases "pubkey_to_id g' a")
      case None
      then show ?thesis using \<open>pubkey_to_id g a = None\<close> by (simp add: follow_cell_def mute_cell_def)
    next
      case (Some i)
      then have i: "i < node_count g'" "id_to_pubkey g' ! i = a"
        using names_wf_iff n' by auto
      have "\<not> i < node_count g"
      proof
        assume "i < node_count g"
        then have "pubkey_to_id g a = Some i"
          using names_wf_iff [of g a i] g i(2) e by (simp add: extends_def nth_append)
        then show False using None by simp
      qed
      then have "follows g' ! i = []" "node_infos g' ! i = None" "map_of (mutes g') i = None"
        using e i(1) len mutes_wf_ids(1) [of "node_count g" "mutes g" i] g
        by (auto simp: extends_def nth_append graph_wf_def intro: ccontr)
      then show ?thesis
        using None Some by (simp add: follow_cell_def mute_cell_def)
    qed
  qed
  then show "follow_cell g' a = follow_cell g a" "mute_cell g' a = mute_cell g a" by auto
qed

text \<open>What the callers of node creation use.\<close>

lemma locked_wf:
  assumes "graph_wf g" "get_or_create_node_locked g pk = (nid, g')" "graph_small g'"
  shows "graph_wf g' \<and> pubkey_to_id g' pk = Some nid \<and> pubkey_to_id g \<subseteq>\<^sub>m pubkey_to_id g' \<and>
    follow_cell g' = follow_cell g \<and> mute_cell g' = mute_cell g"
proof -
  have n: "names_wf g'" "pubkey_to_id g' pk = Some nid" "pubkey_to_id g \<subseteq>\<^sub>m pubkey_to_id g'"
    using locked_names_wf [OF _ assms(2,3)] assms(1) by auto
  obtain ps where e: "extends g ps g'"
    using assms(2) by (cases rule: locked_extends) (auto intro: extends_refl)
  show ?thesis
    using n extends_graph_wf [OF assms(1) e n(1)] extends_cells [OF assms(1) e n(1)] by auto
qed

lemma nodes_wf:
  "graph_wf g \<Longrightarrow> get_or_create_nodes g pks = (ids, g') \<Longrightarrow> graph_small g' \<Longrightarrow>
     graph_wf g' \<and> pubkey_to_id g \<subseteq>\<^sub>m pubkey_to_id g' \<and> map (pubkey_to_id g') pks = map Some ids \<and>
     follow_cell g' = follow_cell g \<and> mute_cell g' = mute_cell g"
proof (induction pks arbitrary: g ids g')
  case Nil
  then show ?case by simp
next
  case (Cons pk pks)
  obtain nid g1 where 1: "get_or_create_node_locked g pk = (nid, g1)" by fastforce
  obtain ids' g2 where 2: "get_or_create_nodes g1 pks = (ids', g2)" by fastforce
  have eq: "ids = nid # ids'" "g' = g2" using Cons.prems(2) 1 2 by simp_all
  have small: "graph_small g1"
    using nodes_extends [OF 2] extends_small Cons.prems(3) eq by blast
  note w1 = locked_wf [OF Cons.prems(1) 1 small]
  note w2 = Cons.IH [OF conjunct1 [OF w1] 2 Cons.prems(3) [unfolded eq(2)]]
  have "pubkey_to_id g2 pk = Some nid"
    using w1 w2 by (metis map_le_def domI)
  then show ?case using w1 w2 unfolding eq by (auto intro: map_le_trans)
qed

section \<open>Revisions\<close>

text \<open>
  \<open>advance k g g'\<close>: from \<open>g\<close> to \<open>g'\<close> names were only appended, and the revision counter
  was bumped once for every new name and at most \<open>k\<close> times more; where it was not bumped at all,
  nothing a query reads has changed.
\<close>

definition same_view :: "wot_graph \<Rightarrow> wot_graph \<Rightarrow> bool" where
  "same_view g g' \<longleftrightarrow>
     pubkey_to_id g' = pubkey_to_id g \<and> id_to_pubkey g' = id_to_pubkey g \<and>
     follows g' = follows g \<and> followers g' = followers g \<and> mutes g' = mutes g"

definition advance :: "nat \<Rightarrow> wot_graph \<Rightarrow> wot_graph \<Rightarrow> bool" where
  "advance k g g' \<longleftrightarrow>
     (\<exists>ps c. id_to_pubkey g' = id_to_pubkey g @ ps \<and> c \<le> length ps + k \<and>
        revision g' = revision g + of_nat c \<and> (c = 0 \<longrightarrow> same_view g g'))"

lemma same_view_refl [simp]: "same_view g g"
  by (simp add: same_view_def)

lemma same_view_trans: "same_view g g1 \<Longrightarrow> same_view g1 g2 \<Longrightarrow> same_view g g2"
  by (simp add: same_view_def)

lemma advance_refl [simp]: "advance k g g"
  unfolding advance_def by (intro exI [of _ "[]"] exI [of _ 0]) simp

lemma advance_trans: "advance j g g1 \<Longrightarrow> advance k g1 g2 \<Longrightarrow> advance (j + k) g g2"
proof -
  assume "advance j g g1" "advance k g1 g2"
  then obtain ps c qs d where "id_to_pubkey g1 = id_to_pubkey g @ ps" "c \<le> length ps + j"
    "revision g1 = revision g + of_nat c" "c = 0 \<longrightarrow> same_view g g1"
    "id_to_pubkey g2 = id_to_pubkey g1 @ qs" "d \<le> length qs + k"
    "revision g2 = revision g1 + of_nat d" "d = 0 \<longrightarrow> same_view g1 g2"
    unfolding advance_def by blast
  then show ?thesis
    unfolding advance_def
    by (intro exI [of _ "ps @ qs"] exI [of _ "c + d"]) (auto intro: same_view_trans)
qed

lemma advance_step:
  "id_to_pubkey g' = id_to_pubkey g \<Longrightarrow> revision g' = revision g + of_nat c \<Longrightarrow> c \<le> k \<Longrightarrow>
     (c = 0 \<Longrightarrow> same_view g g') \<Longrightarrow> advance k g g'"
  unfolding advance_def by (intro exI [of _ "[]"] exI [of _ c]) simp

lemma advance_locked: "get_or_create_node_locked g pk = (nid, g') \<Longrightarrow> advance 0 g g'"
proof -
  assume "get_or_create_node_locked g pk = (nid, g')"
  then show ?thesis
  proof (cases rule: locked_extends)
    case new
    then show ?thesis
      unfolding advance_def extends_def by (intro exI [of _ "[pk]"] exI [of _ 1]) simp
  qed simp
qed

lemma advance_nodes: "get_or_create_nodes g pks = (ids, g') \<Longrightarrow> advance 0 g g'"
proof (induction pks arbitrary: g ids g')
  case (Cons pk pks)
  obtain nid g1 where 1: "get_or_create_node_locked g pk = (nid, g1)" by fastforce
  obtain ids' g2 where 2: "get_or_create_nodes g1 pks = (ids', g2)" by fastforce
  show ?case
    using advance_trans [OF advance_locked [OF 1] Cons.IH [OF 2]] Cons.prems 1 2 by simp
qed simp

text \<open>The counter is wide enough: it does not come back to an old value within the node bound.\<close>

lemma advance_unchanged:
  assumes "advance k g g'" "graph_small g'" "k < 2 ^ 64 - 2 ^ 32" "revision g' = revision g"
  shows "same_view g g'"
proof -
  obtain ps c where c: "id_to_pubkey g' = id_to_pubkey g @ ps" "c \<le> length ps + k"
    "revision g' = revision g + of_nat c" "c = 0 \<longrightarrow> same_view g g'"
    using assms(1) unfolding advance_def by blast
  have "length ps \<le> 2 ^ 32" using assms(2) c(1) by (simp add: graph_small_def)
  then have "c < 2 ^ 64" using c(2) assms(3) by simp
  moreover have "(of_nat c :: u64) = 0" using c(3) assms(4) by simp
  ultimately have "c = 0" by (rule u64_of_nat_zero)
  then show ?thesis using c(4) by simp
qed

end
