(* ===== verification/GraphUpdate.thy ===== *)
theory GraphUpdate
  imports GraphInvariant
begin

text \<open>
  What \<open>update_follows\<close> and \<open>update_mutes\<close> do: the merge loop computes the two set
  differences, the reverse adjacency stays the transpose, the invariant is kept, and exactly the
  author's cell changes, when the event is accepted. Both make the graph a \<open>lww_store\<close>.
\<close>

section \<open>The merge loop\<close>

lemma diff_sorted_sets:
  "increasing old \<Longrightarrow> increasing new \<Longrightarrow> diff_sorted old new = (r, a) \<Longrightarrow>
     set r = set old - set new \<and> set a = set new - set old"
proof (induction old new arbitrary: r a rule: diff_sorted.induct)
  case (3 x old y new)
  obtain r1 a1 where 1: "diff_sorted old (y # new) = (r1, a1)" by fastforce
  obtain r2 a2 where 2: "diff_sorted (x # old) new = (r2, a2)" by fastforce
  consider (lt) "x < y" | (gt) "y < x" | (eq) "x = y" by (rule linorder_cases)
  then show ?case
  proof cases
    case lt
    have "set r1 = set old - set (y # new) \<and> set a1 = set (y # new) - set old"
      by (rule "3.IH"(1) [OF lt _ _ 1]) (use "3.prems"(1,2) in auto)
    moreover have "r = x # r1" "a = a1" using "3.prems"(3) lt 1 by simp_all
    moreover have "x \<notin> set (y # new)" using "3.prems"(2) lt by auto
    ultimately show ?thesis by auto
  next
    case gt
    have "set r2 = set (x # old) - set new \<and> set a2 = set new - set (x # old)"
      by (rule "3.IH"(2) [OF _ gt _ _ 2]) (use gt "3.prems"(1,2) in auto)
    moreover have "r = r2" "a = y # a2" using "3.prems"(3) gt 2 by simp_all
    moreover have "y \<notin> set (x # old)" using "3.prems"(1) gt by auto
    ultimately show ?thesis by auto
  next
    case eq
    have d: "diff_sorted old new = (r, a)" using "3.prems"(3) eq by simp
    have "set r = set old - set new \<and> set a = set new - set old"
      by (rule "3.IH"(3) [OF _ _ _ _ d]) (use eq "3.prems"(1,2) in auto)
    then show ?thesis using "3.prems"(1,2) eq by auto
  qed
qed auto

lemma diff_sorted_empty:
  assumes "increasing old" "increasing new"
  shows "diff_sorted old new = ([], []) \<longleftrightarrow> old = new"
proof
  assume "diff_sorted old new = ([], [])"
  then have "set old = set new" using diff_sorted_sets [OF assms] by fastforce
  then show "old = new" using assms increasing_unique by blast
next
  assume "old = new"
  then show "diff_sorted old new = ([], [])"
    using diff_sorted_sets [OF assms, of "fst (diff_sorted old new)" "snd (diff_sorted old new)"]
    by (cases "diff_sorted old new") auto
qed

section \<open>Reverse adjacency\<close>

text \<open>\<open>rows\<close>: the vectors are increasing; an update touches one row.\<close>

definition rows :: "nat list list \<Rightarrow> bool" where
  "rows xs \<longleftrightarrow> (\<forall>x \<in> set xs. increasing x)"

lemma rows_nth: "rows xs \<Longrightarrow> i < length xs \<Longrightarrow> increasing (xs ! i)"
  by (simp add: rows_def)

lemma rows_update: "rows xs \<Longrightarrow> increasing x \<Longrightarrow> rows (xs[i := x])"
  using set_update_subset_insert by (fastforce simp: rows_def)

lemma length_follower_ops [simp]:
  "length (remove_follower k i xs) = length xs" "length (add_follower k i xs) = length xs"
  by (simp_all add: remove_follower_def add_follower_def split: option.split result.split)

lemma remove_follower_row:
  assumes "rows xs"
  shows "rows (remove_follower k i xs)"
    "j < length xs \<Longrightarrow> set (remove_follower k i xs ! j) = set (xs ! j) - (if j = i then {k} else {})"
proof -
  have "rows (remove_follower k i xs) \<and>
    (j < length xs \<longrightarrow> set (remove_follower k i xs ! j) = set (xs ! j) - (if j = i then {k} else {}))"
  proof (cases "i < length xs")
    case True
    note inc = rows_nth [OF assms True]
    show ?thesis
    proof (cases "binary_search (xs ! i) k")
      case (Ok p)
      then have "p < length (xs ! i)" "xs ! i ! p = k" using binary_search_Ok [OF inc] by blast+
      then have "increasing (vec_remove p (xs ! i))" "set (vec_remove p (xs ! i)) = set (xs ! i) - {k}"
        using vec_remove_increasing [OF inc] by blast+
      then show ?thesis
        using True Ok assms by (simp add: remove_follower_def rows_update nth_list_update)
    next
      case (Err p)
      then have "k \<notin> set (xs ! i)" using binary_search_mem [OF inc, of k] by simp
      then show ?thesis using True Err assms by (simp add: remove_follower_def)
    qed
  next
    case False
    then show ?thesis using assms by (simp add: remove_follower_def index_def)
  qed
  then show "rows (remove_follower k i xs)"
    "j < length xs \<Longrightarrow> set (remove_follower k i xs ! j) = set (xs ! j) - (if j = i then {k} else {})"
    by auto
qed

lemma add_follower_row:
  assumes "rows xs"
  shows "rows (add_follower k i xs)"
    "j < length xs \<Longrightarrow> set (add_follower k i xs ! j) = set (xs ! j) \<union> (if j = i then {k} else {})"
proof -
  have "rows (add_follower k i xs) \<and>
    (j < length xs \<longrightarrow> set (add_follower k i xs ! j) = set (xs ! j) \<union> (if j = i then {k} else {}))"
  proof (cases "i < length xs")
    case True
    note inc = rows_nth [OF assms True]
    show ?thesis
    proof (cases "binary_search (xs ! i) k")
      case (Ok p)
      then have "k \<in> set (xs ! i)" using binary_search_mem [OF inc, of k] by simp
      then show ?thesis using True Ok assms by (auto simp: add_follower_def)
    next
      case (Err p)
      then have "increasing (vec_insert p k (xs ! i))"
        using binary_search_Err [OF inc] vec_insert_increasing [OF inc] by blast
      then show ?thesis
        using True Err assms
        by (auto simp: add_follower_def rows_update nth_list_update set_vec_insert)
    qed
  next
    case False
    then show ?thesis using assms by (simp add: add_follower_def index_def)
  qed
  then show "rows (add_follower k i xs)"
    "j < length xs \<Longrightarrow> set (add_follower k i xs ! j) = set (xs ! j) \<union> (if j = i then {k} else {})"
    by auto
qed

lemma remove_followers_rows:
  "rows xs \<Longrightarrow> rows (fold (remove_follower k) is xs) \<and> length (fold (remove_follower k) is xs) = length xs \<and>
     (\<forall>j<length xs. set (fold (remove_follower k) is xs ! j) = set (xs ! j) - (if j \<in> set is then {k} else {}))"
proof (induction "is" arbitrary: xs)
  case (Cons i "is")
  show ?case
    using Cons.IH [OF remove_follower_row(1) [OF Cons.prems]] remove_follower_row(2) [OF Cons.prems]
    by auto
qed simp

lemma add_followers_rows:
  "rows xs \<Longrightarrow> rows (fold (add_follower k) is xs) \<and> length (fold (add_follower k) is xs) = length xs \<and>
     (\<forall>j<length xs. set (fold (add_follower k) is xs ! j) = set (xs ! j) \<union> (if j \<in> set is then {k} else {}))"
proof (induction "is" arbitrary: xs)
  case (Cons i "is")
  show ?case
    using Cons.IH [OF add_follower_row(1) [OF Cons.prems]] add_follower_row(2) [OF Cons.prems]
    by auto
qed simp

text \<open>Replacing one row of \<open>follows\<close> and patching \<open>followers\<close> keeps the transpose.\<close>

lemma adjacency_wf_replace:
  assumes wf: "adjacency_wf out inn" and k: "k < length out"
    and new: "increasing new" "set new \<subseteq> {..<length out}"
    and diff: "diff_sorted (out ! k) new = (r, a)"
  shows "adjacency_wf (out[k := new]) (fold (add_follower k) a (fold (remove_follower k) r inn))"
proof -
  let ?n = "length out" and ?out = "out[k := new]"
  let ?in1 = "fold (remove_follower k) r inn"
  let ?in = "fold (add_follower k) a ?in1"
  have len: "length inn = ?n" and old: "increasing (out ! k)"
    and inn: "\<And>i. i < ?n \<Longrightarrow> set (inn ! i) = {j. j < ?n \<and> i \<in> set (out ! j)}"
    using wf k by (simp_all add: adjacency_wf_def row_ok_def)
  have sets: "set r = set (out ! k) - set new" "set a = set new - set (out ! k)"
    using diff_sorted_sets [OF old new(1) diff] by simp_all
  have "rows inn" using wf by (auto simp: adjacency_wf_def rows_def in_set_conv_nth)
  then have 1: "rows ?in1" "length ?in1 = ?n"
    "\<And>j. j < ?n \<Longrightarrow> set (?in1 ! j) = set (inn ! j) - (if j \<in> set r then {k} else {})"
    using remove_followers_rows [of inn k r] len by auto
  then have 2: "rows ?in" "length ?in = ?n"
    "\<And>j. j < ?n \<Longrightarrow> set (?in ! j) = set (?in1 ! j) \<union> (if j \<in> set a then {k} else {})"
    using add_followers_rows [of ?in1 k a] by auto
  have "set (?in ! i) = {j. j < ?n \<and> i \<in> set (?out ! j)}" if i: "i < ?n" for i
  proof -
    have "set (?in ! i) = {j. j < ?n \<and> i \<in> set (out ! j)} -
        (if i \<in> set r then {k} else {}) \<union> (if i \<in> set a then {k} else {})"
      using 1(3) [OF i] 2(3) [OF i] inn [OF i] by simp
    also have "\<dots> = {j. j < ?n \<and> i \<in> set (?out ! j)}"
      unfolding sets using k by (auto simp: nth_list_update)
    finally show ?thesis .
  qed
  moreover have "\<forall>ts \<in> set ?out. row_ok ?n ts"
    using wf new by (intro all_set_update) (simp_all add: adjacency_wf_def row_ok_def)
  ultimately show ?thesis
    using 2(1,2) by (simp add: adjacency_wf_def rows_nth)
qed

lemma replace_follows_fields [simp]:
  "id_to_pubkey (replace_follows k new g) = id_to_pubkey g"
  "pubkey_to_id (replace_follows k new g) = pubkey_to_id g"
  "interner (replace_follows k new g) = interner g"
  "node_infos (replace_follows k new g) = node_infos g"
  "mutes (replace_follows k new g) = mutes g"
  "follows (replace_follows k new g) = (follows g)[k := new]"
  by (simp_all add: replace_follows_def bump_def Let_def split: prod.split)

lemma replace_follows_adjacency:
  assumes "graph_wf g" "k < node_count g" "increasing new" "set new \<subseteq> {..<node_count g}"
  shows "adjacency_wf ((follows g)[k := new]) (followers (replace_follows k new g))"
proof -
  have len: "length (follows g) = node_count g" using assms(1) by (simp add: graph_wf_def)
  obtain r a where d: "diff_sorted (follows g ! k) new = (r, a)" by fastforce
  then have "followers (replace_follows k new g) =
      fold (add_follower k) a (fold (remove_follower k) r (followers g))"
    using assms(2) len by (simp add: replace_follows_def bump_def Let_def)
  then show ?thesis
    using adjacency_wf_replace [OF _ _ assms(3) _ d] assms len by (simp add: graph_wf_def)
qed

section \<open>Follow lists\<close>

lemma names_wf_cong:
  "pubkey_to_id g' = pubkey_to_id g \<Longrightarrow> id_to_pubkey g' = id_to_pubkey g \<Longrightarrow> interner g' = interner g \<Longrightarrow>
     names_wf g' = names_wf g"
  by (simp add: names_wf_def)

lemma name_of_cong: "id_to_pubkey g' = id_to_pubkey g \<Longrightarrow> name_of g' = name_of g"
  by (simp add: name_of_def fun_eq_iff)

lemma name_of_id: "names_wf g \<Longrightarrow> pubkey_to_id g a = Some i \<Longrightarrow> name_of g i = a"
  by (simp add: names_wf_iff name_of_def)

lemma id_inj: "names_wf g \<Longrightarrow> pubkey_to_id g a = Some i \<Longrightarrow> pubkey_to_id g b = Some i \<Longrightarrow> a = b"
  using name_of_id by blast

text \<open>The ids of a list of pubkeys name exactly these pubkeys.\<close>

lemma resolved_ids:
  assumes "names_wf g" "map (pubkey_to_id g) pks = map Some ids"
  shows "set ids \<subseteq> {..<node_count g}" "name_of g ` set ids = set pks"
proof -
  have "list_all2 (\<lambda>pk i. pubkey_to_id g pk = Some i) pks ids"
    using assms(2) by (auto simp: list_all2_conv_all_nth list_eq_iff_nth_eq)
  then have "set ids \<subseteq> {..<node_count g} \<and> name_of g ` set ids = set pks"
    using assms(1)
    by (induction rule: list_all2_induct) (auto simp: names_wf_iff name_of_def)
  then show "set ids \<subseteq> {..<node_count g}" "name_of g ` set ids = set pks" by auto
qed

text \<open>\<open>store_follows\<close>: the accepting branch of \<open>update_follows\<close>, once all ids are known.\<close>

definition store_follows :: "nat \<Rightarrow> nat list \<Rightarrow> node_info \<Rightarrow> wot_graph \<Rightarrow> wot_graph" where
  "store_follows nid ids info g = set_node_info nid info (replace_follows nid (sort_dedup ids) g)"

lemma store_follows_wf:
  assumes g: "graph_wf g" and a: "pubkey_to_id g a = Some nid"
    and ids: "set ids \<subseteq> {..<node_count g}"
  shows "graph_wf (store_follows nid ids info g)"
proof -
  have nid: "nid < node_count g" using a g names_wf_iff by auto
  have "adjacency_wf ((follows g)[nid := sort_dedup ids]) (followers (replace_follows nid (sort_dedup ids) g))"
    using g nid ids by (intro replace_follows_adjacency) auto
  moreover have "names_wf (store_follows nid ids info g) = names_wf g"
    by (rule names_wf_cong) (simp_all add: store_follows_def set_node_info_def)
  moreover have "\<forall>i<node_count g. (node_infos g)[nid := Some info] ! i = None \<longrightarrow>
      (follows g)[nid := sort_dedup ids] ! i = []"
    using g nid by (simp add: graph_wf_def nth_list_update)
  ultimately show ?thesis
    using g unfolding graph_wf_def by (simp add: store_follows_def set_node_info_def)
qed

lemma store_follows_cells:
  assumes g: "graph_wf g" and a: "pubkey_to_id g a = Some nid"
    and ids: "name_of g ` set ids = l"
  shows "follow_cell (store_follows nid ids info g) =
      (follow_cell g)(a := ((kind3_created_at info, kind3_event_id info), l))"
    "mute_cell (store_follows nid ids info g) = mute_cell g"
proof -
  let ?g = "store_follows nid ids info g"
  have f: "pubkey_to_id ?g = pubkey_to_id g" "follows ?g = (follows g)[nid := sort_dedup ids]"
    "node_infos ?g = (node_infos g)[nid := Some info]" "mutes ?g = mutes g" "name_of ?g = name_of g"
    by (simp_all add: store_follows_def set_node_info_def name_of_def fun_eq_iff)
  have nid: "nid < node_count g" using a g names_wf_iff by auto
  have "follow_cell ?g b = ((follow_cell g)(a := ((kind3_created_at info, kind3_event_id info), l))) b" for b
  proof (cases "pubkey_to_id g b")
    case None
    then show ?thesis using a by (auto simp: follow_cell_def f)
  next
    case (Some j)
    then show ?thesis
      using a nid ids id_inj [of g a nid b] g graph_wf_lengths [OF g]
      by (cases "j = nid") (auto simp: follow_cell_def f)
  qed
  then show "follow_cell ?g = (follow_cell g)(a := ((kind3_created_at info, kind3_event_id info), l))"
    by (rule ext)
  show "mute_cell ?g = mute_cell g"
    by (rule ext) (simp add: mute_cell_def f split: option.split)
qed

lemma stale_follows:
  assumes "graph_wf g" "pubkey_to_id g a = Some nid"
  shows "(case index (node_infos g) nid of
            Some (Some info) \<Rightarrow> \<not> accepts_event (kind3_created_at info) (kind3_event_id info) ts eid
          | _ \<Rightarrow> False) \<longleftrightarrow> \<not> accepts (fst (follow_cell g a)) (ts, eid)"
proof -
  have "nid < length (node_infos g)"
    using assms names_wf_iff [of g] graph_wf_lengths [OF assms(1)] by auto
  then show ?thesis using assms(2) by (auto simp: follow_cell_def split: option.split)
qed

lemma update_follows_cases:
  assumes "update_follows g a l eid ts = (b, g')"
  obtains nid g1 where "get_or_create_node_locked g a = (nid, g1)"
    "b \<longleftrightarrow> \<not> (case index (node_infos g1) nid of
            Some (Some info) \<Rightarrow> \<not> accepts_event (kind3_created_at info) (kind3_event_id info) ts eid
          | _ \<Rightarrow> False)"
    "\<not> b \<Longrightarrow> g' = g1"
    "b \<Longrightarrow> g' = store_follows nid (fst (get_or_create_nodes g1 l))
        \<lparr>kind3_event_id = eid, kind3_created_at = ts\<rparr> (snd (get_or_create_nodes g1 l))"
  using assms
  by (simp add: update_follows_def Let_def store_follows_def split: prod.splits if_splits)

theorem update_follows_spec:
  assumes g: "graph_wf g" and upd: "update_follows g a l eid ts = (b, g')" and small: "graph_small g'"
  shows "graph_wf g' \<and> (b \<longleftrightarrow> accepts (fst (follow_cell g a)) (ts, eid)) \<and>
    follow_cell g' = (if b then (follow_cell g)(a := ((ts, eid), set l)) else follow_cell g) \<and>
    mute_cell g' = mute_cell g"
  using upd
proof (cases rule: update_follows_cases)
  case (1 nid g1)
  obtain ids g2 where 2: "get_or_create_nodes g1 l = (ids, g2)" by fastforce
  have small1: "graph_small g1" and small2: "b \<Longrightarrow> graph_small g2"
    using small 1(3,4) 2 nodes_extends [OF 2] extends_small
    by (cases b; auto simp: store_follows_def set_node_info_def graph_small_def extends_def)+
  note w1 = locked_wf [OF g 1(1) small1]
  have b: "b \<longleftrightarrow> accepts (fst (follow_cell g a)) (ts, eid)"
    using 1(2) stale_follows [of g1 a nid ts eid] w1 by simp
  show ?thesis
  proof (cases b)
    case False
    then show ?thesis using 1(3) w1 b by simp
  next
    case True
    note w2 = nodes_wf [OF conjunct1 [OF w1] 2 small2 [OF True]]
    have a: "pubkey_to_id g2 a = Some nid"
      using w1 w2 by (metis map_le_def domI)
    note ids = resolved_ids [of g2 l ids]
    have g': "g' = store_follows nid ids \<lparr>kind3_event_id = eid, kind3_created_at = ts\<rparr> g2"
      using 1(4) [OF True] 2 by simp
    show ?thesis
      unfolding g' using w1 w2 a ids b True
      by (simp add: store_follows_wf store_follows_cells [where l = "set l"])
  qed
qed

lemma update_follows_count:
  assumes "update_follows g a l eid ts = (b, g')"
  shows "node_count g \<le> node_count g'"
  using assms
proof (cases rule: update_follows_cases)
  case (1 nid g1)
  have "node_count g \<le> node_count g1"
    using 1(1) by (cases rule: locked_extends) (auto simp: extends_def)
  moreover have "node_count g1 \<le> node_count (snd (get_or_create_nodes g1 l))"
    using nodes_extends [of g1 l] by (metis extends_def length_append le_add1 prod.collapse)
  ultimately show ?thesis
    using 1(3,4) by (cases b) (auto simp: store_follows_def set_node_info_def)
qed

lemma store_follows_advance:
  assumes g: "graph_wf g" and nid: "nid < node_count g"
  shows "advance 1 g (store_follows nid ids info g)"
proof -
  let ?new = "sort_dedup ids" and ?g = "store_follows nid ids info g"
  have inc: "increasing (follows g ! nid)" by (rule graph_wf_ids(1) [OF g nid])
  obtain r a where d: "diff_sorted (follows g ! nid) ?new = (r, a)" by fastforce
  have same: "(r = [] \<and> a = []) \<longleftrightarrow> follows g ! nid = ?new"
    using diff_sorted_empty [OF inc increasing_sort_dedup, of ids] d by simp
  have f: "pubkey_to_id ?g = pubkey_to_id g" "id_to_pubkey ?g = id_to_pubkey g" "mutes ?g = mutes g"
    "follows ?g = (follows g)[nid := ?new]"
    "followers ?g = fold (add_follower nid) a (fold (remove_follower nid) r (followers g))"
    "revision ?g = revision g + (if r = [] \<and> a = [] then 0 else 1)"
    using d nid graph_wf_lengths [OF g]
    by (simp_all add: store_follows_def set_node_info_def replace_follows_def bump_def Let_def)
  show ?thesis
  proof (rule advance_step)
    show "revision ?g = revision g + of_nat (if r = [] \<and> a = [] then 0 else 1)" using f(6) by simp
    assume "(if r = [] \<and> a = [] then 0 else 1 :: nat) = 0"
    then have "r = []" "a = []" "follows g ! nid = ?new" using same by (simp_all split: if_splits)
    then show "same_view g ?g" using f list_update_id [of "follows g" nid] by (simp add: same_view_def)
  qed (use f(2) in simp_all)
qed

lemma update_follows_advance:
  assumes g: "graph_wf g" and upd: "update_follows g a l eid ts = (b, g')" and small: "graph_small g'"
  shows "advance 1 g g'"
  using upd
proof (cases rule: update_follows_cases)
  case (1 nid g1)
  obtain ids g2 where 2: "get_or_create_nodes g1 l = (ids, g2)" by fastforce
  show ?thesis
  proof (cases b)
    case False
    then show ?thesis using advance_trans [OF advance_locked [OF 1(1)], of 1 g1] 1(3) by simp
  next
    case True
    then have g': "g' = store_follows nid ids \<lparr>kind3_event_id = eid, kind3_created_at = ts\<rparr> g2"
      using 1(4) 2 by simp
    have small2: "graph_small g2"
      using small by (simp add: g' store_follows_def set_node_info_def graph_small_def)
    have small1: "graph_small g1" using nodes_extends [OF 2] extends_small small2 by blast
    note w1 = locked_wf [OF g 1(1) small1]
    note w2 = nodes_wf [OF conjunct1 [OF w1] 2 small2]
    have "pubkey_to_id g2 a = Some nid" using w1 w2 by (metis map_le_def domI)
    then have "nid < node_count g2" using w2 names_wf_iff by auto
    then have "advance 1 g2 g'" unfolding g' by (rule store_follows_advance [OF conjunct1 [OF w2]])
    then show ?thesis
      using advance_trans [OF advance_trans [OF advance_locked [OF 1(1)] advance_nodes [OF 2]]] by simp
  qed
qed

section \<open>Mute lists\<close>

definition store_mutes :: "nat \<Rightarrow> mute_list \<Rightarrow> wot_graph \<Rightarrow> wot_graph" where
  "store_mutes nid ml g = bump (g\<lparr>mutes := AList.update nid ml (mutes g)\<rparr>)"

lemma store_mutes_wf:
  assumes g: "graph_wf g" and nid: "nid < node_count g"
    and ml: "increasing (mute_ids ml)" "set (mute_ids ml) \<subseteq> {..<node_count g}"
  shows "graph_wf (store_mutes nid ml g)"
proof -
  have "mutes_wf (node_count g) (AList.update nid ml (mutes g))"
  proof -
    have ms: "mutes_wf (node_count g) (mutes g)" using g by (simp add: graph_wf_def)
    then have d: "distinct (map fst (AList.update nid ml (mutes g)))"
      by (simp add: mutes_wf_def AList.distinct_update)
    have "i < node_count g \<and> increasing (mute_ids l) \<and> set (mute_ids l) \<subseteq> {..<node_count g}"
      if "(i, l) \<in> set (AList.update nid ml (mutes g))" for i l
    proof -
      have "((map_of (mutes g))(nid \<mapsto> ml)) i = Some l"
        using that d by (simp flip: AList.update_conv')
      then show ?thesis
        using mutes_wf_ids [OF ms] nid ml by (auto split: if_splits)
    qed
    then show ?thesis using d by (auto simp: mutes_wf_def)
  qed
  moreover have "names_wf (store_mutes nid ml g) = names_wf g"
    by (rule names_wf_cong) (simp_all add: store_mutes_def bump_def)
  ultimately show ?thesis
    using g by (simp add: graph_wf_def store_mutes_def bump_def)
qed

lemma store_mutes_cells:
  assumes g: "graph_wf g" and a: "pubkey_to_id g a = Some nid"
  shows "mute_cell (store_mutes nid ml g) =
      (mute_cell g)(a := ((mute_created_at ml, mute_event_id ml), Some (name_of g ` set (mute_ids ml))))"
    "follow_cell (store_mutes nid ml g) = follow_cell g"
proof -
  let ?g = "store_mutes nid ml g"
  have f: "pubkey_to_id ?g = pubkey_to_id g" "map_of (mutes ?g) = (map_of (mutes g))(nid \<mapsto> ml)"
    "follows ?g = follows g" "node_infos ?g = node_infos g" "name_of ?g = name_of g"
    by (simp_all add: store_mutes_def bump_def AList.update_conv' name_of_def fun_eq_iff)
  have "mute_cell ?g b = ((mute_cell g)(a := ((mute_created_at ml, mute_event_id ml),
      Some (name_of g ` set (mute_ids ml))))) b" for b
    using a id_inj [of g a nid b] g
    by (cases "pubkey_to_id g b") (auto simp: mute_cell_def f split: option.split)
  then show "mute_cell ?g = (mute_cell g)(a := ((mute_created_at ml, mute_event_id ml),
      Some (name_of g ` set (mute_ids ml))))"
    by (rule ext)
  show "follow_cell ?g = follow_cell g"
    by (rule ext) (simp add: follow_cell_def f split: option.split)
qed

lemma stale_mutes:
  assumes "pubkey_to_id g a = Some nid"
  shows "(case map_of (mutes g) nid of
            Some old \<Rightarrow> \<not> accepts_event (mute_created_at old) (mute_event_id old) ts eid
          | None \<Rightarrow> False) \<longleftrightarrow> \<not> accepts (fst (mute_cell g a)) (ts, eid)"
  using assms by (auto simp: mute_cell_def split: option.split)

lemma update_mutes_cases:
  assumes "update_mutes g a l eid ts = (b, g')"
  obtains nid g1 where "get_or_create_node_locked g a = (nid, g1)"
    "b \<longleftrightarrow> \<not> (case map_of (mutes g1) nid of
            Some old \<Rightarrow> \<not> accepts_event (mute_created_at old) (mute_event_id old) ts eid
          | None \<Rightarrow> False)"
    "\<not> b \<Longrightarrow> g' = g1"
    "b \<Longrightarrow> g' = store_mutes nid
        \<lparr>mute_ids = sort_dedup (fst (get_or_create_nodes g1 l)), mute_event_id = eid, mute_created_at = ts\<rparr>
        (snd (get_or_create_nodes g1 l))"
  using assms
  by (simp add: update_mutes_def Let_def store_mutes_def split: prod.splits if_splits)

theorem update_mutes_spec:
  assumes g: "graph_wf g" and upd: "update_mutes g a l eid ts = (b, g')" and small: "graph_small g'"
  shows "graph_wf g' \<and> (b \<longleftrightarrow> accepts (fst (mute_cell g a)) (ts, eid)) \<and>
    mute_cell g' = (if b then (mute_cell g)(a := ((ts, eid), Some (set l))) else mute_cell g) \<and>
    follow_cell g' = follow_cell g"
  using upd
proof (cases rule: update_mutes_cases)
  case (1 nid g1)
  obtain ids g2 where 2: "get_or_create_nodes g1 l = (ids, g2)" by fastforce
  have small1: "graph_small g1" and small2: "b \<Longrightarrow> graph_small g2"
    using small 1(3,4) 2 nodes_extends [OF 2] extends_small
    by (cases b; auto simp: store_mutes_def bump_def graph_small_def extends_def)+
  note w1 = locked_wf [OF g 1(1) small1]
  have b: "b \<longleftrightarrow> accepts (fst (mute_cell g a)) (ts, eid)"
    using 1(2) stale_mutes [of g1 a nid ts eid] w1 by simp
  show ?thesis
  proof (cases b)
    case False
    then show ?thesis using 1(3) w1 b by simp
  next
    case True
    note w2 = nodes_wf [OF conjunct1 [OF w1] 2 small2 [OF True]]
    have a: "pubkey_to_id g2 a = Some nid"
      using w1 w2 by (metis map_le_def domI)
    then have nid: "nid < node_count g2" using w2 names_wf_iff by auto
    note ids = resolved_ids [of g2 l ids]
    have g': "g' = store_mutes nid
        \<lparr>mute_ids = sort_dedup ids, mute_event_id = eid, mute_created_at = ts\<rparr> g2"
      using 1(4) [OF True] 2 by simp
    show ?thesis
      unfolding g' using w1 w2 a nid ids b True
      by (simp add: store_mutes_wf store_mutes_cells)
  qed
qed

lemma update_mutes_count:
  assumes "update_mutes g a l eid ts = (b, g')"
  shows "node_count g \<le> node_count g'"
  using assms
proof (cases rule: update_mutes_cases)
  case (1 nid g1)
  have "node_count g \<le> node_count g1"
    using 1(1) by (cases rule: locked_extends) (auto simp: extends_def)
  moreover have "node_count g1 \<le> node_count (snd (get_or_create_nodes g1 l))"
    using nodes_extends [of g1 l] by (metis extends_def length_append le_add1 prod.collapse)
  ultimately show ?thesis
    using 1(3,4) by (cases b) (auto simp: store_mutes_def bump_def)
qed

lemma update_mutes_advance:
  assumes "update_mutes g a l eid ts = (b, g')"
  shows "advance 1 g g'"
  using assms
proof (cases rule: update_mutes_cases)
  case (1 nid g1)
  obtain ids g2 where 2: "get_or_create_nodes g1 l = (ids, g2)" by fastforce
  show ?thesis
  proof (cases b)
    case False
    then show ?thesis using advance_trans [OF advance_locked [OF 1(1)], of 1 g1] 1(3) by simp
  next
    case True
    have "advance 1 g2 (store_mutes nid ml g2)" for ml
      by (rule advance_step [where c = 1]) (simp_all add: store_mutes_def)
    then show ?thesis
      using advance_trans [OF advance_trans [OF advance_locked [OF 1(1)] advance_nodes [OF 2]]] 1(4) [OF True] 2 by simp
  qed
qed

section \<open>The graph as a store of replaceable lists\<close>

definition put_follows :: "string \<Rightarrow> meta \<Rightarrow> string list \<Rightarrow> wot_graph \<Rightarrow> wot_graph" where
  "put_follows a m l g = snd (update_follows g a l (snd m) (fst m))"

definition put_mutes :: "string \<Rightarrow> meta \<Rightarrow> string list \<Rightarrow> wot_graph \<Rightarrow> wot_graph" where
  "put_mutes a m l g = snd (update_mutes g a l (snd m) (fst m))"

lemma put_follows_spec:
  "graph_wf g \<Longrightarrow> graph_small (put_follows a m l g) \<Longrightarrow>
     graph_wf (put_follows a m l g) \<and>
     follow_cell (put_follows a m l g) =
       (if accepts (fst (follow_cell g a)) m then (follow_cell g)(a := (m, set l)) else follow_cell g) \<and>
     mute_cell (put_follows a m l g) = mute_cell g"
  using update_follows_spec [of g a l "snd m" "fst m", OF _ prod.collapse [symmetric]]
  by (simp add: put_follows_def)

lemma put_mutes_spec:
  "graph_wf g \<Longrightarrow> graph_small (put_mutes a m l g) \<Longrightarrow>
     graph_wf (put_mutes a m l g) \<and>
     mute_cell (put_mutes a m l g) =
       (if accepts (fst (mute_cell g a)) m then (mute_cell g)(a := (m, Some (set l))) else mute_cell g) \<and>
     follow_cell (put_mutes a m l g) = follow_cell g"
  using update_mutes_spec [of g a l "snd m" "fst m", OF _ prod.collapse [symmetric]]
  by (simp add: put_mutes_def)

lemma put_small:
  "graph_small (put_follows a m l g) \<Longrightarrow> graph_small g"
  "graph_small (put_mutes a m l g) \<Longrightarrow> graph_small g"
  unfolding graph_small_def put_follows_def put_mutes_def
  using update_follows_count [of g a l "snd m" "fst m", OF prod.collapse [symmetric]]
    update_mutes_count [of g a l "snd m" "fst m", OF prod.collapse [symmetric]]
  by simp_all

interpretation graph_follows: lww_store graph_wf graph_small put_follows follow_cell set
  by unfold_locales (auto simp: put_follows_spec dest: put_small)

interpretation graph_mutes: lww_store graph_wf graph_small put_mutes mute_cell "\<lambda>l. Some (set l)"
  by unfold_locales (auto simp: put_mutes_spec dest: put_small)

text \<open>The delivery of signed events, one after the other.\<close>

definition receive_follows :: "list_event list \<Rightarrow> wot_graph \<Rightarrow> wot_graph" where
  "receive_follows es g =
     fold (\<lambda>(a, v, l) g. snd (update_follows g a l (Some (ver_id v)) (Some (ver_ts v)))) es g"

definition receive_mutes :: "list_event list \<Rightarrow> wot_graph \<Rightarrow> wot_graph" where
  "receive_mutes es g =
     fold (\<lambda>(a, v, l) g. snd (update_mutes g a l (Some (ver_id v)) (Some (ver_ts v)))) es g"

lemma receive_follows_eq: "receive_follows es g = graph_follows.apply_events es g"
  by (induction es arbitrary: g) (auto simp: receive_follows_def put_follows_def meta_of_def)

lemma receive_mutes_eq: "receive_mutes es g = graph_mutes.apply_events es g"
  by (induction es arbitrary: g) (auto simp: receive_mutes_def put_mutes_def meta_of_def)

end
