(* ===== verification/GraphRestore.thy ===== *)
theory GraphRestore
  imports GraphUpdate
begin

text \<open>
  \<open>restore_nodes\<close> (\<open>graph/store.rs\<close>): merging a validated numeric snapshot into the live
  graph. The snapshot's edges index its own node vector. Under the writer lock the snapshot ids
  are mapped once, each node's list is taken when its event beats the live one, and the reverse
  adjacency is rebuilt in source order when a list changed. A panic (an index out of range) is
  \<open>None\<close>; a snapshot whose edges are in range causes none.
\<close>

record snapshot_mute_list =
  snap_mute_ids :: "nat list"
  snap_mute_event_id :: "string option"
  snap_mute_created_at :: "int option"

record snapshot_node =
  snap_pubkey :: string
  snap_info :: node_info
  snap_follows :: "nat list"
  snap_mutes :: "snapshot_mute_list option"

section \<open>The code\<close>

text \<open>The state of the merge loop: the graph, \<open>topology_changed\<close> and \<open>mutes_changed\<close>.\<close>

type_synonym restore_state = "wot_graph \<times> bool \<times> bool"

definition restore_follows :: "nat list \<Rightarrow> nat \<Rightarrow> snapshot_node \<Rightarrow> restore_state \<Rightarrow> restore_state option" where
  "restore_follows ids nid node st =
     (case st of (g, topology_changed, mutes_changed) \<Rightarrow>
        case index (node_infos g) nid of
          None \<Rightarrow> None
        | Some old \<Rightarrow>
            if (case old of
                  None \<Rightarrow> True
                | Some info \<Rightarrow>
                    accepts_event (kind3_created_at info) (kind3_event_id info)
                      (kind3_created_at (snap_info node)) (kind3_event_id (snap_info node)))
            then
              (case (collect_all (index ids) (snap_follows node), index (follows g) nid) of
                 (Some mapped, Some old_targets) \<Rightarrow>
                   let targets = sort_dedup mapped
                   in Some (g\<lparr>follows := (follows g)[nid := targets],
                              node_infos := (node_infos g)[nid := Some (snap_info node)]\<rparr>,
                            topology_changed \<or> old_targets \<noteq> targets, mutes_changed)
               | _ \<Rightarrow> None)
            else Some (g, topology_changed, mutes_changed))"

definition restore_mutes :: "nat list \<Rightarrow> nat \<Rightarrow> snapshot_node \<Rightarrow> restore_state \<Rightarrow> restore_state option" where
  "restore_mutes ids nid node st =
     (case st of (g, topology_changed, mutes_changed) \<Rightarrow>
        case snap_mutes node of
          None \<Rightarrow> Some (g, topology_changed, mutes_changed)
        | Some l \<Rightarrow>
            if (case map_of (mutes g) nid of
                  None \<Rightarrow> True
                | Some old \<Rightarrow>
                    accepts_event (mute_created_at old) (mute_event_id old)
                      (snap_mute_created_at l) (snap_mute_event_id l))
            then
              (case collect_all (index ids) (snap_mute_ids l) of
                 None \<Rightarrow> None
               | Some mapped \<Rightarrow>
                   Some (g\<lparr>mutes := AList.update nid
                             \<lparr>mute_ids = sort_dedup mapped, mute_event_id = snap_mute_event_id l,
                              mute_created_at = snap_mute_created_at l\<rparr> (mutes g)\<rparr>,
                         topology_changed, True))
            else Some (g, topology_changed, mutes_changed))"

fun restore_loop :: "nat list \<Rightarrow> (nat \<times> snapshot_node) list \<Rightarrow> restore_state \<Rightarrow> restore_state option" where
  "restore_loop ids [] st = Some st"
| "restore_loop ids ((nid, node) # rest) st =
     (case restore_follows ids nid node st of
        None \<Rightarrow> None
      | Some st1 \<Rightarrow>
          (case restore_mutes ids nid node st1 of
             None \<Rightarrow> None
           | Some st2 \<Rightarrow> restore_loop ids rest st2))"

fun push_source :: "nat \<Rightarrow> nat list \<Rightarrow> nat list list \<Rightarrow> nat list list option" where
  "push_source source [] fls = Some fls"
| "push_source source (target # targets) fls =
     (case index fls target of
        None \<Rightarrow> None
      | Some l \<Rightarrow> push_source source targets (fls[target := l @ [source]]))"

fun rebuild_followers :: "nat \<Rightarrow> nat list list \<Rightarrow> nat list list \<Rightarrow> nat list list option" where
  "rebuild_followers source [] fls = Some fls"
| "rebuild_followers source (targets # rest) fls =
     (case push_source source targets fls of
        None \<Rightarrow> None
      | Some fls1 \<Rightarrow> rebuild_followers (Suc source) rest fls1)"

definition restore_nodes :: "wot_graph \<Rightarrow> snapshot_node list \<Rightarrow> wot_graph option" where
  "restore_nodes g nodes =
     (let (ids, g1) = get_or_create_nodes g (map snap_pubkey nodes) in
      case restore_loop ids (zip ids nodes) (g1, False, False) of
        None \<Rightarrow> None
      | Some (g2, topology_changed, mutes_changed) \<Rightarrow>
          (case (if topology_changed
                 then rebuild_followers 0 (follows g2) (map (\<lambda>_. []) (followers g2))
                 else Some (followers g2)) of
             None \<Rightarrow> None
           | Some fls \<Rightarrow>
               let g3 = g2\<lparr>followers := fls\<rparr>
               in Some (if topology_changed \<or> mutes_changed then bump g3 else g3)))"

section \<open>Rebuilding the reverse adjacency\<close>

lemma push_source_ok:
  "distinct targets \<Longrightarrow> set targets \<subseteq> {..<length fls} \<Longrightarrow>
     \<exists>fls'. push_source s targets fls = Some fls' \<and> length fls' = length fls \<and>
       (\<forall>i<length fls. fls' ! i = fls ! i @ (if i \<in> set targets then [s] else []))"
proof (induction targets arbitrary: fls)
  case (Cons t targets)
  then show ?case
    using Cons.IH [of "fls[t := fls ! t @ [s]]"] by (auto simp: nth_list_update)
qed simp

lemma rebuild_followers_ok:
  "(\<forall>ts \<in> set out. distinct ts \<and> set ts \<subseteq> {..<length fls}) \<Longrightarrow>
     \<exists>fls'. rebuild_followers k out fls = Some fls' \<and> length fls' = length fls \<and>
       (\<forall>i<length fls. fls' ! i = fls ! i @ filter (\<lambda>s. i \<in> set (out ! (s - k))) [k..<k + length out])"
proof (induction out arbitrary: k fls)
  case (Cons ts out)
  obtain fls1 where 1: "push_source k ts fls = Some fls1" "length fls1 = length fls"
    "\<forall>i<length fls. fls1 ! i = fls ! i @ (if i \<in> set ts then [k] else [])"
    using push_source_ok [of ts fls k] Cons.prems by auto
  obtain fls2 where 2: "rebuild_followers (Suc k) out fls1 = Some fls2" "length fls2 = length fls"
    "\<forall>i<length fls. fls2 ! i = fls1 ! i @ filter (\<lambda>s. i \<in> set (out ! (s - Suc k))) [Suc k..<Suc k + length out]"
    using Cons.IH [of fls1 "Suc k"] Cons.prems 1(2) by auto
  have "filter (\<lambda>s. i \<in> set ((ts # out) ! (s - k))) [k..<k + length (ts # out)] =
      (if i \<in> set ts then [k] else []) @ filter (\<lambda>s. i \<in> set (out ! (s - Suc k))) [Suc k..<Suc k + length out]" for i
  proof -
    have "[k..<k + length (ts # out)] = k # [Suc k..<Suc k + length out]"
      using upt_conv_Cons [of k "k + length (ts # out)"] by simp
    moreover have "filter (\<lambda>s. i \<in> set ((ts # out) ! (s - k))) [Suc k..<Suc k + length out] =
        filter (\<lambda>s. i \<in> set (out ! (s - Suc k))) [Suc k..<Suc k + length out]"
      by (rule filter_cong) (auto simp: nth_Cons' Suc_diff_Suc)
    ultimately show ?thesis by simp
  qed
  then show ?case using 1 2 by auto
qed simp

lemma rebuild_adjacency:
  assumes out: "\<forall>ts \<in> set out. row_ok (length out) ts" and "length inn = length out"
  shows "\<exists>fls. rebuild_followers 0 out (map (\<lambda>_. []) inn) = Some fls \<and> adjacency_wf out fls"
proof -
  let ?empty = "map (\<lambda>_. []) inn :: nat list list"
  have "\<forall>ts \<in> set out. distinct ts \<and> set ts \<subseteq> {..<length ?empty}"
    using assms unfolding row_ok_def by (metis increasing_distinct length_map)
  then obtain fls where fls: "rebuild_followers 0 out ?empty = Some fls" "length fls = length out"
    "\<forall>i<length out. fls ! i = filter (\<lambda>s. i \<in> set (out ! s)) [0..<length out]"
    using rebuild_followers_ok [of out ?empty 0] assms(2) by auto
  have "increasing (filter P [0..<n])" for P n
    by (rule sorted_wrt_filter) simp
  then have "adjacency_wf out fls"
    using fls(2,3) out nth_mem by (auto simp: adjacency_wf_def row_ok_def)
  then show ?thesis using fls(1) by blast
qed

section \<open>The merge loop\<close>

text \<open>The invariant inside the loop, where \<open>followers\<close> may be out of date.\<close>

definition forward_wf :: "wot_graph \<Rightarrow> bool" where
  "forward_wf g \<longleftrightarrow>
     names_wf g \<and> length (follows g) = node_count g \<and> length (node_infos g) = node_count g \<and>
     length (followers g) = node_count g \<and>
     (\<forall>ts \<in> set (follows g). row_ok (node_count g) ts) \<and>
     mutes_wf (node_count g) (mutes g) \<and>
     (\<forall>i<node_count g. node_infos g ! i = None \<longrightarrow> follows g ! i = [])"

lemma graph_wf_forward: "graph_wf g \<longleftrightarrow> forward_wf g \<and> adjacency_wf (follows g) (followers g)"
  by (auto simp: graph_wf_def forward_wf_def adjacency_wf_def)

text \<open>The same in terms of cells: a node's list replaces the cell it beats.\<close>

definition snap_meta :: "snapshot_node \<Rightarrow> meta" where
  "snap_meta node = (kind3_created_at (snap_info node), kind3_event_id (snap_info node))"

definition snap_names :: "snapshot_node list \<Rightarrow> nat list \<Rightarrow> string set" where
  "snap_names nodes ts = (\<lambda>t. snap_pubkey (nodes ! t)) ` set ts"

definition merge_follow ::
    "snapshot_node list \<Rightarrow> snapshot_node \<Rightarrow> (string \<Rightarrow> meta \<times> string set) \<Rightarrow> string \<Rightarrow> meta \<times> string set" where
  "merge_follow nodes node fc =
     (if accepts (fst (fc (snap_pubkey node))) (snap_meta node)
      then fc(snap_pubkey node := (snap_meta node, snap_names nodes (snap_follows node))) else fc)"

definition merge_mute ::
    "snapshot_node list \<Rightarrow> snapshot_node \<Rightarrow> (string \<Rightarrow> meta \<times> string set option) \<Rightarrow>
     string \<Rightarrow> meta \<times> string set option" where
  "merge_mute nodes node mc =
     (case snap_mutes node of
        None \<Rightarrow> mc
      | Some l \<Rightarrow>
          if accepts (fst (mc (snap_pubkey node))) (snap_mute_created_at l, snap_mute_event_id l)
          then mc(snap_pubkey node :=
                    ((snap_mute_created_at l, snap_mute_event_id l), Some (snap_names nodes (snap_mute_ids l))))
          else mc)"

text \<open>\<open>mapped g nodes ids\<close>: the ids of the snapshot's nodes in the live graph.\<close>

definition mapped :: "wot_graph \<Rightarrow> snapshot_node list \<Rightarrow> nat list \<Rightarrow> bool" where
  "mapped g nodes ids \<longleftrightarrow> map (pubkey_to_id g) (map snap_pubkey nodes) = map Some ids"

definition snapshot_valid :: "snapshot_node list \<Rightarrow> bool" where
  "snapshot_valid nodes \<longleftrightarrow>
     (\<forall>node \<in> set nodes. set (snap_follows node) \<subseteq> {..<length nodes} \<and>
        (\<forall>l. snap_mutes node = Some l \<longrightarrow> set (snap_mute_ids l) \<subseteq> {..<length nodes}))"

lemma snapshot_valid_code [code]:
  "snapshot_valid ns \<longleftrightarrow>
     list_all (\<lambda>node. set (snap_follows node) \<subseteq> {0..<length ns} \<and>
       (case snap_mutes node of None \<Rightarrow> True | Some l \<Rightarrow> set (snap_mute_ids l) \<subseteq> {0..<length ns})) ns"
proof -
  have "(\<forall>l. x = Some l \<longrightarrow> P l) = (case x of None \<Rightarrow> True | Some l \<Rightarrow> P l)" for x :: "snapshot_mute_list option" and P
    by (cases x) simp_all
  then show ?thesis unfolding snapshot_valid_def list_all_iff lessThan_atLeast0 by simp
qed

lemma mapped_nth:
  assumes "mapped g nodes ids"
  shows "length ids = length nodes"
    "t < length nodes \<Longrightarrow> pubkey_to_id g (snap_pubkey (nodes ! t)) = Some (ids ! t)"
proof -
  have len: "length ids = length nodes" using assms by (metis length_map mapped_def)
  then show "length ids = length nodes" .
  assume "t < length nodes"
  then show "pubkey_to_id g (snap_pubkey (nodes ! t)) = Some (ids ! t)"
    using assms len unfolding mapped_def by (metis length_map nth_map)
qed

lemma mapped_targets:
  assumes m: "mapped g nodes ids" and g: "names_wf g" and ts: "set ts \<subseteq> {..<length nodes}"
  shows "collect_all (index ids) ts = Some (map ((!) ids) ts)"
    "set (map ((!) ids) ts) \<subseteq> {..<node_count g}"
    "name_of g ` set (map ((!) ids) ts) = snap_names nodes ts"
proof -
  have t: "ids ! t < node_count g \<and> name_of g (ids ! t) = snap_pubkey (nodes ! t)" if "t \<in> set ts" for t
  proof -
    have "t < length nodes" using ts that by auto
    then show ?thesis
      using mapped_nth(2) [OF m] names_wf_iff [OF g] by (simp add: name_of_def)
  qed
  show "collect_all (index ids) ts = Some (map ((!) ids) ts)"
    using mapped_nth [OF m] ts by (intro collect_all_index) auto
  show "set (map ((!) ids) ts) \<subseteq> {..<node_count g}" using t by auto
  have "name_of g ` set (map ((!) ids) ts) = (\<lambda>t. name_of g (ids ! t)) ` set ts"
    by (simp add: image_image)
  also have "\<dots> = snap_names nodes ts"
    unfolding snap_names_def using t by (intro image_cong) auto
  finally show "name_of g ` set (map ((!) ids) ts) = snap_names nodes ts" .
qed

text \<open>What a step leaves alone.\<close>

definition same_names :: "wot_graph \<Rightarrow> wot_graph \<Rightarrow> bool" where
  "same_names g g' \<longleftrightarrow>
     id_to_pubkey g' = id_to_pubkey g \<and> pubkey_to_id g' = pubkey_to_id g \<and> interner g' = interner g \<and>
     followers g' = followers g \<and> revision g' = revision g"

lemma same_names_refl [simp]: "same_names g g"
  by (simp add: same_names_def)

lemma same_names_trans: "same_names g g1 \<Longrightarrow> same_names g1 g2 \<Longrightarrow> same_names g g2"
  by (simp add: same_names_def)

lemma same_names_mapped: "same_names g g' \<Longrightarrow> mapped g' nodes ids = mapped g nodes ids"
  by (simp add: same_names_def mapped_def)

lemma set_row_cells:
  assumes "names_wf g" "length (follows g) = node_count g" "length (node_infos g) = node_count g"
    "pubkey_to_id g a = Some nid" "name_of g ` set row = l"
  shows "follow_cell (g\<lparr>follows := (follows g)[nid := row], node_infos := (node_infos g)[nid := Some info]\<rparr>) =
    (follow_cell g)(a := ((kind3_created_at info, kind3_event_id info), l))"
proof
  fix b
  have "nid < node_count g" using assms(1,4) names_wf_iff by auto
  then show "follow_cell (g\<lparr>follows := (follows g)[nid := row], node_infos := (node_infos g)[nid := Some info]\<rparr>) b =
      ((follow_cell g)(a := ((kind3_created_at info, kind3_event_id info), l))) b"
    using assms id_inj [OF assms(1,4), of b]
    by (cases "pubkey_to_id g b")
      (auto simp: follow_cell_def name_of_def nth_list_update)
qed

lemma restore_follows_step:
  assumes g: "forward_wf g" and m: "mapped g nodes ids" and a: "pubkey_to_id g (snap_pubkey node) = Some nid"
    and ts: "set (snap_follows node) \<subseteq> {..<length nodes}"
  shows "\<exists>g' tc'. restore_follows ids nid node (g, tc, mc) = Some (g', tc', mc) \<and> forward_wf g' \<and>
    same_names g g' \<and> mutes g' = mutes g \<and> (tc \<longrightarrow> tc') \<and> (\<not> tc' \<longrightarrow> follows g' = follows g) \<and>
    follow_cell g' = merge_follow nodes node (follow_cell g) \<and> mute_cell g' = mute_cell g"
proof -
  have wf: "names_wf g" "length (follows g) = node_count g" "length (node_infos g) = node_count g"
    using g by (simp_all add: forward_wf_def)
  have nid: "nid < node_count g" using a wf(1) names_wf_iff by auto
  note t = mapped_targets [OF m wf(1) ts]
  let ?acc = "accepts (fst (follow_cell g (snap_pubkey node))) (snap_meta node)"
  have acc: "(case node_infos g ! nid of None \<Rightarrow> True
      | Some info \<Rightarrow> accepts_event (kind3_created_at info) (kind3_event_id info)
          (kind3_created_at (snap_info node)) (kind3_event_id (snap_info node))) \<longleftrightarrow> ?acc"
    using a by (auto simp: follow_cell_def snap_meta_def split: option.split)
  show ?thesis
  proof (cases ?acc)
    case False
    then show ?thesis
      using g acc nid wf by (auto simp: restore_follows_def merge_follow_def)
  next
    case True
    let ?row = "sort_dedup (map ((!) ids) (snap_follows node))"
    let ?g = "g\<lparr>follows := (follows g)[nid := ?row], node_infos := (node_infos g)[nid := Some (snap_info node)]\<rparr>"
    have "restore_follows ids nid node (g, tc, mc) = Some (?g, tc \<or> follows g ! nid \<noteq> ?row, mc)"
      using True acc nid wf t(1) by (simp add: restore_follows_def Let_def)
    moreover have "forward_wf ?g"
    proof -
      have "\<forall>ts \<in> set ((follows g)[nid := ?row]). row_ok (node_count g) ts"
        using g row_ok_sort_dedup [OF t(2)] by (intro all_set_update) (simp_all add: forward_wf_def)
      moreover have "names_wf ?g = names_wf g" by (rule names_wf_cong) simp_all
      ultimately show ?thesis
        using g nid by (auto simp: forward_wf_def nth_list_update)
    qed
    moreover have "follow_cell ?g = merge_follow nodes node (follow_cell g)"
      using set_row_cells [OF wf a, of ?row] t(3) True by (simp add: merge_follow_def snap_meta_def)
    moreover have "mute_cell ?g = mute_cell g"
      by (rule ext) (simp add: mute_cell_def name_of_def split: option.split)
    moreover have "follows g ! nid = ?row \<Longrightarrow> (follows g)[nid := ?row] = follows g"
      by (metis list_update_id)
    ultimately show ?thesis
      by (intro exI [of _ ?g] exI [of _ "tc \<or> follows g ! nid \<noteq> ?row"]) (auto simp: same_names_def)
  qed
qed

lemma mutes_update_wf:
  assumes ms: "mutes_wf n ms" and "i < n" "row_ok n (mute_ids ml)"
  shows "mutes_wf n (AList.update i ml ms)"
proof -
  have d: "distinct (map fst (AList.update i ml ms))"
    using ms by (simp add: mutes_wf_def AList.distinct_update)
  have "j < n \<and> row_ok n (mute_ids l)" if "(j, l) \<in> set (AList.update i ml ms)" for j l
  proof -
    have "((map_of ms)(i \<mapsto> ml)) j = Some l"
      using that d by (simp flip: AList.update_conv')
    then show ?thesis
      using mutes_wf_ids [OF ms] assms(2,3) by (auto simp: row_ok_def split: if_splits)
  qed
  then show ?thesis using d by (auto simp: mutes_wf_def row_ok_def)
qed

lemma set_mutes_cells:
  assumes "names_wf g" "pubkey_to_id g a = Some nid"
  shows "mute_cell (g\<lparr>mutes := AList.update nid ml (mutes g)\<rparr>) =
    (mute_cell g)(a := ((mute_created_at ml, mute_event_id ml), Some (name_of g ` set (mute_ids ml))))"
proof
  fix b
  show "mute_cell (g\<lparr>mutes := AList.update nid ml (mutes g)\<rparr>) b =
    ((mute_cell g)(a := ((mute_created_at ml, mute_event_id ml), Some (name_of g ` set (mute_ids ml))))) b"
    using assms id_inj [OF assms, of b]
    by (cases "pubkey_to_id g b") (auto simp: mute_cell_def name_of_def AList.update_conv' split: option.split)
qed

lemma restore_mutes_step:
  assumes g: "forward_wf g" and m: "mapped g nodes ids" and a: "pubkey_to_id g (snap_pubkey node) = Some nid"
    and ts: "\<And>l. snap_mutes node = Some l \<Longrightarrow> set (snap_mute_ids l) \<subseteq> {..<length nodes}"
  shows "\<exists>g' mc'. restore_mutes ids nid node (g, tc, mc) = Some (g', tc, mc') \<and> forward_wf g' \<and>
    same_names g g' \<and> follows g' = follows g \<and> (mc \<longrightarrow> mc') \<and> (\<not> mc' \<longrightarrow> mutes g' = mutes g) \<and>
    mute_cell g' = merge_mute nodes node (mute_cell g) \<and> follow_cell g' = follow_cell g"
proof (cases "snap_mutes node")
  case None
  then show ?thesis using g by (auto simp: restore_mutes_def merge_mute_def)
next
  case (Some l)
  have wf: "names_wf g" using g by (simp add: forward_wf_def)
  have nid: "nid < node_count g" using a wf names_wf_iff by auto
  note t = mapped_targets [OF m wf ts [OF Some]]
  let ?acc = "accepts (fst (mute_cell g (snap_pubkey node))) (snap_mute_created_at l, snap_mute_event_id l)"
  have acc: "(case map_of (mutes g) nid of None \<Rightarrow> True
      | Some old \<Rightarrow> accepts_event (mute_created_at old) (mute_event_id old)
          (snap_mute_created_at l) (snap_mute_event_id l)) \<longleftrightarrow> ?acc"
    using a by (auto simp: mute_cell_def split: option.split)
  show ?thesis
  proof (cases ?acc)
    case False
    then show ?thesis using g acc Some by (auto simp: restore_mutes_def merge_mute_def)
  next
    case True
    let ?ml = "\<lparr>mute_ids = sort_dedup (map ((!) ids) (snap_mute_ids l)),
      mute_event_id = snap_mute_event_id l, mute_created_at = snap_mute_created_at l\<rparr>"
    let ?g = "g\<lparr>mutes := AList.update nid ?ml (mutes g)\<rparr>"
    have "restore_mutes ids nid node (g, tc, mc) = Some (?g, tc, True)"
      using True acc Some t(1) by (simp add: restore_mutes_def)
    moreover have "forward_wf ?g"
    proof -
      have "mutes_wf (node_count g) (AList.update nid ?ml (mutes g))"
        using g nid row_ok_sort_dedup [OF t(2)] by (intro mutes_update_wf) (auto simp: forward_wf_def)
      moreover have "names_wf ?g = names_wf g" by (rule names_wf_cong) simp_all
      ultimately show ?thesis using g by (simp add: forward_wf_def)
    qed
    moreover have "mute_cell ?g = merge_mute nodes node (mute_cell g)"
      using set_mutes_cells [OF wf a, of ?ml] t(3) True Some by (simp add: merge_mute_def)
    moreover have "follow_cell ?g = follow_cell g"
      by (rule ext) (simp add: follow_cell_def name_of_def split: option.split)
    ultimately show ?thesis
      by (intro exI [of _ ?g] exI [of _ True]) (auto simp: same_names_def)
  qed
qed

lemma restore_loop_ok:
  assumes "forward_wf g" "mapped g nodes ids"
    and "\<And>nid node. (nid, node) \<in> set work \<Longrightarrow> pubkey_to_id g (snap_pubkey node) = Some nid \<and>
      set (snap_follows node) \<subseteq> {..<length nodes} \<and>
      (\<forall>l. snap_mutes node = Some l \<longrightarrow> set (snap_mute_ids l) \<subseteq> {..<length nodes})"
  shows "\<exists>g' tc' mc'. restore_loop ids work (g, tc, mc) = Some (g', tc', mc') \<and> forward_wf g' \<and>
    same_names g g' \<and> (tc \<longrightarrow> tc') \<and> (mc \<longrightarrow> mc') \<and>
    (\<not> tc' \<longrightarrow> follows g' = follows g) \<and> (\<not> mc' \<longrightarrow> mutes g' = mutes g) \<and>
    follow_cell g' = fold (merge_follow nodes) (map snd work) (follow_cell g) \<and>
    mute_cell g' = fold (merge_mute nodes) (map snd work) (mute_cell g)"
  using assms
proof (induction work arbitrary: g tc mc)
  case Nil
  then show ?case by simp
next
  case (Cons w work)
  obtain nid node where w: "w = (nid, node)" by (cases w)
  have p: "pubkey_to_id g (snap_pubkey node) = Some nid" "set (snap_follows node) \<subseteq> {..<length nodes}"
    "\<And>l. snap_mutes node = Some l \<Longrightarrow> set (snap_mute_ids l) \<subseteq> {..<length nodes}"
    using Cons.prems(3) [of nid node] by (auto simp: w)
  obtain g1 tc1 where 1: "restore_follows ids nid node (g, tc, mc) = Some (g1, tc1, mc)" "forward_wf g1"
    "same_names g g1" "mutes g1 = mutes g" "tc \<longrightarrow> tc1" "\<not> tc1 \<longrightarrow> follows g1 = follows g"
    "follow_cell g1 = merge_follow nodes node (follow_cell g)" "mute_cell g1 = mute_cell g"
    using restore_follows_step [OF Cons.prems(1,2) p(1,2)] by blast
  have "pubkey_to_id g1 = pubkey_to_id g" using 1(3) by (simp add: same_names_def)
  then have m1: "mapped g1 nodes ids" "pubkey_to_id g1 (snap_pubkey node) = Some nid"
    using Cons.prems(2) p(1) by (simp_all add: mapped_def)
  obtain g2 mc2 where 2: "restore_mutes ids nid node (g1, tc1, mc) = Some (g2, tc1, mc2)" "forward_wf g2"
    "same_names g1 g2" "follows g2 = follows g1" "mc \<longrightarrow> mc2" "\<not> mc2 \<longrightarrow> mutes g2 = mutes g1"
    "mute_cell g2 = merge_mute nodes node (mute_cell g1)" "follow_cell g2 = follow_cell g1"
    using restore_mutes_step [OF 1(2) m1 p(3)] by blast
  have m2: "mapped g2 nodes ids" using m1(1) 2(3) same_names_mapped by blast
  have "pubkey_to_id g2 = pubkey_to_id g"
    using same_names_trans [OF 1(3) 2(3)] by (simp add: same_names_def)
  then have work: "pubkey_to_id g2 (snap_pubkey node') = Some nid' \<and> set (snap_follows node') \<subseteq> {..<length nodes} \<and>
      (\<forall>l. snap_mutes node' = Some l \<longrightarrow> set (snap_mute_ids l) \<subseteq> {..<length nodes})"
    if "(nid', node') \<in> set work" for nid' node'
    using Cons.prems(3) [of nid' node'] that by simp
  obtain g' tc' mc' where 3: "restore_loop ids work (g2, tc1, mc2) = Some (g', tc', mc') \<and> forward_wf g' \<and>
    same_names g2 g' \<and> (tc1 \<longrightarrow> tc') \<and> (mc2 \<longrightarrow> mc') \<and>
    (\<not> tc' \<longrightarrow> follows g' = follows g2) \<and> (\<not> mc' \<longrightarrow> mutes g' = mutes g2) \<and>
    follow_cell g' = fold (merge_follow nodes) (map snd work) (follow_cell g2) \<and>
    mute_cell g' = fold (merge_mute nodes) (map snd work) (mute_cell g2)"
    using Cons.IH [OF 2(2) m2, where tc = tc1 and mc = mc2] work by (elim meta_impE exE) (assumption, erule that)
  have "same_names g g'"
    using same_names_trans [OF same_names_trans [OF 1(3) 2(3)]] 3 by simp
  moreover have "\<not> tc' \<longrightarrow> follows g' = follows g" "\<not> mc' \<longrightarrow> mutes g' = mutes g"
    using 1(4,6) 2(4,6) 3 by auto
  moreover have "restore_loop ids (w # work) (g, tc, mc) = Some (g', tc', mc')"
    using 1(1) 2(1) 3 by (simp add: w)
  ultimately show ?case
    using 3 1(5,7,8) 2(5,7,8) by (intro exI [of _ g'] exI [of _ tc'] exI [of _ mc']) (simp add: w)
qed

section \<open>Restoring a snapshot\<close>

lemma nodes_count_le: "get_or_create_nodes g pks = (ids, g') \<Longrightarrow> node_count g' \<le> node_count g + length pks"
proof (induction pks arbitrary: g ids g')
  case (Cons pk pks)
  obtain nid g1 where 1: "get_or_create_node_locked g pk = (nid, g1)" by fastforce
  obtain ids' g2 where 2: "get_or_create_nodes g1 pks = (ids', g2)" by fastforce
  have "node_count g1 \<le> node_count g + 1"
    using 1 by (cases rule: locked_extends) (auto simp: extends_def)
  then show ?case using Cons.IH [OF 2] Cons.prems 1 2 by simp
qed simp

theorem restore_nodes_merge:
  assumes g: "graph_wf g" and valid: "snapshot_valid nodes"
    and 1: "get_or_create_nodes g (map snap_pubkey nodes) = (ids, g1)" and small: "graph_small g1"
  shows "\<exists>g'. restore_nodes g nodes = Some g' \<and> graph_wf g' \<and>
    node_count g' = node_count g1 \<and> advance 1 g g' \<and>
    follow_cell g' = fold (merge_follow nodes) nodes (follow_cell g) \<and>
    mute_cell g' = fold (merge_mute nodes) nodes (mute_cell g)"
proof -
  have w1: "graph_wf g1" "mapped g1 nodes ids" "follow_cell g1 = follow_cell g" "mute_cell g1 = mute_cell g"
    using nodes_wf [OF g 1 small] by (simp_all add: mapped_def)
  have work: "pubkey_to_id g1 (snap_pubkey node) = Some nid \<and> set (snap_follows node) \<subseteq> {..<length nodes} \<and>
      (\<forall>l. snap_mutes node = Some l \<longrightarrow> set (snap_mute_ids l) \<subseteq> {..<length nodes})"
    if "(nid, node) \<in> set (zip ids nodes)" for nid node
    using that mapped_nth [OF w1(2)] valid set_zip_rightD [OF that]
    by (auto simp: in_set_zip snapshot_valid_def)
  obtain g2 tc mc where 2: "restore_loop ids (zip ids nodes) (g1, False, False) = Some (g2, tc, mc)"
    "forward_wf g2" "same_names g1 g2" "\<not> tc \<longrightarrow> follows g2 = follows g1"
    "\<not> mc \<longrightarrow> mutes g2 = mutes g1"
    "follow_cell g2 = fold (merge_follow nodes) nodes (follow_cell g1)"
    "mute_cell g2 = fold (merge_mute nodes) nodes (mute_cell g1)"
    using restore_loop_ok [of g1 nodes ids "zip ids nodes" False False, OF _ w1(2) work]
      w1(1) mapped_nth(1) [OF w1(2)]
    by (auto simp: graph_wf_forward map_snd_zip)
  have "\<exists>fls. (if tc then rebuild_followers 0 (follows g2) (map (\<lambda>_. []) (followers g2))
      else Some (followers g2)) = Some fls \<and> adjacency_wf (follows g2) fls"
  proof (cases tc)
    case True
    then show ?thesis using rebuild_adjacency [of "follows g2" "followers g2"] 2(2) by (simp add: forward_wf_def)
  next
    case False
    then show ?thesis using w1(1) 2(3,4) by (simp add: graph_wf_def same_names_def)
  qed
  then obtain fls where 3: "(if tc then rebuild_followers 0 (follows g2) (map (\<lambda>_. []) (followers g2))
      else Some (followers g2)) = Some fls" "adjacency_wf (follows g2) fls"
    by blast
  let ?g3 = "g2\<lparr>followers := fls\<rparr>"
  let ?g = "if tc \<or> mc then bump ?g3 else ?g3"
  have "restore_nodes g nodes = Some ?g"
    using 1 2(1) 3(1) by (simp add: restore_nodes_def Let_def)
  moreover have "graph_wf ?g"
  proof -
    have "names_wf ?g3 = names_wf g2" by (rule names_wf_cong) simp_all
    moreover have "length fls = node_count g2" using 2(2) 3(2) by (simp add: forward_wf_def adjacency_wf_def)
    ultimately have "forward_wf ?g3" using 2(2) by (simp add: forward_wf_def)
    then have "graph_wf ?g3" using 3(2) by (simp add: graph_wf_forward)
    then show ?thesis by simp
  qed
  moreover have "follow_cell ?g3 = follow_cell g2" "mute_cell ?g3 = mute_cell g2"
    by (rule ext; simp add: follow_cell_def mute_cell_def name_of_def split: option.split)+
  moreover have "node_count ?g = node_count g1"
    using 2(3) by (simp add: same_names_def)
  moreover have "advance 1 g1 ?g"
  proof (rule advance_step [where c = "if tc \<or> mc then 1 else 0"])
    assume "(if tc \<or> mc then 1 else 0 :: nat) = 0"
    then show "same_view g1 ?g" using 2(3-5) 3(1) by (auto simp: same_view_def same_names_def split: if_splits)
  qed (use 2(3) in \<open>simp_all add: same_names_def\<close>)
  then have "advance 1 g ?g" using advance_trans [OF advance_nodes [OF 1]] by simp
  ultimately show ?thesis using 2(6,7) w1(3,4) by (intro exI [of _ ?g]) simp
qed

theorem restore_nodes_spec:
  assumes g: "graph_wf g" and valid: "snapshot_valid nodes" and small: "node_count g + length nodes \<le> 2 ^ 32"
  shows "\<exists>g'. restore_nodes g nodes = Some g' \<and> graph_wf g' \<and>
    node_count g' \<le> node_count g + length nodes \<and>
    follow_cell g' = fold (merge_follow nodes) nodes (follow_cell g) \<and>
    mute_cell g' = fold (merge_mute nodes) nodes (mute_cell g)"
proof -
  obtain ids g1 where 1: "get_or_create_nodes g (map snap_pubkey nodes) = (ids, g1)" by fastforce
  have le: "node_count g1 \<le> node_count g + length nodes" using nodes_count_le [OF 1] by simp
  then have "graph_small g1" using small by (simp add: graph_small_def)
  from restore_nodes_merge [OF g valid 1 this] show ?thesis using le by auto
qed

end
