(* ===== verification/GraphRevision.thy ===== *)
theory GraphRevision
  imports GraphRestore
begin

text \<open>
  The revision counter of the graph. Every write of the store is one of four operations
  (\<open>graph_write\<close>), run one after the other under the \<open>mutation\<close> lock; \<open>run_writes\<close> runs a
  sequence of them. A reader that sees the same revision twice has seen the same topology, names and
  mute lists throughout; this is what the query cache relies on.
\<close>

datatype graph_write =
    WriteNode string
  | WriteFollows string "string list" "string option" "int option"
  | WriteMutes string "string list" "string option" "int option"
  | WriteSnapshot "snapshot_node list"

fun run_write :: "graph_write \<Rightarrow> wot_graph \<Rightarrow> wot_graph option" where
  "run_write (WriteNode pk) g = Some (snd (get_or_create_node g pk))"
| "run_write (WriteFollows a l eid ts) g = Some (snd (update_follows g a l eid ts))"
| "run_write (WriteMutes a l eid ts) g = Some (snd (update_mutes g a l eid ts))"
| "run_write (WriteSnapshot nodes) g = restore_nodes g nodes"

fun run_writes :: "graph_write list \<Rightarrow> wot_graph \<Rightarrow> wot_graph option" where
  "run_writes [] g = Some g"
| "run_writes (w # ws) g = (case run_write w g of None \<Rightarrow> None | Some g1 \<Rightarrow> run_writes ws g1)"

fun write_valid :: "graph_write \<Rightarrow> bool" where
  "write_valid (WriteSnapshot nodes) = snapshot_valid nodes"
| "write_valid _ = True"

lemma restore_loop_names: "restore_loop ids work (g, tc, mc) = Some (g', tc', mc') \<Longrightarrow> id_to_pubkey g' = id_to_pubkey g"
proof (induction work arbitrary: g tc mc)
  case (Cons w work)
  obtain nid node where w: "w = (nid, node)" by (cases w)
  then obtain g1 tc1 mc1 g2 tc2 mc2 where s: "restore_follows ids nid node (g, tc, mc) = Some (g1, tc1, mc1)"
    "restore_mutes ids nid node (g1, tc1, mc1) = Some (g2, tc2, mc2)"
    "restore_loop ids work (g2, tc2, mc2) = Some (g', tc', mc')"
    using Cons.prems by (auto split: option.splits)
  have "id_to_pubkey g1 = id_to_pubkey g"
    using s(1) by (auto simp: restore_follows_def Let_def split: option.splits if_splits)
  moreover have "id_to_pubkey g2 = id_to_pubkey g1"
    using s(2) by (auto simp: restore_mutes_def Let_def split: option.splits if_splits)
  ultimately show ?case using Cons.IH [OF s(3)] by simp
qed simp

lemma restore_count:
  assumes "restore_nodes g nodes = Some g'" "get_or_create_nodes g (map snap_pubkey nodes) = (ids, g1)"
  shows "node_count g1 = node_count g'"
  using assms restore_loop_names [of ids "zip ids nodes" g1 False False]
  by (auto simp: restore_nodes_def Let_def split: option.splits if_splits)

lemma run_write_ok:
  assumes g: "graph_wf g" and run: "run_write w g = Some g'" and small: "graph_small g'" and valid: "write_valid w"
  shows "graph_wf g' \<and> advance 1 g g'"
proof (cases w)
  case (WriteNode pk)
  then have "get_or_create_node_locked g pk = (fst (get_or_create_node_locked g pk), g')"
    using run by (auto simp: get_or_create_node_eq prod_eq_iff)
  then show ?thesis
    using locked_wf [OF g _ small] advance_trans [OF advance_locked, of g pk _ g' 1 g'] by auto
next
  case (WriteFollows a l eid ts)
  then have "update_follows g a l eid ts = (fst (update_follows g a l eid ts), g')"
    using run by (auto simp: prod_eq_iff)
  then show ?thesis using update_follows_spec [OF g _ small] update_follows_advance [OF g _ small] by blast
next
  case (WriteMutes a l eid ts)
  then have "update_mutes g a l eid ts = (fst (update_mutes g a l eid ts), g')"
    using run by (auto simp: prod_eq_iff)
  then show ?thesis using update_mutes_spec [OF g _ small] update_mutes_advance by blast
next
  case (WriteSnapshot nodes)
  obtain ids g1 where 1: "get_or_create_nodes g (map snap_pubkey nodes) = (ids, g1)" by fastforce
  have "graph_small g1" using restore_count [OF _ 1] run small WriteSnapshot by (simp add: graph_small_def)
  from restore_nodes_merge [OF g _ 1 this] show ?thesis using run valid WriteSnapshot by auto
qed

lemma run_write_small: "run_write w g = Some g' \<Longrightarrow> graph_small g' \<Longrightarrow> graph_small g"
proof (cases w)
  case (WriteNode pk)
  assume "run_write w g = Some g'" "graph_small g'"
  then show ?thesis
    using advance_locked [of g pk] WriteNode
    by (auto simp: get_or_create_node_eq advance_def graph_small_def prod_eq_iff)
next
  case (WriteFollows a l eid ts)
  assume "run_write w g = Some g'" "graph_small g'"
  then show ?thesis
    using update_follows_count [of g a l eid ts] WriteFollows by (auto simp: graph_small_def prod_eq_iff)
next
  case (WriteMutes a l eid ts)
  assume "run_write w g = Some g'" "graph_small g'"
  then show ?thesis
    using update_mutes_count [of g a l eid ts] WriteMutes by (auto simp: graph_small_def prod_eq_iff)
next
  case (WriteSnapshot nodes)
  assume r: "run_write w g = Some g'" "graph_small g'"
  obtain ids g1 where 1: "get_or_create_nodes g (map snap_pubkey nodes) = (ids, g1)" by fastforce
  have "graph_small g1" using restore_count [OF _ 1] r WriteSnapshot by (simp add: graph_small_def)
  then show ?thesis using advance_nodes [OF 1] by (auto simp: advance_def graph_small_def)
qed

lemma run_writes_small: "run_writes ws g = Some g' \<Longrightarrow> graph_small g' \<Longrightarrow> graph_small g"
  by (induction ws arbitrary: g) (auto dest: run_write_small split: option.splits)

lemma run_writes_ok:
  assumes "graph_wf g" "run_writes ws g = Some g'" "graph_small g'" "\<forall>w \<in> set ws. write_valid w"
  shows "graph_wf g' \<and> advance (length ws) g g'"
  using assms
proof (induction ws arbitrary: g)
  case (Cons w ws)
  then obtain g1 where 1: "run_write w g = Some g1" "run_writes ws g1 = Some g'" by (auto split: option.splits)
  have "graph_wf g1 \<and> advance 1 g g1"
    using run_write_ok [OF Cons.prems(1) 1(1)] run_writes_small [OF 1(2) Cons.prems(3)] Cons.prems(4) by simp
  moreover from this have "graph_wf g' \<and> advance (length ws) g1 g'"
    using Cons.IH [OF _ 1(2)] Cons.prems(3,4) by simp
  ultimately show ?case using advance_trans [of 1 g g1 "length ws" g'] by simp
qed simp

theorem revision_sound:
  assumes "graph_wf g" "run_writes ws g = Some g'" "graph_small g'" "\<forall>w \<in> set ws. write_valid w"
    and "length ws < 2 ^ 64 - 2 ^ 32" "revision g' = revision g"
  shows "same_view g g'"
  using advance_unchanged [OF conjunct2 [OF run_writes_ok [OF assms(1-4)]] assms(3,5,6)] .

end
