(* ===== verification/GraphQuery.thy ===== *)
theory GraphQuery
  imports GraphUpdate
begin

text \<open>
  The read operations of the graph (\<open>graph/store.rs\<close>). Indexing that can panic is an
  \<open>option\<close>: the outer \<open>None\<close> of a panicking reader is the panic, an inner \<open>None\<close> the
  \<open>None\<close> the code returns. On a well-formed graph no reader panics, and each returns what the
  cells of the graph say.
\<close>

section \<open>Look-ups\<close>

definition get_node_id :: "wot_graph \<Rightarrow> string \<Rightarrow> nat option" where
  "get_node_id g pubkey = pubkey_to_id g pubkey"

text \<open>An \<open>Arc<str>\<close> key of the map has the contents it was looked up by.\<close>

definition get_node_id_and_arc :: "wot_graph \<Rightarrow> string \<Rightarrow> (nat \<times> string) option" where
  "get_node_id_and_arc g pubkey = map_option (\<lambda>i. (i, pubkey)) (pubkey_to_id g pubkey)"

definition get_pubkey_arc_by_str :: "wot_graph \<Rightarrow> string \<Rightarrow> string option" where
  "get_pubkey_arc_by_str g pubkey = map_option (\<lambda>_. pubkey) (pubkey_to_id g pubkey)"

definition get_pubkey_arc :: "wot_graph \<Rightarrow> nat \<Rightarrow> string option" where
  "get_pubkey_arc g i = index (id_to_pubkey g) i"

definition resolve_pubkeys_arc :: "wot_graph \<Rightarrow> nat list \<Rightarrow> string list" where
  "resolve_pubkeys_arc g is = List.map_filter (get_pubkey_arc g) is"

definition get_follows :: "wot_graph \<Rightarrow> string \<Rightarrow> string list option" where
  "get_follows g pubkey =
     (case get_node_id g pubkey of
        None \<Rightarrow> None
      | Some nid \<Rightarrow> map_option (resolve_pubkeys_arc g) (index (follows g) nid))"

definition get_followers :: "wot_graph \<Rightarrow> string \<Rightarrow> string list option" where
  "get_followers g pubkey =
     (case get_node_id g pubkey of
        None \<Rightarrow> None
      | Some nid \<Rightarrow> map_option (resolve_pubkeys_arc g) (index (followers g) nid))"

definition get_node_info :: "wot_graph \<Rightarrow> string \<Rightarrow> node_info option" where
  "get_node_info g pubkey =
     (case get_node_id g pubkey of
        None \<Rightarrow> None
      | Some nid \<Rightarrow> (case index (node_infos g) nid of Some info \<Rightarrow> info | None \<Rightarrow> None))"

section \<open>Pages\<close>

definition page_of :: "wot_graph \<Rightarrow> nat list \<Rightarrow> nat \<Rightarrow> nat \<Rightarrow> (string list \<times> nat) option" where
  "page_of g ids offset limit =
     map_option (\<lambda>page. (page, length ids))
       (collect_all (index (id_to_pubkey g)) (take limit (drop offset ids)))"

definition get_follows_page :: "wot_graph \<Rightarrow> string \<Rightarrow> nat \<Rightarrow> nat \<Rightarrow> (string list \<times> nat) option option" where
  "get_follows_page g pubkey offset limit =
     (case get_node_id g pubkey of
        None \<Rightarrow> Some None
      | Some nid \<Rightarrow>
          (case index (follows g) nid of
             None \<Rightarrow> Some None
           | Some ids \<Rightarrow> map_option Some (page_of g ids offset limit)))"

definition get_mutes_page :: "wot_graph \<Rightarrow> string \<Rightarrow> nat \<Rightarrow> nat \<Rightarrow> (string list \<times> nat) option option" where
  "get_mutes_page g pubkey offset limit =
     (case get_node_id g pubkey of
        None \<Rightarrow> Some None
      | Some nid \<Rightarrow>
          (case map_of (mutes g) nid of
             None \<Rightarrow> Some None
           | Some l \<Rightarrow> map_option Some (page_of g (mute_ids l) offset limit)))"

section \<open>Common follows\<close>

fun intersect_sorted :: "nat list \<Rightarrow> nat list \<Rightarrow> nat list" where
  "intersect_sorted [] _ = []"
| "intersect_sorted _ [] = []"
| "intersect_sorted (a # as) (b # bs) =
     (if a < b then intersect_sorted as (b # bs)
      else if b < a then intersect_sorted (a # as) bs
      else a # intersect_sorted as bs)"

definition common_follows :: "wot_graph \<Rightarrow> string \<Rightarrow> string \<Rightarrow> string list option" where
  "common_follows g from to =
     (case (get_node_id g from, get_node_id g to) of
        (Some f, Some t) \<Rightarrow>
          (case (index (follows g) f, index (follows g) t) of
             (Some a, Some b) \<Rightarrow> collect_all (index (id_to_pubkey g)) (intersect_sorted a b)
           | _ \<Rightarrow> None)
      | _ \<Rightarrow> Some [])"

section \<open>Mute evidence\<close>

record mute_evidence =
  source_mutes_target :: bool
  target_mutes_source :: bool
  followed_muters :: "string list"
  source_mute_list_known :: bool
  target_mute_list_known :: bool

definition has_mute_edge :: "wot_graph \<Rightarrow> nat option \<Rightarrow> nat option \<Rightarrow> bool" where
  "has_mute_edge g source target =
     (case (case source of None \<Rightarrow> None | Some i \<Rightarrow> map_of (mutes g) i, target) of
        (Some l, Some t) \<Rightarrow> is_ok (binary_search (mute_ids l) t)
      | _ \<Rightarrow> False)"

definition mute_list_known :: "wot_graph \<Rightarrow> nat option \<Rightarrow> bool" where
  "mute_list_known g i = (case i of None \<Rightarrow> False | Some i \<Rightarrow> map_of (mutes g) i \<noteq> None)"

definition mute_evidence_of :: "wot_graph \<Rightarrow> string \<Rightarrow> string \<Rightarrow> mute_evidence option" where
  "mute_evidence_of g from_key to_key =
     (let from = get_node_id g from_key; to = get_node_id g to_key in
      case (case from of
              None \<Rightarrow> Some []
            | Some f \<Rightarrow>
                (case index (follows g) f of
                   None \<Rightarrow> None
                 | Some fs \<Rightarrow>
                     collect_all (index (id_to_pubkey g)) (filter (\<lambda>i. has_mute_edge g (Some i) to) fs))) of
        None \<Rightarrow> None
      | Some muters \<Rightarrow>
          Some \<lparr>source_mutes_target = has_mute_edge g from to,
                target_mutes_source = has_mute_edge g to from,
                followed_muters = muters,
                source_mute_list_known = mute_list_known g from,
                target_mute_list_known = mute_list_known g to\<rparr>)"

section \<open>Statistics\<close>

record graph_stats =
  stat_node_count :: nat
  stat_edge_count :: nat
  stat_nodes_with_follows :: nat
  stat_mute_edge_count :: nat
  stat_nodes_with_mute_lists :: nat

definition stats :: "wot_graph \<Rightarrow> graph_stats" where
  "stats g =
     \<lparr>stat_node_count = length (id_to_pubkey g),
      stat_edge_count = sum_list (map length (follows g)),
      stat_nodes_with_follows = length (filter (\<lambda>l. l \<noteq> []) (follows g)),
      stat_mute_edge_count = sum_list (map (\<lambda>(_, l). length (mute_ids l)) (mutes g)),
      stat_nodes_with_mute_lists = length (mutes g)\<rparr>"

section \<open>The readers on a well-formed graph\<close>

lemma collect_names:
  "set is \<subseteq> {..<node_count g} \<Longrightarrow> collect_all (index (id_to_pubkey g)) is = Some (map (name_of g) is)"
  unfolding name_of_def by (rule collect_all_index) auto

lemma resolve_names: "set is \<subseteq> {..<node_count g} \<Longrightarrow> resolve_pubkeys_arc g is = map (name_of g) is"
  unfolding resolve_pubkeys_arc_def
  by (induction "is") (auto simp: List.map_filter_simps get_pubkey_arc_def name_of_def)

lemma name_of_inj: "names_wf g \<Longrightarrow> inj_on (name_of g) {..<node_count g}"
  by (auto simp: inj_on_def names_wf_def name_of_def nth_eq_iff_index_eq)

lemma distinct_names:
  "names_wf g \<Longrightarrow> increasing is \<Longrightarrow> set is \<subseteq> {..<node_count g} \<Longrightarrow> distinct (map (name_of g) is)"
  using inj_on_subset [OF name_of_inj] by (simp add: distinct_map increasing_distinct)

text \<open>A known node's row, as an observer sees it.\<close>

lemma known_row:
  assumes g: "graph_wf g" and a: "pubkey_to_id g a = Some i"
  shows "i < node_count g" "index (follows g) i = Some (follows g ! i)"
    "increasing (follows g ! i)" "set (follows g ! i) \<subseteq> {..<node_count g}"
    "name_of g ` set (follows g ! i) = snd (follow_cell g a)"
proof -
  show i: "i < node_count g" using a g names_wf_iff by auto
  show "index (follows g) i = Some (follows g ! i)" using i graph_wf_lengths [OF g] by simp
  show "increasing (follows g ! i)" "set (follows g ! i) \<subseteq> {..<node_count g}"
    using graph_wf_ids [OF g i] by simp_all
  show "name_of g ` set (follows g ! i) = snd (follow_cell g a)"
    using a by (simp add: follow_cell_def)
qed

lemma follows_page_spec:
  assumes g: "graph_wf g" and a: "get_node_id g a = Some i"
  shows "\<exists>names. set names = snd (follow_cell g a) \<and> distinct names \<and> get_follows g a = Some names \<and>
    (\<forall>offset limit. get_follows_page g a offset limit =
       Some (Some (take limit (drop offset names), length names)))"
proof -
  let ?names = "map (name_of g) (follows g ! i)"
  note r = known_row [OF g a [unfolded get_node_id_def]]
  have "get_follows_page g a offset limit = Some (Some (take limit (drop offset ?names), length ?names))" for offset limit
  proof -
    have "set (take limit (drop offset (follows g ! i))) \<subseteq> {..<node_count g}"
      using r(4) by (meson order_trans set_drop_subset set_take_subset)
    then show ?thesis
      using a r(2) by (simp add: get_follows_page_def page_of_def collect_names take_map drop_map)
  qed
  moreover have "get_follows g a = Some ?names"
    using a r(2,4) by (simp add: get_follows_def resolve_names)
  ultimately show ?thesis
    using r g by (intro exI [of _ ?names]) (auto simp: distinct_names)
qed

lemma mutes_page_spec:
  assumes g: "graph_wf g"
  shows "case snd (mute_cell g a) of
      None \<Rightarrow> get_mutes_page g a offset limit = Some None
    | Some ms \<Rightarrow> \<exists>names. set names = ms \<and> distinct names \<and>
        get_mutes_page g a offset limit = Some (Some (take limit (drop offset names), length names))"
proof (cases "pubkey_to_id g a")
  case None
  then show ?thesis by (simp add: mute_cell_def get_mutes_page_def get_node_id_def)
next
  case (Some i)
  show ?thesis
  proof (cases "map_of (mutes g) i")
    case None
    then show ?thesis using Some by (simp add: mute_cell_def get_mutes_page_def get_node_id_def)
  next
    case l: (Some l)
    have ok: "increasing (mute_ids l)" "set (mute_ids l) \<subseteq> {..<node_count g}"
      using mutes_wf_ids [OF _ l, of "node_count g"] g by (simp_all add: graph_wf_def)
    then have "set (take limit (drop offset (mute_ids l))) \<subseteq> {..<node_count g}"
      by (meson order_trans set_drop_subset set_take_subset)
    then have "get_mutes_page g a offset limit =
        Some (Some (take limit (drop offset (map (name_of g) (mute_ids l))), length (map (name_of g) (mute_ids l))))"
      using Some l by (simp add: get_mutes_page_def get_node_id_def page_of_def collect_names take_map drop_map)
    moreover have "distinct (map (name_of g) (mute_ids l))" using distinct_names [OF _ ok] g by simp
    ultimately show ?thesis
      using Some l by (auto simp: mute_cell_def intro!: exI [of _ "map (name_of g) (mute_ids l)"])
  qed
qed

lemma followers_spec:
  assumes g: "graph_wf g" and a: "get_node_id g a = Some i"
  shows "\<exists>names. get_followers g a = Some names \<and> distinct names \<and> set names = {b. a \<in> snd (follow_cell g b)}"
proof -
  have i: "i < node_count g" "name_of g i = a"
    using a g names_wf_iff [of g a i] by (simp_all add: get_node_id_def name_of_def)
  note w = graph_wf_ids [OF g i(1)]
  have sub: "set (followers g ! i) \<subseteq> {..<node_count g}" using w(4) by auto
  have "b \<in> name_of g ` set (followers g ! i) \<longleftrightarrow> a \<in> snd (follow_cell g b)" for b
  proof (cases "pubkey_to_id g b")
    case None
    then have "name_of g j \<noteq> b" if "j < node_count g" for j
      using names_wf_iff [of g b j] g that by (auto simp: name_of_def)
    then show ?thesis using None sub by (auto simp: follow_cell_def)
  next
    case (Some j)
    then have j: "j < node_count g" "name_of g j = b"
      using g names_wf_iff [of g b j] by (simp_all add: name_of_def)
    have "b \<in> name_of g ` set (followers g ! i) \<longleftrightarrow> j \<in> set (followers g ! i)"
      using inj_on_image_mem_iff [OF name_of_inj [OF graph_wf_names [OF g]], of j] j sub by auto
    also have "\<dots> \<longleftrightarrow> i \<in> set (follows g ! j)" using w(4) j(1) by simp
    also have "\<dots> \<longleftrightarrow> a \<in> name_of g ` set (follows g ! j)"
      using inj_on_image_mem_iff [OF name_of_inj [OF graph_wf_names [OF g]], of i] i known_row(4) [OF g Some] by auto
    finally show ?thesis using Some by (simp add: follow_cell_def)
  qed
  moreover have "get_followers g a = Some (map (name_of g) (followers g ! i))"
    using a i(1) sub graph_wf_lengths(2) [OF g] by (simp add: get_followers_def resolve_names)
  ultimately show ?thesis using distinct_names [OF _ w(3) sub] g by auto
qed

lemma intersect_sorted_ok:
  "increasing as \<Longrightarrow> increasing bs \<Longrightarrow>
     increasing (intersect_sorted as bs) \<and> set (intersect_sorted as bs) = set as \<inter> set bs"
proof (induction as bs rule: intersect_sorted.induct)
  case (3 a as b bs)
  consider (lt) "a < b" | (gt) "b < a" | (eq) "a = b" by (rule linorder_cases)
  then show ?case
  proof cases
    case lt
    then have "a \<notin> set (b # bs)" using "3.prems" by auto
    then show ?thesis using lt "3.IH"(1) "3.prems" by auto
  next
    case gt
    then have "b \<notin> set (a # as)" using "3.prems" by auto
    then show ?thesis using gt "3.IH"(2) "3.prems" by auto
  next
    case eq
    then have "a \<notin> set as" "a \<notin> set bs" using "3.prems" by auto
    then show ?thesis using eq "3.IH"(3) "3.prems" by auto
  qed
qed auto

lemma common_follows_spec:
  assumes g: "graph_wf g"
  shows "\<exists>names. common_follows g a b = Some names \<and> distinct names \<and>
    set names = snd (follow_cell g a) \<inter> snd (follow_cell g b)"
proof (cases "pubkey_to_id g a = None \<or> pubkey_to_id g b = None")
  case True
  then have "common_follows g a b = Some []" "snd (follow_cell g a) \<inter> snd (follow_cell g b) = {}"
    by (auto simp: common_follows_def get_node_id_def follow_cell_def split: option.split)
  then show ?thesis by simp
next
  case False
  then obtain i j where a: "pubkey_to_id g a = Some i" and b: "pubkey_to_id g b = Some j" by auto
  note ra = known_row [OF g a] and rb = known_row [OF g b]
  let ?is = "intersect_sorted (follows g ! i) (follows g ! j)"
  have ok: "increasing ?is" "set ?is = set (follows g ! i) \<inter> set (follows g ! j)"
    using intersect_sorted_ok [OF ra(3) rb(3)] by auto
  then have sub: "set ?is \<subseteq> {..<node_count g}" using ra(4) by auto
  have "common_follows g a b = Some (map (name_of g) ?is)"
    using a b ra(2) rb(2) by (simp add: common_follows_def get_node_id_def collect_names [OF sub])
  moreover have "name_of g ` set ?is = snd (follow_cell g a) \<inter> snd (follow_cell g b)"
    using inj_on_image_Int [OF name_of_inj ra(4) rb(4)] g ra(5) rb(5) ok(2) by simp
  ultimately show ?thesis using distinct_names [OF _ ok(1) sub] g by auto
qed

text \<open>The public mute list of a pubkey, where one is known.\<close>

abbreviation muted_by :: "wot_graph \<Rightarrow> string \<Rightarrow> string set" where
  "muted_by g a \<equiv> (case snd (mute_cell g a) of None \<Rightarrow> {} | Some ms \<Rightarrow> ms)"

lemma has_mute_edge_spec:
  assumes g: "graph_wf g"
  shows "has_mute_edge g (pubkey_to_id g a) (pubkey_to_id g b) \<longleftrightarrow> b \<in> muted_by g a"
proof (cases "pubkey_to_id g a")
  case None
  then show ?thesis by (simp add: has_mute_edge_def mute_cell_def)
next
  case (Some i)
  show ?thesis
  proof (cases "map_of (mutes g) i")
    case None
    then show ?thesis using Some by (simp add: has_mute_edge_def mute_cell_def)
  next
    case (Some l)
    note l = mutes_wf_ids [OF _ Some, of "node_count g"]
    have ms: "mutes_wf (node_count g) (mutes g)" using g by (simp add: graph_wf_def)
    have m: "muted_by g a = name_of g ` set (mute_ids l)"
      using \<open>pubkey_to_id g a = Some i\<close> Some by (simp add: mute_cell_def)
    show ?thesis
    proof (cases "pubkey_to_id g b")
      case None
      have "b \<notin> name_of g ` set (mute_ids l)"
      proof
        assume "b \<in> name_of g ` set (mute_ids l)"
        then obtain j where "j \<in> set (mute_ids l)" "name_of g j = b" by auto
        then have "pubkey_to_id g b = Some j"
          using l(3) [OF ms] names_wf_iff [of g b j] g by (auto simp: name_of_def)
        then show False using None by simp
      qed
      then show ?thesis using None m by (simp add: has_mute_edge_def split: option.split)
    next
      case (Some j)
      have "b \<in> name_of g ` set (mute_ids l) \<longleftrightarrow> j \<in> set (mute_ids l)"
        using l(3) [OF ms] names_wf_iff [of g b] g Some by (force simp: name_of_def)
      then show ?thesis
        using Some \<open>pubkey_to_id g a = Some i\<close> \<open>map_of (mutes g) i = Some l\<close> m
          binary_search_mem [OF l(2) [OF ms]]
        by (simp add: has_mute_edge_def)
    qed
  qed
qed

lemma mute_list_known_spec: "mute_list_known g (pubkey_to_id g a) \<longleftrightarrow> snd (mute_cell g a) \<noteq> None"
  by (auto simp: mute_list_known_def mute_cell_def split: option.split)

lemma mute_evidence_spec:
  assumes g: "graph_wf g"
  shows "\<exists>e. mute_evidence_of g a b = Some e \<and>
    (source_mutes_target e \<longleftrightarrow> b \<in> muted_by g a) \<and> (target_mutes_source e \<longleftrightarrow> a \<in> muted_by g b) \<and>
    distinct (followed_muters e) \<and>
    set (followed_muters e) = {c \<in> snd (follow_cell g a). b \<in> muted_by g c} \<and>
    (source_mute_list_known e \<longleftrightarrow> snd (mute_cell g a) \<noteq> None) \<and>
    (target_mute_list_known e \<longleftrightarrow> snd (mute_cell g b) \<noteq> None)"
proof (cases "pubkey_to_id g a")
  case None
  then show ?thesis
    using has_mute_edge_spec [OF g, of a b] has_mute_edge_spec [OF g, of b a]
      mute_list_known_spec [of g a] mute_list_known_spec [of g b]
    by (auto simp: mute_evidence_of_def get_node_id_def follow_cell_def Let_def)
next
  case (Some i)
  note r = known_row [OF g Some]
  let ?is = "filter (\<lambda>j. has_mute_edge g (Some j) (pubkey_to_id g b)) (follows g ! i)"
  have sub: "set ?is \<subseteq> {..<node_count g}" and inc: "increasing ?is"
    using r(3,4) by (auto intro: sorted_wrt_filter)
  have edge: "has_mute_edge g (Some j) (pubkey_to_id g b) \<longleftrightarrow> b \<in> muted_by g (name_of g j)"
    if "j < node_count g" for j
    using has_mute_edge_spec [OF g, of "name_of g j" b] names_wf_iff [of g "name_of g j" j] g that
    by (simp add: name_of_def)
  have "name_of g ` set ?is = {c \<in> snd (follow_cell g a). b \<in> muted_by g c}"
    using edge r(4) by (auto simp flip: r(5))
  moreover have "distinct (map (name_of g) ?is)" using distinct_names [OF _ inc sub] g by simp
  ultimately show ?thesis
    using Some r(2) has_mute_edge_spec [OF g, of a b] has_mute_edge_spec [OF g, of b a]
      mute_list_known_spec [of g a] mute_list_known_spec [of g b]
    by (simp add: mute_evidence_of_def get_node_id_def Let_def collect_names [OF sub])
qed

end
