(* ===== verification/BfsDistance.thy ===== *)
theory BfsDistance
  imports GraphQuery
begin

text \<open>
  \<open>compute_distance\<close> (\<open>graph/bfs.rs\<close>): the level-synchronous bidirectional search, with
  its reusable thread-local scratch state, as the code runs it. The two directions are the same
  code over the follow and the follower vectors, with the order of the two path counts in a
  meeting node exchanged (\<open>pack\<close>). \<open>None\<close> is a panic (a vector or hash map indexed where it
  has no entry). Path counts are 64-bit words with saturating operations. The counters
  \<open>fwd_dist\<close> and \<open>bwd_dist\<close> stay at most 255 because the loop stops at \<open>max_hops\<close>, a
  \<open>u8\<close>, so they are natural numbers.
\<close>

section \<open>State\<close>

type_synonym visited = "nat \<Rightarrow> (nat \<times> u64) option"

record bfs_state =
  fwd_visited :: visited
  fwd_current :: "nat list"
  fwd_next :: "nat list"
  bwd_visited :: visited
  bwd_current :: "nat list"
  bwd_next :: "nat list"
  meeting_nodes :: "(nat \<times> u64 \<times> u64) list"
  bridge_set :: "nat set"
  bridge_ids :: "nat list"

definition bfs_state_new :: bfs_state where
  "bfs_state_new =
     \<lparr>fwd_visited = Map.empty, fwd_current = [], fwd_next = [], bwd_visited = Map.empty,
      bwd_current = [], bwd_next = [], meeting_nodes = [], bridge_set = {}, bridge_ids = []\<rparr>"

definition bfs_clear :: "bfs_state \<Rightarrow> bfs_state" where
  "bfs_clear st =
     st\<lparr>fwd_visited := Map.empty, fwd_current := [], fwd_next := [], bwd_visited := Map.empty,
        bwd_current := [], bwd_next := [], meeting_nodes := [], bridge_set := {}, bridge_ids := []\<rparr>"

text \<open>The local variables of \<open>bidirectional_bfs\<close> beside the scratch state.\<close>

record bfs_search = bfs_state +
  fwd_dist :: nat
  bwd_dist :: nat
  best_distance :: "nat option"

record distance_query =
  dq_from :: string
  dq_to :: string
  dq_max_hops :: "8 word"
  dq_include_bridges :: bool

record distance_result =
  dr_from :: string
  dr_to :: string
  hops :: "nat option"
  path_count :: u64
  mutual_follow :: bool
  bridges :: "string list option"

definition not_found :: "string \<Rightarrow> string \<Rightarrow> distance_result" where
  "not_found from to =
     \<lparr>dr_from = from, dr_to = to, hops = None, path_count = 0, mutual_follow = False, bridges = None\<rparr>"

definition same_node :: "string \<Rightarrow> distance_result" where
  "same_node pubkey =
     \<lparr>dr_from = pubkey, dr_to = pubkey, hops = Some 0, path_count = 1, mutual_follow = False, bridges = None\<rparr>"

section \<open>One level\<close>

text \<open>What one direction writes while it expands a level.\<close>

record level =
  lv_visited :: visited
  lv_next :: "nat list"
  lv_best :: "nat option"
  lv_meeting :: "(nat \<times> u64 \<times> u64) list"

definition meet_neighbor ::
    "(nat \<Rightarrow> u64 \<Rightarrow> u64 \<Rightarrow> nat \<times> u64 \<times> u64) \<Rightarrow> nat \<Rightarrow> visited \<Rightarrow> u64 \<Rightarrow> nat \<Rightarrow> level \<Rightarrow> level" where
  "meet_neighbor pack dist other node_paths neighbor L =
     (case other neighbor of
        None \<Rightarrow> L
      | Some (other_d, other_paths) \<Rightarrow>
          let total_dist = dist + other_d;
              L1 = (if (case lv_best L of None \<Rightarrow> True | Some best \<Rightarrow> total_dist < best)
                    then L\<lparr>lv_best := Some total_dist, lv_meeting := []\<rparr> else L)
          in if lv_best L1 = Some total_dist
             then L1\<lparr>lv_meeting := lv_meeting L1 @ [pack neighbor node_paths other_paths]\<rparr> else L1)"

definition visit_neighbor :: "nat \<Rightarrow> u64 \<Rightarrow> nat \<Rightarrow> level \<Rightarrow> level" where
  "visit_neighbor dist node_paths neighbor L =
     (case lv_visited L neighbor of
        None \<Rightarrow> L\<lparr>lv_visited := (lv_visited L)(neighbor \<mapsto> (dist, node_paths)),
                 lv_next := lv_next L @ [neighbor]\<rparr>
      | Some (existing_dist, existing_paths) \<Rightarrow>
          if existing_dist = dist
          then L\<lparr>lv_visited := (lv_visited L)(neighbor \<mapsto> (existing_dist, sat_add existing_paths node_paths))\<rparr>
          else L)"

definition expand_neighbor ::
    "(nat \<Rightarrow> u64 \<Rightarrow> u64 \<Rightarrow> nat \<times> u64 \<times> u64) \<Rightarrow> nat \<Rightarrow> visited \<Rightarrow> u64 \<Rightarrow> nat \<Rightarrow> level \<Rightarrow> level" where
  "expand_neighbor pack dist other node_paths neighbor L =
     visit_neighbor dist node_paths neighbor (meet_neighbor pack dist other node_paths neighbor L)"

fun expand_nodes ::
    "(nat \<Rightarrow> u64 \<Rightarrow> u64 \<Rightarrow> nat \<times> u64 \<times> u64) \<Rightarrow> nat \<Rightarrow> visited \<Rightarrow> nat list list \<Rightarrow> nat list \<Rightarrow>
     level \<Rightarrow> level option" where
  "expand_nodes pack dist other adj [] L = Some L"
| "expand_nodes pack dist other adj (node # nodes) L =
     (case (lv_visited L node, index adj node) of
        (Some (_, node_paths), Some neighbors) \<Rightarrow>
          expand_nodes pack dist other adj nodes
            (fold (expand_neighbor pack dist other node_paths) neighbors L)
      | _ \<Rightarrow> None)"

definition pack_fwd :: "nat \<Rightarrow> u64 \<Rightarrow> u64 \<Rightarrow> nat \<times> u64 \<times> u64" where
  "pack_fwd neighbor node_paths bwd_paths = (neighbor, node_paths, bwd_paths)"

definition pack_bwd :: "nat \<Rightarrow> u64 \<Rightarrow> u64 \<Rightarrow> nat \<times> u64 \<times> u64" where
  "pack_bwd neighbor node_paths fwd_paths = (neighbor, fwd_paths, node_paths)"

definition expand_fwd :: "nat list list \<Rightarrow> bfs_search \<Rightarrow> bfs_search option" where
  "expand_fwd out s =
     (let dist = fwd_dist s + 1 in
      map_option
        (\<lambda>L. s\<lparr>fwd_dist := dist, fwd_visited := lv_visited L, fwd_current := lv_next L, fwd_next := [],
                best_distance := lv_best L, meeting_nodes := lv_meeting L\<rparr>)
        (expand_nodes pack_fwd dist (bwd_visited s) out (fwd_current s)
           \<lparr>lv_visited = fwd_visited s, lv_next = fwd_next s, lv_best = best_distance s,
            lv_meeting = meeting_nodes s\<rparr>))"

definition expand_bwd :: "nat list list \<Rightarrow> bfs_search \<Rightarrow> bfs_search option" where
  "expand_bwd inn s =
     (let dist = bwd_dist s + 1 in
      map_option
        (\<lambda>L. s\<lparr>bwd_dist := dist, bwd_visited := lv_visited L, bwd_current := lv_next L, bwd_next := [],
                best_distance := lv_best L, meeting_nodes := lv_meeting L\<rparr>)
        (expand_nodes pack_bwd dist (fwd_visited s) inn (bwd_current s)
           \<lparr>lv_visited = bwd_visited s, lv_next = bwd_next s, lv_best = best_distance s,
            lv_meeting = meeting_nodes s\<rparr>))"

section \<open>The loop\<close>

text \<open>The loop condition and the two \<open>break\<close>s.\<close>

definition keep_searching :: "nat \<Rightarrow> bfs_search \<Rightarrow> bool" where
  "keep_searching max_hops s \<longleftrightarrow>
     fwd_current s \<noteq> [] \<and> bwd_current s \<noteq> [] \<and>
     \<not> (case best_distance s of None \<Rightarrow> False | Some best \<Rightarrow> best \<le> fwd_dist s + bwd_dist s) \<and>
     \<not> max_hops \<le> fwd_dist s + bwd_dist s"

definition expand_forward :: "nat list \<Rightarrow> nat list \<Rightarrow> bool" where
  "expand_forward fwd bwd =
     (if fwd = [] then False else if bwd = [] then True else length fwd \<le> length bwd)"

definition expand :: "nat list list \<Rightarrow> nat list list \<Rightarrow> bfs_search \<Rightarrow> bfs_search option" where
  "expand out inn s =
     (if expand_forward (fwd_current s) (bwd_current s) then expand_fwd out s
      else expand_bwd inn s)"

lemma expand_dist: "expand out inn s = Some s' \<Longrightarrow> fwd_dist s' + bwd_dist s' = Suc (fwd_dist s + bwd_dist s)"
  by (auto simp: expand_def expand_fwd_def expand_bwd_def Let_def split: if_splits)

function bfs_loop :: "nat list list \<Rightarrow> nat list list \<Rightarrow> nat \<Rightarrow> bfs_search \<Rightarrow> bfs_search option" where
  "bfs_loop out inn max_hops s =
     (if keep_searching max_hops s then
        (case expand out inn s of
           None \<Rightarrow> None
         | Some s' \<Rightarrow> bfs_loop out inn max_hops s')
      else Some s)"
  by pat_completeness auto
termination
  by (relation "measure (\<lambda>(out, inn, m, s). m - (fwd_dist s + bwd_dist s))")
    (auto simp: keep_searching_def dest: expand_dist)

declare bfs_loop.simps [simp del]

section \<open>The result\<close>

definition total_paths :: "(nat \<times> u64 \<times> u64) list \<Rightarrow> u64" where
  "total_paths meeting = foldl sat_add 0 (map (\<lambda>(_, fwd_paths, bwd_paths). sat_mul fwd_paths bwd_paths) meeting)"

fun collect_bridges :: "nat \<Rightarrow> nat \<Rightarrow> (nat \<times> u64 \<times> u64) list \<Rightarrow> nat set \<times> nat list \<Rightarrow> nat set \<times> nat list" where
  "collect_bridges from_id to_id [] acc = acc"
| "collect_bridges from_id to_id ((i, _, _) # rest) (seen, ids) =
     collect_bridges from_id to_id rest
       (if i \<noteq> from_id \<and> i \<noteq> to_id then
          (if i \<in> seen then (seen, ids) else (insert i seen, ids @ [i]))
        else (seen, ids))"

definition finish_search ::
    "wot_graph \<Rightarrow> nat \<Rightarrow> nat \<Rightarrow> nat \<Rightarrow> bool \<Rightarrow> bool \<Rightarrow> string \<Rightarrow> string \<Rightarrow> bfs_search \<Rightarrow>
     distance_result \<times> bfs_state" where
  "finish_search g from_id to_id max_hops include_bridges mutual from_arc to_arc s =
     (case best_distance s of
        Some h \<Rightarrow>
          if h \<le> max_hops then
            let count = total_paths (meeting_nodes s);
                (seen, ids) = (if include_bridges
                               then collect_bridges from_id to_id (meeting_nodes s) (bridge_set s, bridge_ids s)
                               else (bridge_set s, bridge_ids s))
            in (\<lparr>dr_from = from_arc, dr_to = to_arc, hops = Some h, path_count = count,
                 mutual_follow = mutual,
                 bridges = (if include_bridges then Some (resolve_pubkeys_arc g ids) else None)\<rparr>,
                bfs_state.truncate (s\<lparr>bridge_set := seen, bridge_ids := ids\<rparr>))
          else (not_found from_arc to_arc, bfs_state.truncate s)
      | None \<Rightarrow> (not_found from_arc to_arc, bfs_state.truncate s))"

definition start_search :: "bfs_state \<Rightarrow> nat \<Rightarrow> nat \<Rightarrow> bfs_search" where
  "start_search st from_id to_id =
     bfs_state.extend
       (st\<lparr>fwd_visited := (fwd_visited st)(from_id \<mapsto> (0, 1)), fwd_current := fwd_current st @ [from_id],
           bwd_visited := (bwd_visited st)(to_id \<mapsto> (0, 1)), bwd_current := bwd_current st @ [to_id]\<rparr>)
       (bfs_search.fields 0 0 None)"

definition bidirectional_bfs ::
    "bfs_state \<Rightarrow> nat list list \<Rightarrow> nat list list \<Rightarrow> nat \<Rightarrow> nat \<Rightarrow> nat \<Rightarrow> bool \<Rightarrow> bool \<Rightarrow> string \<Rightarrow> string \<Rightarrow>
     wot_graph \<Rightarrow> (distance_result \<times> bfs_state) option" where
  "bidirectional_bfs st out inn from_id to_id max_hops include_bridges mutual from_arc to_arc g =
     map_option (finish_search g from_id to_id max_hops include_bridges mutual from_arc to_arc)
       (bfs_loop out inn max_hops (start_search st from_id to_id))"

definition is_direct :: "nat list list \<Rightarrow> nat \<Rightarrow> nat \<Rightarrow> bool" where
  "is_direct out from to =
     (case index out from of None \<Rightarrow> False | Some l \<Rightarrow> is_ok (binary_search l to))"

definition compute_distance ::
    "wot_graph \<Rightarrow> bfs_state \<Rightarrow> distance_query \<Rightarrow> (distance_result \<times> bfs_state) option" where
  "compute_distance g scratch q =
     (if dq_from q = dq_to q then
        Some (same_node (case get_pubkey_arc_by_str g (dq_from q) of Some a \<Rightarrow> a | None \<Rightarrow> dq_from q), scratch)
      else
        case get_node_id_and_arc g (dq_from q) of
          None \<Rightarrow> Some (not_found (dq_from q) (dq_to q), scratch)
        | Some (from_id, from_arc) \<Rightarrow>
            (case get_node_id_and_arc g (dq_to q) of
               None \<Rightarrow> Some (not_found from_arc (dq_to q), scratch)
             | Some (to_id, to_arc) \<Rightarrow>
                 let mutual = (is_direct (follows g) from_id to_id \<and> is_direct (follows g) to_id from_id) in
                 if 0 < unat (dq_max_hops q) \<and> is_direct (follows g) from_id to_id then
                   Some (\<lparr>dr_from = from_arc, dr_to = to_arc, hops = Some 1, path_count = 1,
                          mutual_follow = mutual,
                          bridges = (if dq_include_bridges q then Some [] else None)\<rparr>, scratch)
                 else
                   bidirectional_bfs (bfs_clear scratch) (follows g) (followers g) from_id to_id
                     (unat (dq_max_hops q)) (dq_include_bridges q) mutual from_arc to_arc g))"

end
