(* ===== verification/GraphPaths.thy ===== *)
theory GraphPaths
  imports WotPrelude
begin

text \<open>
  The specification of distances: walks of a directed graph, their number and the least length.
  \<open>walks R k u v\<close> are the vertex lists of the walks with \<open>k\<close> edges, \<open>dist_is R u v d\<close>
  says that the shortest has \<open>d\<close>. The locale \<open>digraph\<close> holds the counting lemmas that the
  bidirectional search rests on; it is interpreted on the edge relation of adjacency vectors.
\<close>

section \<open>Walks and distances\<close>

definition walks :: "('a \<Rightarrow> 'a \<Rightarrow> bool) \<Rightarrow> nat \<Rightarrow> 'a \<Rightarrow> 'a \<Rightarrow> 'a list set" where
  "walks R k u v = {p. length p = Suc k \<and> hd p = u \<and> last p = v \<and> successively R p}"

definition dist_is :: "('a \<Rightarrow> 'a \<Rightarrow> bool) \<Rightarrow> 'a \<Rightarrow> 'a \<Rightarrow> nat \<Rightarrow> bool" where
  "dist_is R u v d \<longleftrightarrow> walks R d u v \<noteq> {} \<and> (\<forall>k<d. walks R k u v = {})"

definition edge :: "nat list list \<Rightarrow> nat \<Rightarrow> nat \<Rightarrow> bool" where
  "edge out i j \<longleftrightarrow> i < length out \<and> j < length out \<and> j \<in> set (out ! i)"

lemma walks_0: "walks R 0 u v = (if u = v then {[u]} else {})"
proof -
  have "length p = Suc 0 \<longleftrightarrow> (\<exists>x. p = [x])" for p :: "'a list"
    by (simp add: length_Suc_conv)
  then show ?thesis by (auto simp: walks_def)
qed

lemma walks_Suc: "walks R (Suc k) u v = (\<Union>x \<in> {x. R u x}. (#) u ` walks R k x v)"
proof -
  have "p \<in> walks R (Suc k) u v \<longleftrightarrow> (\<exists>x q. R u x \<and> q \<in> walks R k x v \<and> p = u # q)" for p
  proof
    assume p: "p \<in> walks R (Suc k) u v"
    then obtain x q where "p = u # x # q" by (auto simp: walks_def length_Suc_conv)
    then show "\<exists>x q. R u x \<and> q \<in> walks R k x v \<and> p = u # q"
      using p by (auto simp: walks_def)
  next
    assume "\<exists>x q. R u x \<and> q \<in> walks R k x v \<and> p = u # q"
    then obtain x q where q: "R u x" "q \<in> walks R k x v" "p = u # q" by blast
    then obtain q' where "q = x # q'" by (cases q) (auto simp: walks_def)
    then show "p \<in> walks R (Suc k) u v" using q by (auto simp: walks_def)
  qed
  then show ?thesis by (intro set_eqI) (simp add: image_iff, blast)
qed

lemma walks_append:
  assumes "p \<in> walks R j u x" "q \<in> walks R k x v"
  shows "p @ tl q \<in> walks R (j + k) u v"
proof -
  obtain q' where q: "q = x # q'" using assms(2) by (cases q) (auto simp: walks_def)
  have p: "p \<noteq> []" "last p = x" using assms(1) by (auto simp: walks_def)
  then have "successively R (p @ q')"
    using assms q by (cases q') (auto simp: walks_def successively_append_iff)
  then show ?thesis using assms q p by (auto simp: walks_def)
qed

lemma walks_step: "walks R j u x \<noteq> {} \<Longrightarrow> R x y \<Longrightarrow> walks R (Suc j) u y \<noteq> {}"
proof -
  assume "walks R j u x \<noteq> {}" "R x y"
  then obtain p where "p \<in> walks R j u x" "[x, y] \<in> walks R 1 x y" by (auto simp: walks_def)
  then have "p @ tl [x, y] \<in> walks R (j + 1) u y" by (rule walks_append)
  then show ?thesis by auto
qed

lemma walks_cut:
  assumes "p \<in> walks R (j + k) u v"
  shows "take (Suc j) p \<in> walks R j u (p ! j)" "drop j p \<in> walks R k (p ! j) v"
proof -
  have len: "length p = Suc (j + k)" and p: "p \<noteq> []" using assms by (auto simp: walks_def)
  have "successively R (take (Suc j) p @ drop (Suc j) p)" "successively R (take j p @ drop j p)"
    using assms by (auto simp: walks_def)
  then have "successively R (take (Suc j) p)" "successively R (drop j p)"
    unfolding successively_append_iff by blast+
  moreover have "last (take (Suc j) p) = p ! j" "hd (drop j p) = p ! j"
    using len by (simp_all add: take_Suc_conv_app_nth hd_drop_conv_nth)
  ultimately show "take (Suc j) p \<in> walks R j u (p ! j)" "drop j p \<in> walks R k (p ! j) v"
    using assms len p by (auto simp: walks_def hd_take last_drop)
qed

lemma rev_in_walks: "p \<in> walks R k u v \<Longrightarrow> rev p \<in> walks (\<lambda>x y. R y x) k v u"
  by (auto simp: walks_def hd_rev last_rev successively_rev)

lemma walks_rev: "walks (\<lambda>x y. R y x) k v u = rev ` walks R k u v"
proof
  show "walks (\<lambda>x y. R y x) k v u \<subseteq> rev ` walks R k u v"
    using rev_in_walks [of _ "\<lambda>x y. R y x" k v u] rev_rev_ident by (metis image_eqI subsetI)
  show "rev ` walks R k u v \<subseteq> walks (\<lambda>x y. R y x) k v u"
    by (auto intro: rev_in_walks)
qed

lemma card_walks_rev: "card (walks (\<lambda>x y. R y x) k v u) = card (walks R k u v)"
  unfolding walks_rev [of R k v u] by (rule card_image) (simp add: inj_on_def)

lemma dist_is_rev: "dist_is (\<lambda>x y. R y x) v u d \<longleftrightarrow> dist_is R u v d"
  by (simp add: dist_is_def walks_rev [where R = R])

lemma dist_is_unique: "dist_is R u v d \<Longrightarrow> dist_is R u v d' \<Longrightarrow> d = d'"
  by (metis dist_is_def linorder_neqE_nat)

lemma dist_is_0 [simp]: "dist_is R u v 0 \<longleftrightarrow> u = v"
  by (simp add: dist_is_def walks_0)

lemma dist_is_le: "walks R k u v \<noteq> {} \<Longrightarrow> \<exists>d\<le>k. dist_is R u v d"
proof -
  assume a: "walks R k u v \<noteq> {}"
  let ?d = "LEAST k. walks R k u v \<noteq> {}"
  have "dist_is R u v ?d"
    unfolding dist_is_def using LeastI [of "\<lambda>k. walks R k u v \<noteq> {}", OF a] not_less_Least by blast
  moreover have "?d \<le> k" using a by (rule Least_le)
  ultimately show ?thesis by blast
qed

text \<open>A vertex on a shortest walk is at its place.\<close>

lemma dist_is_split:
  assumes d: "dist_is R u v (j + k)" and "walks R j u x \<noteq> {}" "walks R k x v \<noteq> {}"
  shows "dist_is R u x j" "dist_is R x v k"
proof -
  obtain j' k' where j': "j' \<le> j" "dist_is R u x j'" and k': "k' \<le> k" "dist_is R x v k'"
    using dist_is_le assms(2,3) by meson
  obtain p q where "p \<in> walks R j' u x" "q \<in> walks R k' x v"
    using j'(2) k'(2) by (auto simp: dist_is_def)
  then have "walks R (j' + k') u v \<noteq> {}" using walks_append by fastforce
  then have "j + k \<le> j' + k'" using d by (meson dist_is_def not_less)
  then have "j' = j" "k' = k" using j'(1) k'(1) by simp_all
  then show "dist_is R u x j" "dist_is R x v k" using j'(2) k'(2) by simp_all
qed

lemma dist_is_layer:
  assumes "dist_is R u v (j + k)"
  obtains x where "dist_is R u x j" "dist_is R x v k"
proof -
  obtain p where "p \<in> walks R (j + k) u v" using assms by (auto simp: dist_is_def)
  then have "walks R j u (p ! j) \<noteq> {}" "walks R k (p ! j) v \<noteq> {}"
    using walks_cut [of p R j k u v] by auto
  then show thesis using that dist_is_split [OF assms] by blast
qed

lemma dist_is_triangle: "dist_is R u v d \<Longrightarrow> walks R j u x \<noteq> {} \<Longrightarrow> walks R k x v \<noteq> {} \<Longrightarrow> d \<le> j + k"
proof -
  assume a: "dist_is R u v d" "walks R j u x \<noteq> {}" "walks R k x v \<noteq> {}"
  then have "walks R (j + k) u v \<noteq> {}" using walks_append by fastforce
  then show "d \<le> j + k" using a(1) by (meson dist_is_def not_less)
qed

text \<open>A search that has found nothing and cannot go on.\<close>

lemma exhausted:
  assumes none: "\<And>i. i \<le> k + m \<Longrightarrow> walks R i s t = {}"
    and stuck: "(\<forall>v. \<not> dist_is R s v k) \<or> (\<forall>v. \<not> dist_is R v t m) \<or> n \<le> k + m"
    and "d \<le> n"
  shows "\<not> dist_is R s t d"
proof
  assume d: "dist_is R s t d"
  then have far: "k + m < d" using none by (meson dist_is_def not_le)
  from stuck show False
  proof (elim disjE)
    assume "\<forall>v. \<not> dist_is R s v k"
    moreover have "k + (d - k) = d" using far by simp
    ultimately show False using dist_is_layer [of R s t k "d - k"] d by metis
  next
    assume "\<forall>v. \<not> dist_is R v t m"
    moreover have "(d - m) + m = d" using far by simp
    ultimately show False using dist_is_layer [of R s t "d - m" m] d by metis
  qed (use far assms(3) in simp)
qed

text \<open>Renaming the vertices renames the walks.\<close>

lemma walks_in: "(\<And>u v. R u v \<Longrightarrow> v \<in> V) \<Longrightarrow> u \<in> V \<Longrightarrow> p \<in> walks R k u v \<Longrightarrow> set p \<subseteq> V"
proof (induction k arbitrary: u p)
  case 0
  then show ?case by (auto simp: walks_0 split: if_splits)
next
  case (Suc k)
  then obtain x q where q: "R u x" "q \<in> walks R k x v" "p = u # q" by (auto simp: walks_Suc)
  then have "set q \<subseteq> V" using Suc.IH Suc.prems(1) by blast
  then show ?case using q Suc.prems by simp
qed

lemma walks_image:
  assumes "inj_on f V" "\<And>u v. R u v \<Longrightarrow> v \<in> V" "\<And>u. u \<in> V \<Longrightarrow> {y. S (f u) y} = f ` {x. R u x}"
    and "u \<in> V" "v \<in> V"
  shows "walks S k (f u) (f v) = map f ` walks R k u v"
  using assms(4)
proof (induction k arbitrary: u)
  case 0
  then show ?case using assms(1,5) by (auto simp: walks_0 inj_on_eq_iff)
next
  case (Suc k)
  have "walks S (Suc k) (f u) (f v) = (\<Union>x \<in> {x. R u x}. (#) (f u) ` walks S k (f x) (f v))"
    unfolding walks_Suc assms(3) [OF Suc.prems] by simp
  also have "\<dots> = (\<Union>x \<in> {x. R u x}. map f ` (#) u ` walks R k x v)"
    using Suc.IH assms(2) by (intro SUP_cong refl) (auto simp: image_image)
  finally show ?case by (simp add: walks_Suc image_UN)
qed

lemma walks_image_card:
  assumes "inj_on f V" "\<And>u v. R u v \<Longrightarrow> v \<in> V" "\<And>u. u \<in> V \<Longrightarrow> {y. S (f u) y} = f ` {x. R u x}"
    and "u \<in> V" "v \<in> V"
  shows "card (walks S k (f u) (f v)) = card (walks R k u v)" "dist_is S (f u) (f v) d \<longleftrightarrow> dist_is R u v d"
proof -
  have im: "walks S k (f u) (f v) = map f ` walks R k u v" for k
    using assms by (rule walks_image)
  have "p \<in> walks R k u v \<Longrightarrow> set p \<subseteq> V" for p using assms(2,4) by (rule walks_in)
  then have "inj_on f (\<Union> (set ` walks R k u v))"
    by (intro inj_on_subset [OF assms(1)]) blast
  then have "inj_on (map f) (walks R k u v)" by (rule inj_on_mapI)
  then show "card (walks S k (f u) (f v)) = card (walks R k u v)"
    unfolding im by (rule card_image)
  show "dist_is S (f u) (f v) d \<longleftrightarrow> dist_is R u v d" by (simp add: dist_is_def im)
qed

lemma dist_is_1: "u \<noteq> v \<Longrightarrow> R u v \<Longrightarrow> dist_is R u v 1" "R u v \<Longrightarrow> walks R 1 u v = {[u, v]}"
  by (auto simp: dist_is_def walks_0 walks_Suc split: if_splits)

lemma dist_is_pos: "dist_is R u v (Suc d) \<Longrightarrow> (\<exists>x. R u x) \<and> (\<exists>x. R x v)"
proof -
  assume d: "dist_is R u v (Suc d)"
  then obtain x y where "dist_is R u x 1" "dist_is R y v 1"
    using dist_is_layer [of R u v 1 d] dist_is_layer [of R u v d 1] by (metis Suc_eq_plus1 Suc_eq_plus1_left)
  then show ?thesis by (fastforce simp: dist_is_def walks_0 walks_Suc split: if_splits)
qed

section \<open>Where two searches meet\<close>

text \<open>
  Two searches, one from \<open>u\<close> along the edges and one from \<open>v\<close> against them, of which the one with the
  smaller outermost layer makes the next step, the forward one if they are equal. \<open>depths R u v n\<close> are
  the steps that each has made of the first \<open>n\<close>, and \<open>meeting_layer\<close> are the vertices on shortest walks
  where they meet.
\<close>

primrec depths :: "('a \<Rightarrow> 'a \<Rightarrow> bool) \<Rightarrow> 'a \<Rightarrow> 'a \<Rightarrow> nat \<Rightarrow> nat \<times> nat" where
  "depths R u v 0 = (0, 0)"
| "depths R u v (Suc n) =
     (case depths R u v n of (k, m) \<Rightarrow>
        if card {x. dist_is R u x k} \<le> card {x. dist_is R x v m} then (Suc k, m) else (k, Suc m))"

definition meeting_layer :: "('a \<Rightarrow> 'a \<Rightarrow> bool) \<Rightarrow> 'a \<Rightarrow> 'a \<Rightarrow> nat \<Rightarrow> 'a set" where
  "meeting_layer R u v d = (case depths R u v d of (k, m) \<Rightarrow> {x. dist_is R u x k \<and> dist_is R x v m})"

lemma depths_sum: "fst (depths R u v n) + snd (depths R u v n) = n"
  by (induction n) (auto split: prod.split)

lemma depths_forward_first: "0 < fst (depths R u v (Suc n))"
proof (induction n)
  case 0
  have "{x. u = x} = {u}" "{x. x = v} = {v}" by auto
  then show ?case by simp
next
  case (Suc n)
  then show ?case by (subst depths.simps) (auto split: prod.split)
qed

lemma meeting_layer_inner:
  assumes "dist_is R u v d" "u \<noteq> v"
  shows "meeting_layer R u v d - {u, v} = {} \<longleftrightarrow> snd (depths R u v d) = 0"
proof -
  obtain n where n: "d = Suc n" using assms by (cases d) auto
  obtain k m where km: "depths R u v d = (k, m)" by (cases "depths R u v d")
  then have sum: "k + m = d" and k: "0 < k" using depths_sum [of R u v d] depths_forward_first [of R u v n] n by simp_all
  obtain x where x: "dist_is R u x k" "dist_is R x v m" using dist_is_layer [of R u v k m] assms(1) sum by blast
  show ?thesis
  proof (cases m)
    case 0
    then show ?thesis by (auto simp: meeting_layer_def km)
  next
    case (Suc j)
    have "x \<noteq> u" using x(1) k dist_is_unique [of R u u 0 k] by auto
    moreover have "x \<noteq> v" using x(2) Suc dist_is_unique [of R v v 0 m] by auto
    ultimately show ?thesis using x Suc by (auto simp: meeting_layer_def km)
  qed
qed

section \<open>Counting walks\<close>

locale digraph =
  fixes V :: "'a set" and R :: "'a \<Rightarrow> 'a \<Rightarrow> bool"
  assumes finite_V: "finite V"
    and source_in: "R u v \<Longrightarrow> u \<in> V"
    and target_in: "R u v \<Longrightarrow> v \<in> V"
begin

lemma finite_succ: "finite {x. R u x}"
  using finite_V by (rule finite_subset [rotated]) (auto dest: target_in)

lemma finite_walks: "finite (walks R k u v)"
  by (induction k arbitrary: u) (auto simp: walks_0 walks_Suc finite_succ)

lemma card_walks_Suc: "card (walks R (Suc k) u v) = (\<Sum>x | R u x. card (walks R k x v))"
proof -
  have "card (walks R (Suc k) u v) = (\<Sum>x | R u x. card ((#) u ` walks R k x v))"
    unfolding walks_Suc
  proof (rule card_UN_disjoint [OF finite_succ])
    show "\<forall>x \<in> {x. R u x}. finite ((#) u ` walks R k x v)" by (simp add: finite_walks)
    show "\<forall>x \<in> {x. R u x}. \<forall>y \<in> {x. R u x}. x \<noteq> y \<longrightarrow> (#) u ` walks R k x v \<inter> (#) u ` walks R k y v = {}"
      by (auto simp: walks_def)
  qed
  also have "\<dots> = (\<Sum>x | R u x. card (walks R k x v))"
    by (intro sum.cong refl card_image) (simp add: inj_on_def)
  finally show ?thesis .
qed

lemma sum_succ: "(\<Sum>x | R u x. f x) = (\<Sum>x \<in> V. if R u x then f x else 0)"
  using finite_V target_in by (intro sum.mono_neutral_cong_left) auto

lemma card_walks_add:
  "u \<in> V \<Longrightarrow> card (walks R (j + k) u v) = (\<Sum>x \<in> V. card (walks R j u x) * card (walks R k x v))"
proof (induction j arbitrary: u)
  case 0
  have "(\<Sum>x \<in> V. card (walks R 0 u x) * card (walks R k x v)) =
      (\<Sum>x \<in> V. if u = x then card (walks R k u v) else 0)"
    by (intro sum.cong refl) (simp add: walks_0)
  also have "\<dots> = card (walks R k u v)"
    using finite_V 0 by simp
  finally show ?case by simp
next
  case (Suc j)
  have "card (walks R (Suc j + k) u v) = (\<Sum>y | R u y. card (walks R (j + k) y v))"
    using card_walks_Suc [of "j + k"] by simp
  also have "\<dots> = (\<Sum>y | R u y. \<Sum>x \<in> V. card (walks R j y x) * card (walks R k x v))"
    by (intro sum.cong refl Suc.IH) (auto dest: target_in)
  also have "\<dots> = (\<Sum>x \<in> V. \<Sum>y | R u y. card (walks R j y x) * card (walks R k x v))"
    by (rule sum.swap)
  also have "\<dots> = (\<Sum>x \<in> V. card (walks R (Suc j) u x) * card (walks R k x v))"
    by (intro sum.cong refl) (simp add: card_walks_Suc sum_distrib_right)
  finally show ?case .
qed

lemma card_walks_edges:
  assumes "u \<in> V"
  shows "card (walks R (Suc (j + k)) u v) =
    (\<Sum>x \<in> V. \<Sum>y | R x y. card (walks R j u x) * card (walks R k y v))"
proof -
  have "card (walks R (j + Suc k) u v) = (\<Sum>x \<in> V. card (walks R j u x) * card (walks R (Suc k) x v))"
    using assms by (rule card_walks_add)
  then show ?thesis by (simp add: card_walks_Suc sum_distrib_left)
qed

lemma card_walks_last:
  assumes "u \<in> V"
  shows "card (walks R (Suc j) u v) = (\<Sum>x \<in> V. if R x v then card (walks R j u x) else 0)"
proof -
  have 1: "(\<Sum>y | R x y. card (walks R j u x) * card (walks R 0 y v)) =
      (if R x v then card (walks R j u x) else 0)" for x
  proof -
    have "(\<Sum>y | R x y. card (walks R j u x) * card (walks R 0 y v)) =
        (\<Sum>y | R x y. if y = v then card (walks R j u x) else 0)"
      by (intro sum.cong refl) (simp add: walks_0)
    then show ?thesis by (simp add: sum.delta' [OF finite_succ] finite_succ)
  qed
  show ?thesis using card_walks_edges [OF assms, of j 0 v] by (simp add: 1)
qed

text \<open>Only the exact layers contribute to the shortest walks.\<close>

lemma card_shortest_last:
  assumes "u \<in> V" "dist_is R u v (Suc j)"
  shows "card (walks R (Suc j) u v) = (\<Sum>x | dist_is R u x j \<and> R x v. card (walks R j u x))"
proof -
  have "(if R x v then card (walks R j u x) else 0) = 0" if "x \<in> V - {x. dist_is R u x j \<and> R x v}" for x
  proof (cases "R x v \<and> walks R j u x \<noteq> {}")
    case True
    then have "[x, v] \<in> walks R 1 x v" by (simp add: walks_def)
    then have "dist_is R u x j" using dist_is_split [of R u v j 1 x] assms(2) True by auto
    then show ?thesis using that True by simp
  next
    case False
    then show ?thesis by auto
  qed
  moreover have "{x. dist_is R u x j \<and> R x v} \<subseteq> V" by (auto dest: source_in)
  ultimately show ?thesis
    unfolding card_walks_last [OF assms(1)]
    by (intro sum.mono_neutral_cong_right) (auto simp: finite_V)
qed

lemma card_shortest_edges:
  assumes "u \<in> V" "dist_is R u v (Suc (j + k))"
  shows "card (walks R (Suc (j + k)) u v) =
    (\<Sum>x | dist_is R u x j \<and> x \<in> V. \<Sum>y | R x y \<and> dist_is R y v k. card (walks R j u x) * card (walks R k y v))"
proof -
  have inner: "(\<Sum>y | R x y. card (walks R j u x) * card (walks R k y v)) =
      (if dist_is R u x j then (\<Sum>y | R x y \<and> dist_is R y v k. card (walks R j u x) * card (walks R k y v)) else 0)" for x
  proof -
    have z: "dist_is R u x j \<and> dist_is R y v k"
      if "R x y" "walks R j u x \<noteq> {}" "walks R k y v \<noteq> {}" for y
    proof -
      have "walks R (Suc k) x v \<noteq> {}" using that by (auto simp: walks_Suc)
      then have "dist_is R u x j" using dist_is_split(1) [of R u v j "Suc k"] assms(2) that by simp
      moreover have "walks R (Suc j) u y \<noteq> {}" using walks_step that by metis
      then have "dist_is R y v k" using dist_is_split(2) [of R u v "Suc j" k] assms(2) that by simp
      ultimately show ?thesis ..
    qed
    show ?thesis
    proof (cases "dist_is R u x j")
      case True
      have "(\<Sum>y | R x y. card (walks R j u x) * card (walks R k y v)) =
          (\<Sum>y | R x y \<and> dist_is R y v k. card (walks R j u x) * card (walks R k y v))"
        using z by (intro sum.mono_neutral_right) (auto simp: finite_succ card_eq_0_iff finite_walks)
      then show ?thesis using True by simp
    next
      case False
      have "card (walks R j u x) * card (walks R k y v) = 0" if "R x y" for y
        using z [OF that] False by (auto simp: card_eq_0_iff)
      then show ?thesis using False by (auto intro!: sum.neutral)
    qed
  qed
  have "card (walks R (Suc (j + k)) u v) = (\<Sum>x \<in> V. if dist_is R u x j
      then (\<Sum>y | R x y \<and> dist_is R y v k. card (walks R j u x) * card (walks R k y v)) else 0)"
    unfolding card_walks_edges [OF assms(1)] inner ..
  also have "\<dots> = (\<Sum>x | dist_is R u x j \<and> x \<in> V. \<Sum>y | R x y \<and> dist_is R y v k. card (walks R j u x) * card (walks R k y v))"
    using finite_V by (intro sum.mono_neutral_cong_right) auto
  finally show ?thesis .
qed

end

interpretation ids: digraph "{..<length out}" "edge out" for out :: "nat list list"
  by unfold_locales (auto simp: edge_def)

interpretation rev_ids: digraph "{..<length out}" "\<lambda>x y. edge out y x" for out :: "nat list list"
  by unfold_locales (auto simp: edge_def)

end
