(* ===== verification/BfsLevel.thy ===== *)
theory BfsLevel
  imports BfsDistance GraphPaths
begin

text \<open>
  What expanding one level of \<open>compute_distance\<close> does. A level is a fold over the edges that
  leave the frontier; from a correct side of the search (\<open>side\<close>: the visited map holds exactly
  the vertices up to distance \<open>k\<close>, each with the saturated number of its shortest walks) it
  makes the correct side for \<open>k + 1\<close>, and the meeting nodes it records are a whole layer of the
  shortest walks, with their number. Both directions use the same lemmas, the backward one over the
  reversed relation.
\<close>

section \<open>A level is a fold over edges\<close>

definition frontier_edges :: "nat list list \<Rightarrow> nat list \<Rightarrow> (nat \<times> nat) list" where
  "frontier_edges adj nodes = concat (map (\<lambda>u. map (Pair u) (adj ! u)) nodes)"

lemma frontier_edges_simps [simp]:
  "frontier_edges adj [] = []"
  "frontier_edges adj (u # us) = map (Pair u) (adj ! u) @ frontier_edges adj us"
  by (simp_all add: frontier_edges_def)

lemma set_frontier_edges: "set (frontier_edges adj nodes) = {(u, v). u \<in> set nodes \<and> v \<in> set (adj ! u)}"
  by (induction nodes) auto

lemma sum_frontier_edges:
  fixes f :: "nat \<Rightarrow> nat \<Rightarrow> nat"
  assumes "distinct nodes" "\<And>u. u \<in> set nodes \<Longrightarrow> distinct (adj ! u)"
  shows "(\<Sum>(u, v) \<leftarrow> frontier_edges adj nodes. f u v) = (\<Sum>u \<in> set nodes. \<Sum>v \<in> set (adj ! u). f u v)"
  using assms by (induction nodes) (simp_all add: o_def sum_list_distinct_conv_sum_set)

lemma visited_meet [simp]: "lv_visited (meet_neighbor pack dist other np v L) = lv_visited L"
  by (simp add: meet_neighbor_def Let_def split: option.split)

lemma next_meet [simp]: "lv_next (meet_neighbor pack dist other np v L) = lv_next L"
  by (simp add: meet_neighbor_def Let_def split: option.split)

lemma best_visit [simp]: "lv_best (visit_neighbor dist np v L) = lv_best L"
  by (simp add: visit_neighbor_def split: option.split)

lemma meeting_visit [simp]: "lv_meeting (visit_neighbor dist np v L) = lv_meeting L"
  by (simp add: visit_neighbor_def split: option.split)

lemma visited_keeps:
  "lv_visited L u = Some (k, c) \<Longrightarrow> k \<noteq> dist \<Longrightarrow>
     lv_visited (expand_neighbor pack dist other np v L) u = Some (k, c)"
  by (auto simp: expand_neighbor_def visit_neighbor_def split: option.split)

lemma visited_keeps_fold:
  "lv_visited L u = Some (k, c) \<Longrightarrow> k \<noteq> dist \<Longrightarrow>
     lv_visited (fold (expand_neighbor pack dist other np) vs L) u = Some (k, c)"
  by (induction vs arbitrary: L) (simp_all add: visited_keeps)

definition expand_edges ::
    "(nat \<Rightarrow> u64 \<Rightarrow> u64 \<Rightarrow> nat \<times> u64 \<times> u64) \<Rightarrow> nat \<Rightarrow> visited \<Rightarrow> (nat \<Rightarrow> u64) \<Rightarrow> (nat \<times> nat) list \<Rightarrow>
     level \<Rightarrow> level" where
  "expand_edges pack dist other cnt es L = fold (\<lambda>(u, v). expand_neighbor pack dist other (cnt u) v) es L"

lemma expand_edges_append:
  "expand_edges pack dist other cnt (es @ fs) L =
     expand_edges pack dist other cnt fs (expand_edges pack dist other cnt es L)"
  by (simp add: expand_edges_def)

lemma expand_edges_row:
  "expand_edges pack dist other cnt (map (Pair u) vs) L = fold (expand_neighbor pack dist other (cnt u)) vs L"
  by (induction vs arbitrary: L) (simp_all add: expand_edges_def)

lemma expand_nodes_edges:
  assumes "\<And>u. u \<in> set nodes \<Longrightarrow> u < length adj \<and> (\<exists>k. lv_visited L u = Some (k, cnt u) \<and> k \<noteq> dist)"
  shows "expand_nodes pack dist other adj nodes L =
    Some (expand_edges pack dist other cnt (frontier_edges adj nodes) L)"
  using assms
proof (induction nodes arbitrary: L)
  case Nil
  then show ?case by (simp add: expand_edges_def)
next
  case (Cons u us)
  from Cons.prems obtain k where u: "u < length adj" "lv_visited L u = Some (k, cnt u)" by fastforce
  let ?L = "fold (expand_neighbor pack dist other (cnt u)) (adj ! u) L"
  have "expand_nodes pack dist other adj us ?L =
      Some (expand_edges pack dist other cnt (frontier_edges adj us) ?L)"
    by (rule Cons.IH) (meson Cons.prems list.set_intros(2) visited_keeps_fold)
  then show ?case using u by (simp add: expand_edges_append expand_edges_row)
qed

section \<open>The visited map and the next frontier\<close>

definition visits :: "nat \<Rightarrow> visited \<Rightarrow> (nat \<times> nat) list \<Rightarrow> (nat \<Rightarrow> nat) \<Rightarrow> visited" where
  "visits dist vis es w v =
     (case vis v of
        Some x \<Rightarrow> Some x
      | None \<Rightarrow> if v \<in> snd ` set es then Some (dist, capped (\<Sum>(u, v') \<leftarrow> es. if v' = v then w u else 0)) else None)"

lemma visits_snoc_cnt:
  "v \<notin> snd ` set es \<Longrightarrow> (\<Sum>(u, v') \<leftarrow> es. if v' = v then w u else (0 :: nat)) = 0"
  by (induction es) auto

lemma expand_edges_visited:
  assumes "\<And>v d c. lv_visited L v = Some (d, c) \<Longrightarrow> d \<noteq> dist"
  shows "lv_visited (expand_edges pack dist other (\<lambda>u. capped (w u)) es L) = visits dist (lv_visited L) es w"
proof (induction es rule: rev_induct)
  case Nil
  show ?case by (auto simp: expand_edges_def visits_def split: option.split)
next
  case (snoc e es)
  obtain u v where e: "e = (u, v)" by (cases e)
  let ?L = "expand_edges pack dist other (\<lambda>u. capped (w u)) es L"
  have step: "lv_visited (expand_edges pack dist other (\<lambda>u. capped (w u)) (es @ [(u, v)]) L) =
      lv_visited (visit_neighbor dist (capped (w u)) v (meet_neighbor pack dist other (capped (w u)) v ?L))"
    by (simp add: expand_edges_append) (simp add: expand_edges_def expand_neighbor_def)
  have "lv_visited (expand_edges pack dist other (\<lambda>u. capped (w u)) (es @ [e]) L) x =
      visits dist (lv_visited L) (es @ [e]) w x" for x
  proof (cases "lv_visited L v")
    case (Some y)
    then show ?thesis
      using assms by (cases y) (auto simp: step visit_neighbor_def snoc.IH visits_def e split: option.split)
  next
    case None
    then show ?thesis
    proof (cases "v \<in> snd ` set es")
      case True
      then show ?thesis
        using None by (auto simp: step visit_neighbor_def snoc.IH visits_def e sat_add_capped split: option.split)
    next
      case False
      then show ?thesis
        using None visits_snoc_cnt [OF False, of w]
        by (auto simp: step visit_neighbor_def snoc.IH visits_def e simp del: sum_list_eq_0_iff split: option.split)
    qed
  qed
  then show ?case by blast
qed

lemma expand_edges_next:
  assumes "\<And>v d c. lv_visited L v = Some (d, c) \<Longrightarrow> d \<noteq> dist" "lv_next L = []"
  shows "distinct (lv_next (expand_edges pack dist other (\<lambda>u. capped (w u)) es L)) \<and>
    set (lv_next (expand_edges pack dist other (\<lambda>u. capped (w u)) es L)) =
      {v. lv_visited L v = None \<and> v \<in> snd ` set es}"
proof (induction es rule: rev_induct)
  case Nil
  show ?case by (simp add: expand_edges_def assms(2))
next
  case (snoc e es)
  obtain u v where e: "e = (u, v)" by (cases e)
  let ?L = "expand_edges pack dist other (\<lambda>u. capped (w u)) es L"
  have "lv_next (expand_edges pack dist other (\<lambda>u. capped (w u)) (es @ [e]) L) =
      lv_next (visit_neighbor dist (capped (w u)) v (meet_neighbor pack dist other (capped (w u)) v ?L))"
    by (simp add: expand_edges_append e) (simp add: expand_edges_def expand_neighbor_def)
  also have "\<dots> = (if lv_visited L v = None \<and> v \<notin> snd ` set es then lv_next ?L @ [v] else lv_next ?L)"
    by (auto simp: visit_neighbor_def expand_edges_visited [OF assms(1)] visits_def split: option.split)
  finally show ?case using snoc.IH by (auto simp: e)
qed

section \<open>The meeting nodes\<close>

definition meets ::
    "(nat \<Rightarrow> u64 \<Rightarrow> u64 \<Rightarrow> nat \<times> u64 \<times> u64) \<Rightarrow> visited \<Rightarrow> (nat \<Rightarrow> u64) \<Rightarrow> (nat \<times> nat) list \<Rightarrow>
     (nat \<times> u64 \<times> u64) list" where
  "meets pack other cnt es = map (\<lambda>(u, v). pack v (cnt u) (snd (the (other v)))) (filter (\<lambda>(u, v). other v \<noteq> None) es)"

lemma expand_edges_meets:
  assumes "\<And>u v d c. (u, v) \<in> set es \<Longrightarrow> other v = Some (d, c) \<Longrightarrow> d = m"
    and "lv_best L = None" "lv_meeting L = []"
  shows "lv_meeting (expand_edges pack dist other cnt es L) = meets pack other cnt es \<and>
    lv_best (expand_edges pack dist other cnt es L) =
      (if meets pack other cnt es = [] then None else Some (dist + m))"
  using assms(1)
proof (induction es rule: rev_induct)
  case Nil
  show ?case by (simp add: expand_edges_def meets_def assms)
next
  case (snoc e es)
  obtain u v where e: "e = (u, v)" by (cases e)
  let ?L = "expand_edges pack dist other cnt es L"
  have "d = m" if "(u, v) \<in> set es" "other v = Some (d, c)" for u v d c
    using snoc.prems [of u v d c] that by simp
  then have IH: "lv_meeting ?L = meets pack other cnt es"
    "lv_best ?L = (if meets pack other cnt es = [] then None else Some (dist + m))"
    using snoc.IH by blast+
  have step: "expand_edges pack dist other cnt (es @ [e]) L =
      visit_neighbor dist (cnt u) v (meet_neighbor pack dist other (cnt u) v ?L)"
    by (simp add: expand_edges_append e) (simp add: expand_edges_def expand_neighbor_def)
  show ?case
  proof (cases "other v")
    case None
    then show ?thesis
      unfolding step by (simp add: IH meet_neighbor_def meets_def e)
  next
    case (Some x)
    then obtain c where x: "x = (m, c)" using snoc.prems [of u v "fst x" "snd x"] by (cases x) (auto simp: e)
    have "meets pack other cnt (es @ [e]) = meets pack other cnt es @ [pack v (cnt u) c]"
      by (simp add: meets_def Some x e)
    then show ?thesis
      unfolding step using Some x by (simp add: IH meet_neighbor_def Let_def)
  qed
qed

end
