(* ===== verification/BfsCorrect.thy ===== *)
theory BfsCorrect
  imports BfsLevel
begin

text \<open>
  \<open>bidirectional_bfs\<close> finds the distance, the saturated number of shortest walks and the layer
  of the vertices on them where two searches meet that expand the smaller frontier. The loop invariant (\<open>searching\<close>) says that both sides are
  correct up to their own depth and that a distance has been recorded exactly if it is the sum of
  the two depths.
\<close>

section \<open>Sides of the search\<close>

definition side :: "(nat \<Rightarrow> nat \<Rightarrow> bool) \<Rightarrow> nat \<Rightarrow> nat \<Rightarrow> visited \<Rightarrow> nat list \<Rightarrow> bool" where
  "side R s k vis cur \<longleftrightarrow>
     (\<forall>v d c. vis v = Some (d, c) \<longleftrightarrow> d \<le> k \<and> dist_is R s v d \<and> c = capped (card (walks R d s v))) \<and>
     distinct cur \<and> set cur = {v. dist_is R s v k}"

definition adj_of :: "nat list list \<Rightarrow> nat set \<Rightarrow> (nat \<Rightarrow> nat \<Rightarrow> bool) \<Rightarrow> bool" where
  "adj_of adj V R \<longleftrightarrow> (\<forall>u \<in> V. u < length adj \<and> distinct (adj ! u) \<and> set (adj ! u) = {v. R u v})"

lemma side_visited:
  "side R s k vis cur \<Longrightarrow> vis v = Some (d, c) \<longleftrightarrow> d \<le> k \<and> dist_is R s v d \<and> c = capped (card (walks R d s v))"
  by (auto simp: side_def)

lemma side_None: "side R s k vis cur \<Longrightarrow> vis v = None \<longleftrightarrow> (\<forall>d\<le>k. \<not> dist_is R s v d)"
proof -
  assume a: "side R s k vis cur"
  have "vis v \<noteq> None \<longleftrightarrow> (\<exists>d c. vis v = Some (d, c))" by auto
  then show ?thesis unfolding side_visited [OF a] by auto
qed

lemma side_cur: "side R s k vis cur \<Longrightarrow> distinct cur \<and> set cur = {v. dist_is R s v k}"
  by (simp add: side_def)

lemma side_start: "side R s 0 [s \<mapsto> (0, 1)] [s]"
  by (auto simp: side_def walks_0 intro: gr0I)

text \<open>The reached layer, its number of walks and its meeting nodes.\<close>

definition pack_ok :: "(nat \<Rightarrow> u64 \<Rightarrow> u64 \<Rightarrow> nat \<times> u64 \<times> u64) \<Rightarrow> bool" where
  "pack_ok pack \<longleftrightarrow> (\<forall>v a b. fst (pack v a b) = v \<and> (\<lambda>(_, x, y). sat_mul x y) (pack v a b) = sat_mul a b)"

lemma sat_mul_commute: "sat_mul a b = sat_mul b a"
  by (simp add: sat_mul_def mult.commute)

lemma pack_ok_simps [simp]: "pack_ok pack_fwd" "pack_ok pack_bwd"
  by (simp_all add: pack_ok_def pack_fwd_def pack_bwd_def sat_mul_commute)

definition found ::
    "(nat \<Rightarrow> nat \<Rightarrow> bool) \<Rightarrow> nat \<Rightarrow> nat \<Rightarrow> nat \<Rightarrow> nat \<Rightarrow> nat option \<Rightarrow> (nat \<times> u64 \<times> u64) list \<Rightarrow> bool" where
  "found R s t k m best meeting \<longleftrightarrow>
     (if walks R (k + m) s t = {} then best = None \<and> meeting = []
      else best = Some (k + m) \<and> total_paths meeting = capped (card (walks R (k + m) s t)) \<and>
        fst ` set meeting = {v. dist_is R s v k \<and> dist_is R v t m})"

lemma total_paths_map:
  assumes "pack_ok pack"
  shows "total_paths (map (\<lambda>(u, v). pack v (capped (f u)) (capped (h v))) es) =
    capped (\<Sum>(u, v) \<leftarrow> es. f u * h v)"
proof -
  have eq: "map (\<lambda>(_, fwd_paths, bwd_paths). sat_mul fwd_paths bwd_paths)
      (map (\<lambda>(u, v). pack v (capped (f u)) (capped (h v))) es) =
      map (\<lambda>e. capped (case e of (u, v) \<Rightarrow> f u * h v)) es"
    using assms by (simp add: pack_ok_def split_def sat_mul_capped)
  then show ?thesis
    unfolding total_paths_def eq using sat_sum_capped [of 0 "\<lambda>(u, v). f u * h v" es] by simp
qed

section \<open>One level\<close>

locale id_graph = digraph V R for V :: "nat set" and R :: "nat \<Rightarrow> nat \<Rightarrow> bool"
begin

lemma dist_in: "s \<in> V \<Longrightarrow> dist_is R s v d \<Longrightarrow> v \<in> V"
proof (cases d)
  case (Suc k)
  assume "dist_is R s v d"
  then obtain x where "dist_is R x v 1" using dist_is_layer [of R s v k 1] Suc by auto
  then obtain p where "p \<in> walks R (Suc 0) x v" by (auto simp: dist_is_def)
  then show ?thesis by (auto simp: walks_Suc walks_0 split: if_splits dest: target_in)
qed simp

lemma frontier_row:
  "adj_of adj V R \<Longrightarrow> s \<in> V \<Longrightarrow> side R s k vis cur \<Longrightarrow> u \<in> set cur \<Longrightarrow>
     u < length adj \<and> distinct (adj ! u) \<and> set (adj ! u) = {v. R u v}"
  by (auto simp: adj_of_def dest: side_cur dist_in)

lemma next_layer:
  assumes "side R s k vis cur"
  shows "vis v = None \<and> (\<exists>u. dist_is R s u k \<and> R u v) \<longleftrightarrow> dist_is R s v (Suc k)"
proof
  assume a: "vis v = None \<and> (\<exists>u. dist_is R s u k \<and> R u v)"
  then obtain u where u: "dist_is R s u k" "R u v" by blast
  then have "walks R (Suc k) s v \<noteq> {}" using walks_step by (metis dist_is_def)
  then obtain d where "d \<le> Suc k" "dist_is R s v d" using dist_is_le by meson
  then show "dist_is R s v (Suc k)"
    using a side_None [OF assms, of v] le_Suc_eq by metis
next
  assume d: "dist_is R s v (Suc k)"
  then obtain u where u: "dist_is R s u k" "dist_is R u v 1" using dist_is_layer [of R s v k 1] by auto
  then obtain p where "p \<in> walks R (Suc 0) u v" by (auto simp: dist_is_def)
  then have "R u v" by (auto simp: walks_Suc walks_0 split: if_splits)
  moreover have "vis v = None"
    unfolding side_None [OF assms] using dist_is_unique [OF d] by fastforce
  ultimately show "vis v = None \<and> (\<exists>u. dist_is R s u k \<and> R u v)" using u by blast
qed

lemma frontier_targets:
  assumes "adj_of adj V R" "s \<in> V" "side R s k vis cur"
  shows "set (frontier_edges adj cur) = {(u, v). dist_is R s u k \<and> R u v}"
  using frontier_row [OF assms] side_cur [OF assms(3)] by (fastforce simp: set_frontier_edges)

lemma frontier_sum:
  assumes "adj_of adj V R" "s \<in> V" "side R s k vis cur"
  shows "(\<Sum>(u, v) \<leftarrow> frontier_edges adj cur. f u v) = (\<Sum>u | dist_is R s u k. \<Sum>v | R u v. f u v :: nat)"
proof -
  have "(\<Sum>(u, v) \<leftarrow> frontier_edges adj cur. f u v) = (\<Sum>u \<in> set cur. \<Sum>v \<in> set (adj ! u). f u v)"
    using frontier_row [OF assms] side_cur [OF assms(3)] by (intro sum_frontier_edges) auto
  also have "\<dots> = (\<Sum>u \<in> set cur. \<Sum>v | R u v. f u v)"
    using frontier_row [OF assms] by (intro sum.cong) auto
  finally show ?thesis using side_cur [OF assms(3)] by simp
qed

lemma layer_count:
  assumes "adj_of adj V R" "s \<in> V" "side R s k vis cur" "dist_is R s v (Suc k)"
  shows "(\<Sum>(u, v') \<leftarrow> frontier_edges adj cur. if v' = v then card (walks R k s u) else 0) =
    card (walks R (Suc k) s v)"
proof -
  have "(\<Sum>v' | R u v'. if v' = v then card (walks R k s u) else 0) =
      (if R u v then card (walks R k s u) else 0)" for u
    by (simp add: sum.delta [OF finite_succ])
  moreover have fin: "finite {u. dist_is R s u k}"
    using finite_V by (rule finite_subset [rotated]) (auto intro: dist_in [OF assms(2)])
  moreover have "(\<Sum>u | dist_is R s u k. if R u v then card (walks R k s u) else 0) =
      (\<Sum>u | dist_is R s u k \<and> R u v. card (walks R k s u))"
    using fin by (intro sum.mono_neutral_cong_right) auto
  ultimately show ?thesis
    unfolding frontier_sum [OF assms(1-3)] card_shortest_last [OF assms(2,4)] by simp
qed

lemma level_side:
  assumes "adj_of adj V R" "s \<in> V" "side R s k vis cur"
    and "lv_visited L = vis" "lv_next L = []"
    and "L' = expand_edges pack (Suc k) other (\<lambda>u. capped (card (walks R k s u))) (frontier_edges adj cur) L"
  shows "side R s (Suc k) (lv_visited L') (lv_next L')"
proof -
  have old: "d \<noteq> Suc k" if "lv_visited L v = Some (d, c)" for v d c
    using that side_visited [OF assms(3)] assms(4) by auto
  have edges: "snd ` set (frontier_edges adj cur) = {v. \<exists>u. dist_is R s u k \<and> R u v}"
    unfolding frontier_targets [OF assms(1-3)] by force
  have vis': "lv_visited L' = visits (Suc k) vis (frontier_edges adj cur) (\<lambda>u. card (walks R k s u))"
    unfolding assms(6) assms(4) [symmetric] by (rule expand_edges_visited) (rule old)
  have layer: "vis v = None \<and> v \<in> snd ` set (frontier_edges adj cur) \<longleftrightarrow> dist_is R s v (Suc k)" for v
    unfolding edges using next_layer [OF assms(3)] by simp
  have "lv_visited L' v = Some (d, c) \<longleftrightarrow>
      d \<le> Suc k \<and> dist_is R s v d \<and> c = capped (card (walks R d s v))" for v d c
  proof (cases "dist_is R s v (Suc k)")
    case True
    then have "lv_visited L' v = Some (Suc k, capped (card (walks R (Suc k) s v)))"
      using layer [of v] layer_count [OF assms(1-3) True] by (simp add: vis' visits_def)
    moreover have "d = Suc k" if "dist_is R s v d" using that True by (rule dist_is_unique)
    ultimately show ?thesis using True by auto
  next
    case False
    then have "lv_visited L' v = vis v"
      using layer [of v] by (auto simp: vis' visits_def split: option.split)
    then show ?thesis using side_visited [OF assms(3)] False le_Suc_eq by metis
  qed
  moreover have "distinct (lv_next L') \<and> set (lv_next L') = {v. dist_is R s v (Suc k)}"
    unfolding assms(6) using expand_edges_next [of L "Suc k"] old assms(5) layer by (simp add: assms(4))
  ultimately show ?thesis unfolding side_def by blast
qed

lemma meets_filtered:
  assumes "adj_of adj V R" "s \<in> V" "side R s k vis cur" "side (\<lambda>x y. R y x) t m other ocur"
    and "\<And>i. i \<le> k + m \<Longrightarrow> walks R i s t = {}"
  shows "(u, v) \<in> set (frontier_edges adj cur) \<Longrightarrow> other v = Some (d, c) \<Longrightarrow> d = m"
    and "meets pack other (\<lambda>u. capped (card (walks R k s u))) (frontier_edges adj cur) =
      map (\<lambda>(u, v). pack v (capped (card (walks R k s u))) (capped (card (walks R m v t))))
        (filter (\<lambda>(u, v). dist_is R v t m) (frontier_edges adj cur))"
proof -
  have other: "other v = Some (d, c) \<longleftrightarrow> d \<le> m \<and> dist_is R v t d \<and> c = capped (card (walks R d v t))" for v d c
    using side_visited [OF assms(4)] by (simp add: dist_is_rev [of R] card_walks_rev [of R])
  have d: "d = m" if "(u, v) \<in> set (frontier_edges adj cur)" "other v = Some (d, c)" for u v d c
  proof -
    have "dist_is R s u k" "R u v" "dist_is R v t d" "d \<le> m"
      using that frontier_targets [OF assms(1-3)] other by auto
    then have "walks R (Suc k) s v \<noteq> {}" "walks R d v t \<noteq> {}"
      using walks_step by (metis dist_is_def)+
    then have "walks R (Suc k + d) s t \<noteq> {}" using walks_append by fastforce
    then have "\<not> Suc k + d \<le> k + m" using assms(5) by blast
    then show ?thesis using \<open>d \<le> m\<close> by simp
  qed
  then show "(u, v) \<in> set (frontier_edges adj cur) \<Longrightarrow> other v = Some (d, c) \<Longrightarrow> d = m" by blast
  have some: "other v = (if dist_is R v t m then Some (m, capped (card (walks R m v t))) else None)"
    if "(u, v) \<in> set (frontier_edges adj cur)" for u v
  proof (cases "other v")
    case None
    then show ?thesis using other [of v m "capped (card (walks R m v t))"] by auto
  next
    case (Some x)
    then show ?thesis using other [of v] d [OF that] by (cases x) auto
  qed
  have "filter (\<lambda>(u, v). other v \<noteq> None) (frontier_edges adj cur) =
      filter (\<lambda>(u, v). dist_is R v t m) (frontier_edges adj cur)"
    by (rule filter_cong) (auto simp: some split: if_splits)
  then show "meets pack other (\<lambda>u. capped (card (walks R k s u))) (frontier_edges adj cur) =
      map (\<lambda>(u, v). pack v (capped (card (walks R k s u))) (capped (card (walks R m v t))))
        (filter (\<lambda>(u, v). dist_is R v t m) (frontier_edges adj cur))"
    unfolding meets_def by (intro map_cong) (auto simp: some)
qed

lemma sum_list_filter_if: "(\<Sum>e \<leftarrow> filter P es. f e) = (\<Sum>e \<leftarrow> es. if P e then f e else (0 :: nat))"
  by (induction es) auto

lemma level_found:
  assumes "adj_of adj V R" "s \<in> V" "side R s k vis cur" "side (\<lambda>x y. R y x) t m other ocur"
    and none: "\<And>i. i \<le> k + m \<Longrightarrow> walks R i s t = {}"
    and "pack_ok pack" "lv_best L = None" "lv_meeting L = []"
    and "L' = expand_edges pack (Suc k) other (\<lambda>u. capped (card (walks R k s u))) (frontier_edges adj cur) L"
  shows "found R s t (Suc k) m (lv_best L') (lv_meeting L')"
proof -
  note mf = meets_filtered [OF assms(1-5)]
  define es where "es = filter (\<lambda>(u, v). dist_is R v t m) (frontier_edges adj cur)"
  define ms where "ms = map (\<lambda>(u, v). pack v (capped (card (walks R k s u))) (capped (card (walks R m v t)))) es"
  have L': "lv_meeting L' = ms" "lv_best L' = (if ms = [] then None else Some (Suc k + m))"
    using expand_edges_meets [OF mf(1) assms(7,8)] mf(2) unfolding assms(9) ms_def es_def by auto
  have es: "set es = {(u, v). dist_is R s u k \<and> R u v \<and> dist_is R v t m}"
    unfolding es_def using frontier_targets [OF assms(1-3)] by auto
  show ?thesis
  proof (cases "walks R (Suc k + m) s t = {}")
    case True
    have "set es = {}"
    proof (rule equals0I)
      fix e assume "e \<in> set es"
      then obtain u v where "dist_is R s u k" "R u v" "dist_is R v t m" unfolding es by auto
      then have "walks R (Suc k) s v \<noteq> {}" "walks R m v t \<noteq> {}"
        using walks_step by (metis dist_is_def)+
      then show False using True walks_append by fastforce
    qed
    then show ?thesis using True L' by (simp add: found_def ms_def)
  next
    case False
    then have d: "dist_is R s t (Suc k + m)" using none by (auto simp: dist_is_def less_Suc_eq_le)
    have layer: "fst ` set ms = {v. dist_is R s v (Suc k) \<and> dist_is R v t m}"
    proof -
      have "fst ` set ms = snd ` set es"
        using assms(6) unfolding ms_def by (simp add: pack_ok_def image_image split_def)
      also have "\<dots> = {v. (\<exists>u. dist_is R s u k \<and> R u v) \<and> dist_is R v t m}"
        unfolding es by force
      also have "\<dots> = {v. dist_is R s v (Suc k) \<and> dist_is R v t m}"
      proof (intro Collect_cong iffI conjI; elim conjE)
        fix v assume u: "\<exists>u. dist_is R s u k \<and> R u v" and v: "dist_is R v t m"
        then have "walks R (Suc k) s v \<noteq> {}" "walks R m v t \<noteq> {}"
          using walks_step by (metis dist_is_def)+
        then show "dist_is R s v (Suc k)" using d by (rule dist_is_split(1) [rotated])
      next
        fix v assume "dist_is R s v (Suc k)"
        then show "\<exists>u. dist_is R s u k \<and> R u v" using next_layer [OF assms(3)] by blast
      qed
      finally show ?thesis .
    qed
    obtain v where "dist_is R s v (Suc k)" "dist_is R v t m" using d by (rule dist_is_layer)
    then have "ms \<noteq> []" using layer by auto
    moreover have "total_paths ms = capped (card (walks R (Suc k + m) s t))"
    proof -
      have dv: "{x. dist_is R s x k \<and> x \<in> V} = {x. dist_is R s x k}"
        using dist_in [OF assms(2)] by blast
      have "total_paths ms = capped (\<Sum>(u, v) \<leftarrow> es. card (walks R k s u) * card (walks R m v t))"
        unfolding ms_def by (rule total_paths_map [OF assms(6)])
      also have "(\<Sum>(u, v) \<leftarrow> es. card (walks R k s u) * card (walks R m v t)) =
          (\<Sum>(u, v) \<leftarrow> frontier_edges adj cur. if dist_is R v t m then card (walks R k s u) * card (walks R m v t) else 0)"
        unfolding es_def sum_list_filter_if by (intro arg_cong [where f = sum_list] map_cong) auto
      also have "\<dots> = (\<Sum>u | dist_is R s u k. \<Sum>v | R u v. if dist_is R v t m then card (walks R k s u) * card (walks R m v t) else 0)"
        by (rule frontier_sum [OF assms(1-3)])
      also have "\<dots> = (\<Sum>u | dist_is R s u k. \<Sum>v | R u v \<and> dist_is R v t m. card (walks R k s u) * card (walks R m v t))"
        using finite_succ by (intro sum.cong refl sum.mono_neutral_cong_right) auto
      also have "\<dots> = card (walks R (Suc (k + m)) s t)"
        using card_shortest_edges [OF assms(2), of t k m] d by (simp add: dv)
      finally show ?thesis by simp
    qed
    ultimately show ?thesis
      using False L' layer unfolding found_def by auto
  qed
qed

end

lemma found_rev: "found (\<lambda>x y. R y x) t s m k best meeting \<longleftrightarrow> found R s t k m best meeting"
  unfolding found_def dist_is_rev [of R] card_walks_rev [of R]
  by (simp add: walks_rev [of R] add.commute conj_commute)

section \<open>The loop\<close>

definition searching ::
    "(nat \<Rightarrow> nat \<Rightarrow> bool) \<Rightarrow> nat \<Rightarrow> nat \<Rightarrow> nat \<Rightarrow> bfs_search \<Rightarrow> bool" where
  "searching R s t max_hops q \<longleftrightarrow>
     side R s (fwd_dist q) (fwd_visited q) (fwd_current q) \<and>
     side (\<lambda>x y. R y x) t (bwd_dist q) (bwd_visited q) (bwd_current q) \<and>
     fwd_next q = [] \<and> bwd_next q = [] \<and> bridge_set q = {} \<and> bridge_ids q = [] \<and>
     (\<forall>i < fwd_dist q + bwd_dist q. walks R i s t = {}) \<and>
     found R s t (fwd_dist q) (bwd_dist q) (best_distance q) (meeting_nodes q) \<and>
     depths R s t (fwd_dist q + bwd_dist q) = (fwd_dist q, bwd_dist q) \<and>
     fwd_dist q + bwd_dist q \<le> max_hops"

lemma searching_start: "s \<noteq> t \<Longrightarrow> searching R s t max_hops (start_search (bfs_clear scratch) s t)"
  by (simp add: searching_def start_search_def bfs_clear_def bfs_state.defs bfs_search.defs side_start
      found_def walks_0)

lemma searching_open:
  assumes "searching R s t max_hops q" "keep_searching max_hops q"
  shows "best_distance q = None" "meeting_nodes q = []"
    "\<And>i. i \<le> fwd_dist q + bwd_dist q \<Longrightarrow> walks R i s t = {}"
proof -
  have "walks R (fwd_dist q + bwd_dist q) s t = {}"
    using assms by (auto simp: searching_def keep_searching_def found_def split: if_splits)
  then show "best_distance q = None" "meeting_nodes q = []"
    "\<And>i. i \<le> fwd_dist q + bwd_dist q \<Longrightarrow> walks R i s t = {}"
    using assms(1) by (auto simp: searching_def found_def le_less)
qed

text \<open>The frontiers are the outermost layers, so the code makes the choice of \<open>depths\<close>.\<close>

lemma searching_depths:
  assumes "searching R s t max_hops q" "keep_searching max_hops q"
  shows "depths R s t (Suc (fwd_dist q + bwd_dist q)) =
    (if expand_forward (fwd_current q) (bwd_current q) then (Suc (fwd_dist q), bwd_dist q) else (fwd_dist q, Suc (bwd_dist q)))"
proof -
  have f: "side R s (fwd_dist q) (fwd_visited q) (fwd_current q)"
    and b: "side (\<lambda>x y. R y x) t (bwd_dist q) (bwd_visited q) (bwd_current q)"
    and d: "depths R s t (fwd_dist q + bwd_dist q) = (fwd_dist q, bwd_dist q)"
    using assms(1) by (simp_all add: searching_def)
  have "card {v. dist_is R s v (fwd_dist q)} = length (fwd_current q)"
    using side_cur [OF f] distinct_card [of "fwd_current q"] by simp
  moreover have "card {v. dist_is R v t (bwd_dist q)} = length (bwd_current q)"
    using side_cur [OF b] distinct_card [of "bwd_current q"] by (simp add: dist_is_rev [of R])
  ultimately show ?thesis using assms(2) by (simp add: d expand_forward_def keep_searching_def)
qed

context id_graph
begin

lemma id_graph_rev: "id_graph V (\<lambda>x y. R y x)"
  by unfold_locales (auto intro: finite_V source_in target_in)

lemma frontier_known:
  assumes "adj_of adj V R" "s \<in> V" "side R s k vis cur" "lv_visited L = vis"
  shows "expand_nodes pack (Suc k) other adj cur L =
    Some (expand_edges pack (Suc k) other (\<lambda>u. capped (card (walks R k s u))) (frontier_edges adj cur) L)"
proof (rule expand_nodes_edges)
  fix u assume "u \<in> set cur"
  then have "lv_visited L u = Some (k, capped (card (walks R k s u)))"
    using side_visited [OF assms(3)] side_cur [OF assms(3)] assms(4) by simp
  then show "u < length adj \<and> (\<exists>j. lv_visited L u = Some (j, capped (card (walks R k s u))) \<and> j \<noteq> Suc k)"
    using frontier_row [OF assms(1-3) \<open>u \<in> set cur\<close>] by simp
qed

lemma searching_fwd:
  assumes "adj_of out V R" "s \<in> V" "searching R s t max_hops q" "keep_searching max_hops q"
    and "expand_forward (fwd_current q) (bwd_current q)"
  shows "\<exists>q'. expand_fwd out q = Some q' \<and> searching R s t max_hops q'"
proof -
  let ?k = "fwd_dist q" and ?m = "bwd_dist q"
  note op = searching_open [OF assms(3,4)]
  have f: "side R s ?k (fwd_visited q) (fwd_current q)"
    and b: "side (\<lambda>x y. R y x) t ?m (bwd_visited q) (bwd_current q)"
    and nx: "fwd_next q = []" using assms(3) by (simp_all add: searching_def)
  define L where "L = \<lparr>lv_visited = fwd_visited q, lv_next = [], lv_best = None, lv_meeting = []\<rparr>"
  define L' where "L' = expand_edges pack_fwd (Suc ?k) (bwd_visited q)
      (\<lambda>u. capped (card (walks R ?k s u))) (frontier_edges out (fwd_current q)) L"
  have L: "lv_visited L = fwd_visited q" "lv_next L = []" "lv_best L = None" "lv_meeting L = []"
    by (simp_all add: L_def)
  have "expand_fwd out q = Some (q\<lparr>fwd_dist := Suc ?k, fwd_visited := lv_visited L', fwd_current := lv_next L',
      fwd_next := [], best_distance := lv_best L', meeting_nodes := lv_meeting L'\<rparr>)"
    using frontier_known [OF assms(1,2) f L(1), of pack_fwd "bwd_visited q"]
    by (simp add: expand_fwd_def Let_def L_def L'_def op(1,2) nx)
  moreover have "side R s (Suc ?k) (lv_visited L') (lv_next L')"
    by (rule level_side [OF assms(1,2) f L(1,2) L'_def])
  moreover have "found R s t (Suc ?k) ?m (lv_best L') (lv_meeting L')"
    by (rule level_found [OF assms(1,2) f b op(3) _ L(3,4) L'_def]) simp_all
  moreover have "Suc (?k + ?m) \<le> max_hops" using assms(4) by (simp add: keep_searching_def)
  moreover have "depths R s t (Suc (?k + ?m)) = (Suc ?k, ?m)"
    using searching_depths [OF assms(3,4)] assms(5) by simp
  ultimately show ?thesis
    using assms(3) op(3) by (simp add: searching_def less_Suc_eq_le del: depths.simps)
qed

lemma searching_bwd:
  assumes "adj_of inn V (\<lambda>x y. R y x)" "t \<in> V" "searching R s t max_hops q" "keep_searching max_hops q"
    and "\<not> expand_forward (fwd_current q) (bwd_current q)"
  shows "\<exists>q'. expand_bwd inn q = Some q' \<and> searching R s t max_hops q'"
proof -
  let ?k = "fwd_dist q" and ?m = "bwd_dist q"
  let ?R' = "\<lambda>x y. R y x"
  note op = searching_open [OF assms(3,4)]
  have f: "side R s ?k (fwd_visited q) (fwd_current q)" and b: "side ?R' t ?m (bwd_visited q) (bwd_current q)"
    and nx: "bwd_next q = []" using assms(3) by (simp_all add: searching_def)
  have none: "walks ?R' i t s = {}" if "i \<le> ?m + ?k" for i
    using op(3) [of i] that by (simp add: walks_rev [of R])
  define L where "L = \<lparr>lv_visited = bwd_visited q, lv_next = [], lv_best = None, lv_meeting = []\<rparr>"
  define L' where "L' = expand_edges pack_bwd (Suc ?m) (fwd_visited q)
      (\<lambda>u. capped (card (walks ?R' ?m t u))) (frontier_edges inn (bwd_current q)) L"
  have L: "lv_visited L = bwd_visited q" "lv_next L = []" "lv_best L = None" "lv_meeting L = []"
    by (simp_all add: L_def)
  have "expand_bwd inn q = Some (q\<lparr>bwd_dist := Suc ?m, bwd_visited := lv_visited L', bwd_current := lv_next L',
      bwd_next := [], best_distance := lv_best L', meeting_nodes := lv_meeting L'\<rparr>)"
    using id_graph.frontier_known [OF id_graph_rev assms(1,2) b L(1), of pack_bwd "fwd_visited q"]
    by (simp add: expand_bwd_def Let_def L_def L'_def op(1,2) nx)
  moreover have "side ?R' t (Suc ?m) (lv_visited L') (lv_next L')"
    by (rule id_graph.level_side [OF id_graph_rev assms(1,2) b L(1,2) L'_def])
  moreover have "found ?R' t s (Suc ?m) ?k (lv_best L') (lv_meeting L')"
    by (rule id_graph.level_found [OF id_graph_rev assms(1,2) b f none _ L(3,4) L'_def]) simp_all
  then have "found R s t ?k (Suc ?m) (lv_best L') (lv_meeting L')"
    by (simp only: found_rev [of R])
  moreover have "Suc (?k + ?m) \<le> max_hops" using assms(4) by (simp add: keep_searching_def)
  moreover have "depths R s t (Suc (?k + ?m)) = (?k, Suc ?m)"
    using searching_depths [OF assms(3,4)] assms(5) by simp
  ultimately show ?thesis
    using assms(3) op(3) by (simp add: searching_def less_Suc_eq_le add.commute del: depths.simps)
qed

lemma bfs_loop_ok:
  assumes "adj_of out V R" "adj_of inn V (\<lambda>x y. R y x)" "s \<in> V" "t \<in> V" "searching R s t max_hops q"
  shows "\<exists>q'. bfs_loop out inn max_hops q = Some q' \<and> searching R s t max_hops q' \<and> \<not> keep_searching max_hops q'"
  using assms(5)
proof (induction "max_hops - (fwd_dist q + bwd_dist q)" arbitrary: q rule: less_induct)
  case less
  show ?case
  proof (cases "keep_searching max_hops q")
    case True
    then obtain q' where q': "expand out inn q = Some q'" "searching R s t max_hops q'"
      using searching_fwd [OF assms(1,3) less.prems True] searching_bwd [OF assms(2,4) less.prems True]
      unfolding expand_def by metis
    have "max_hops - (fwd_dist q' + bwd_dist q') < max_hops - (fwd_dist q + bwd_dist q)"
      using expand_dist [OF q'(1)] True unfolding keep_searching_def by linarith
    from less.hyps [OF this q'(2)] show ?thesis
      using True q'(1) by (subst bfs_loop.simps) simp
  next
    case False
    then show ?thesis using less.prems by (subst bfs_loop.simps) simp
  qed
qed

lemma searching_done:
  assumes "searching R s t max_hops q" "\<not> keep_searching max_hops q"
  shows "(case best_distance q of
      Some d \<Rightarrow> d \<le> max_hops \<and> dist_is R s t d \<and> total_paths (meeting_nodes q) = capped (card (walks R d s t)) \<and>
        fst ` set (meeting_nodes q) = meeting_layer R s t d
    | None \<Rightarrow> \<forall>d\<le>max_hops. \<not> dist_is R s t d)"
proof (cases "walks R (fwd_dist q + bwd_dist q) s t = {}")
  case False
  then have "best_distance q = Some (fwd_dist q + bwd_dist q)" "dist_is R s t (fwd_dist q + bwd_dist q)"
    using assms(1) by (auto simp: searching_def found_def dist_is_def)
  then show ?thesis using assms(1) False by (simp add: searching_def found_def meeting_layer_def)
next
  case True
  have best: "best_distance q = None" using True assms(1) by (simp add: searching_def found_def)
  have none: "walks R i s t = {}" if "i \<le> fwd_dist q + bwd_dist q" for i
    using True assms(1) that by (auto simp: searching_def le_less)
  have "fwd_current q = [] \<or> bwd_current q = [] \<or> max_hops \<le> fwd_dist q + bwd_dist q"
    using assms best unfolding keep_searching_def by force
  then have "(\<forall>v. \<not> dist_is R s v (fwd_dist q)) \<or> (\<forall>v. \<not> dist_is R v t (bwd_dist q)) \<or>
      max_hops \<le> fwd_dist q + bwd_dist q"
    using assms(1) unfolding searching_def side_def dist_is_rev [of R] by force
  then have "\<not> dist_is R s t d" if "d \<le> max_hops" for d
    using exhausted [OF none] that by blast
  then show ?thesis by (simp add: best)
qed

end

interpretation id_fwd: id_graph "{..<length out}" "edge out" for out :: "nat list list"
  by unfold_locales

end
