(* ===== verification/DistanceSpec.thy ===== *)
theory DistanceSpec
  imports BfsCorrect GraphUpdate
begin

text \<open>
  The contract of \<open>compute_distance\<close>, stated on pubkeys: with \<open>follow_edge g a b\<close> for
  ``the stored list of \<open>a\<close> names \<open>b\<close>'', the result carries the length of a shortest
  chain of follows within the hop limit, the saturated number of those chains, the pubkeys of the
  layer of them where the two searches meet, and whether both ends follow each other. Nothing of it depends on what an earlier
  query left in the scratch state, and no vector or map is indexed out of range.
\<close>

section \<open>The follow relation of a graph\<close>

definition follow_edge :: "wot_graph \<Rightarrow> string \<Rightarrow> string \<Rightarrow> bool" where
  "follow_edge g a b \<longleftrightarrow> b \<in> snd (follow_cell g a)"

lemma graph_adj:
  assumes "graph_wf g"
  shows "adj_of (follows g) {..<node_count g} (edge (follows g))"
    "adj_of (followers g) {..<node_count g} (\<lambda>x y. edge (follows g) y x)"
  using graph_wf_ids [OF assms] graph_wf_lengths [OF assms]
  by (auto simp: adj_of_def edge_def increasing_distinct)

lemma graph_id_graph: "graph_wf g \<Longrightarrow> id_graph {..<node_count g} (edge (follows g))"
  using id_fwd.id_graph_axioms [of "follows g"] by (simp add: graph_wf_lengths)

lemma edge_in: "graph_wf g \<Longrightarrow> edge (follows g) i j \<Longrightarrow> j < node_count g"
  by (simp add: edge_def graph_wf_lengths)

lemma follow_targets:
  assumes g: "graph_wf g" and i: "i < node_count g"
  shows "{y. follow_edge g (name_of g i) y} = name_of g ` {j. edge (follows g) i j}"
proof -
  have "pubkey_to_id g (name_of g i) = Some i"
    using names_wf_iff [of g "name_of g i" i] g i by (simp add: name_of_def)
  then have "{y. follow_edge g (name_of g i) y} = name_of g ` set (follows g ! i)"
    by (simp add: follow_edge_def follow_cell_def)
  moreover have "set (follows g ! i) = {j. edge (follows g) i j}"
    using graph_wf_ids(2) [OF g i] i by (auto simp: edge_def graph_wf_lengths [OF g])
  ultimately show ?thesis by simp
qed

lemma follow_edge_known: "graph_wf g \<Longrightarrow> follow_edge g a b \<Longrightarrow> pubkey_to_id g a \<noteq> None \<and> pubkey_to_id g b \<noteq> None"
proof -
  assume g: "graph_wf g" and e: "follow_edge g a b"
  then obtain i where i: "pubkey_to_id g a = Some i" "b \<in> name_of g ` set (follows g ! i)"
    by (auto simp: follow_edge_def follow_cell_def split: option.splits)
  then obtain j where "j < node_count g" "b = name_of g j"
    using graph_wf_ids(2) [OF g, of i] names_wf_iff [of g a i] g by auto
  then show ?thesis using i names_wf_iff [of g b j] g by (simp add: name_of_def)
qed

lemma follow_walks:
  assumes "graph_wf g" "pubkey_to_id g a = Some i" "pubkey_to_id g b = Some j"
  shows "card (walks (follow_edge g) k a b) = card (walks (edge (follows g)) k i j)"
    "dist_is (follow_edge g) a b d \<longleftrightarrow> dist_is (edge (follows g)) i j d"
    "follow_edge g a b \<longleftrightarrow> edge (follows g) i j"
proof -
  have ij: "i < node_count g" "j < node_count g" "name_of g i = a" "name_of g j = b"
    using assms names_wf_iff [of g] by (auto simp: name_of_def)
  note im = walks_image_card [of "name_of g" "{..<node_count g}" "edge (follows g)" "follow_edge g" i j]
  note inj = name_of_inj [OF graph_wf_names [OF assms(1)]]
  show "card (walks (follow_edge g) k a b) = card (walks (edge (follows g)) k i j)"
    "dist_is (follow_edge g) a b d \<longleftrightarrow> dist_is (edge (follows g)) i j d"
    using im inj edge_in [OF assms(1)] follow_targets [OF assms(1)] ij by auto
  have "follow_edge g a b \<longleftrightarrow> name_of g j \<in> name_of g ` {j. edge (follows g) i j}"
    using follow_targets [OF assms(1) ij(1)] ij(3,4) by auto
  also have "\<dots> \<longleftrightarrow> edge (follows g) i j"
    using inj_on_image_mem_iff [OF inj, of j "{j. edge (follows g) i j}"] ij(2) edge_in [OF assms(1)] by auto
  finally show "follow_edge g a b \<longleftrightarrow> edge (follows g) i j" .
qed

lemma unknown_unreachable:
  assumes "graph_wf g" "a \<noteq> b" "pubkey_to_id g a = None \<or> pubkey_to_id g b = None"
  shows "\<not> dist_is (follow_edge g) a b d" "\<not> follow_edge g a b"
proof -
  show "\<not> follow_edge g a b" using follow_edge_known [OF assms(1)] assms(3) by blast
  show "\<not> dist_is (follow_edge g) a b d"
  proof (cases d)
    case (Suc k)
    then show ?thesis
      using dist_is_pos [of "follow_edge g" a b k] follow_edge_known [OF assms(1)] assms(3) by blast
  qed (use assms(2) in simp)
qed

text \<open>What can be reached from or reaches a known name is known.\<close>

lemma follow_near_known:
  assumes g: "graph_wf g" and a: "pubkey_to_id g a = Some i"
    and near: "dist_is (follow_edge g) a x k \<or> dist_is (follow_edge g) x a k"
  shows "\<exists>v. pubkey_to_id g x = Some v \<and> x = name_of g v"
proof -
  have "pubkey_to_id g x \<noteq> None"
  proof (cases k)
    case 0
    then show ?thesis using near a by auto
  next
    case (Suc n)
    then show ?thesis
      using near dist_is_pos [of "follow_edge g" a x n] dist_is_pos [of "follow_edge g" x a n] follow_edge_known [OF g] by metis
  qed
  then show ?thesis using name_of_id [of g x] g by auto
qed

lemma edge_near_in:
  assumes g: "graph_wf g" and i: "i < node_count g"
    and near: "dist_is (edge (follows g)) i v k \<or> dist_is (edge (follows g)) v i k"
  shows "v < node_count g" "pubkey_to_id g (name_of g v) = Some v"
proof -
  have e: "x < node_count g \<and> y < node_count g" if "edge (follows g) x y" for x y
    using that graph_wf_lengths [OF g] by (simp add: edge_def)
  show v: "v < node_count g"
  proof (cases k)
    case 0
    then show ?thesis using near i by auto
  next
    case (Suc n)
    then show ?thesis
      using near dist_is_pos [of "edge (follows g)" i v n] dist_is_pos [of "edge (follows g)" v i n] e by metis
  qed
  show "pubkey_to_id g (name_of g v) = Some v"
    using names_wf_iff [of g "name_of g v" v] g v by (simp add: name_of_def)
qed

lemma follow_spheres:
  assumes g: "graph_wf g" and i: "pubkey_to_id g a = Some i" and j: "pubkey_to_id g b = Some j"
  shows "{x. dist_is (follow_edge g) a x k \<and> dist_is (follow_edge g) x b m} =
      name_of g ` {v. dist_is (edge (follows g)) i v k \<and> dist_is (edge (follows g)) v j m}"
    "{x. dist_is (follow_edge g) a x k} = name_of g ` {v. dist_is (edge (follows g)) i v k}"
    "{x. dist_is (follow_edge g) x b m} = name_of g ` {v. dist_is (edge (follows g)) v j m}"
proof -
  let ?R = "edge (follows g)" and ?N = "follow_edge g"
  have ij: "i < node_count g" "j < node_count g" using i j g names_wf_iff by auto
  have id: "\<exists>v. pubkey_to_id g x = Some v \<and> x = name_of g v" if "dist_is ?N a x k \<or> dist_is ?N x b m" for x
    using that follow_near_known [OF g i] follow_near_known [OF g j] by blast
  have known: "pubkey_to_id g (name_of g v) = Some v" if "dist_is ?R i v k \<or> dist_is ?R v j m" for v
    using that edge_near_in(2) [OF g ij(1)] edge_near_in(2) [OF g ij(2)] by blast
  note W = follow_walks(2) [OF g i] follow_walks(2) [OF g _ j]
  show "{x. dist_is ?N a x k \<and> dist_is ?N x b m} = name_of g ` {v. dist_is ?R i v k \<and> dist_is ?R v j m}"
    using id known W by (fastforce simp: image_iff)
  show "{x. dist_is ?N a x k} = name_of g ` {v. dist_is ?R i v k}"
    using id known W(1) by (fastforce simp: image_iff)
  show "{x. dist_is ?N x b m} = name_of g ` {v. dist_is ?R v j m}"
    using id known W(2) by (fastforce simp: image_iff)
qed

lemma follow_meeting:
  assumes g: "graph_wf g" and i: "pubkey_to_id g a = Some i" and j: "pubkey_to_id g b = Some j"
  shows "meeting_layer (follow_edge g) a b d = name_of g ` meeting_layer (edge (follows g)) i j d"
proof -
  let ?R = "edge (follows g)" and ?N = "follow_edge g"
  have ij: "i < node_count g" "j < node_count g" using i j g names_wf_iff by auto
  have "{v. dist_is ?R i v k} \<subseteq> {..<node_count g}" "{v. dist_is ?R v j k} \<subseteq> {..<node_count g}" for k
    using edge_near_in(1) [OF g ij(1)] edge_near_in(1) [OF g ij(2)] by auto
  then have inj: "inj_on (name_of g) {v. dist_is ?R i v k}" "inj_on (name_of g) {v. dist_is ?R v j k}" for k
    using inj_on_subset [OF name_of_inj [OF graph_wf_names [OF g]]] by blast+
  have "depths ?N a b n = depths ?R i j n" for n
    by (induction n) (simp_all add: follow_spheres(2,3) [OF g i j] card_image inj split: prod.split)
  then show ?thesis
    using follow_spheres(1) [OF g i j] by (simp add: meeting_layer_def split: prod.split)
qed

lemma is_direct_edge:
  assumes "graph_wf g" "i < node_count g" "j < node_count g"
  shows "is_direct (follows g) i j \<longleftrightarrow> edge (follows g) i j"
  using assms binary_search_mem [OF graph_wf_ids(1) [OF assms(1,2)], of j]
  by (simp add: is_direct_def edge_def graph_wf_lengths)

section \<open>The search between two ids\<close>

lemma collect_bridges_ok:
  "collect_bridges i j ms (set ids, ids) = (seen, ids') \<Longrightarrow> distinct ids \<Longrightarrow>
     distinct ids' \<and> set ids' = set ids \<union> (fst ` set ms - {i, j})"
proof (induction ms arbitrary: ids)
  case (Cons m ms)
  obtain v x y where m: "m = (v, x, y)" by (cases m)
  show ?case
  proof (cases "v \<noteq> i \<and> v \<noteq> j \<and> v \<notin> set ids")
    case True
    then have "collect_bridges i j ms (set (ids @ [v]), ids @ [v]) = (seen, ids')"
      using Cons.prems m by simp
    then show ?thesis using Cons.IH [of "ids @ [v]"] Cons.prems(2) True m by auto
  next
    case False
    then have "collect_bridges i j ms (set ids, ids) = (seen, ids')"
      using Cons.prems m by (auto split: if_splits)
    then show ?thesis using Cons.IH [of ids] Cons.prems(2) False m by auto
  qed
qed simp

definition answers ::
    "(nat \<Rightarrow> nat \<Rightarrow> bool) \<Rightarrow> (nat \<Rightarrow> string) \<Rightarrow> nat \<Rightarrow> nat \<Rightarrow> nat \<Rightarrow> bool \<Rightarrow> bool \<Rightarrow> distance_result \<Rightarrow> bool" where
  "answers R f i j max_hops include_bridges mutual r \<longleftrightarrow>
     dr_from r = f i \<and> dr_to r = f j \<and>
     (case hops r of
        None \<Rightarrow> (\<forall>d\<le>max_hops. \<not> dist_is R i j d) \<and> path_count r = 0 \<and> \<not> mutual_follow r \<and> bridges r = None
      | Some d \<Rightarrow> d \<le> max_hops \<and> dist_is R i j d \<and> path_count r = capped (card (walks R d i j)) \<and>
          mutual_follow r = mutual \<and>
          (if include_bridges then \<exists>ids. bridges r = Some (map f ids) \<and> distinct ids \<and>
             set ids = meeting_layer R i j d - {i, j}
           else bridges r = None))"

lemma bidirectional_ok:
  assumes g: "graph_wf g" and ij: "i < node_count g" "j < node_count g" "i \<noteq> j"
  shows "\<exists>r st. bidirectional_bfs (bfs_clear scratch) (follows g) (followers g) i j max_hops include_bridges
      mutual (name_of g i) (name_of g j) g = Some (r, st) \<and>
    answers (edge (follows g)) (name_of g) i j max_hops include_bridges mutual r"
proof -
  let ?R = "edge (follows g)"
  note G = graph_id_graph [OF g]
  obtain q where q: "bfs_loop (follows g) (followers g) max_hops (start_search (bfs_clear scratch) i j) = Some q"
    "searching ?R i j max_hops q" "\<not> keep_searching max_hops q"
    using id_graph.bfs_loop_ok [OF G graph_adj [OF g] _ _ searching_start [OF ij(3)]] ij(1,2) by auto
  let ?r = "finish_search g i j max_hops include_bridges mutual (name_of g i) (name_of g j) q"
  note fin = id_graph.searching_done [OF G q(2,3)]
  have "answers ?R (name_of g) i j max_hops include_bridges mutual (fst ?r)"
  proof (cases "best_distance q")
    case None
    then show ?thesis using fin by (simp add: finish_search_def answers_def not_found_def)
  next
    case (Some d)
    then have d: "d \<le> max_hops" "dist_is ?R i j d" and l: "fst ` set (meeting_nodes q) = meeting_layer ?R i j d"
      and count: "total_paths (meeting_nodes q) = capped (card (walks ?R d i j))"
      using fin by simp_all
    obtain seen ids where c: "collect_bridges i j (meeting_nodes q) ({}, []) = (seen, ids)"
      by (cases "collect_bridges i j (meeting_nodes q) ({}, [])")
    have ids: "distinct ids" "set ids = meeting_layer ?R i j d - {i, j}"
      using collect_bridges_ok [of i j "meeting_nodes q" "[]"] c l by auto
    have "set ids \<subseteq> {..<node_count g}"
      using ids(2) id_graph.dist_in [OF G, of i] ij(1) by (auto simp: meeting_layer_def split: prod.splits)
    then have names: "resolve_pubkeys_arc g ids = map (name_of g) ids" by (rule resolve_names)
    have start: "bridge_set q = {}" "bridge_ids q = []" using q(2) by (simp_all add: searching_def)
    show ?thesis
      using Some d count ids names
      by (auto simp: finish_search_def answers_def start c Let_def)
  qed
  then show ?thesis using q(1) by (simp add: bidirectional_bfs_def) (metis prod.collapse)
qed

section \<open>The query\<close>

definition distance_ok :: "wot_graph \<Rightarrow> distance_query \<Rightarrow> distance_result \<Rightarrow> bool" where
  "distance_ok g q r \<longleftrightarrow>
     (let R = follow_edge g; a = dq_from q; b = dq_to q; max_hops = unat (dq_max_hops q) in
     dr_from r = a \<and> dr_to r = b \<and>
     (case hops r of
        None \<Rightarrow> (\<forall>d\<le>max_hops. \<not> dist_is R a b d) \<and> path_count r = 0 \<and> bridges r = None
      | Some d \<Rightarrow> d \<le> max_hops \<and> dist_is R a b d \<and> path_count r = capped (card (walks R d a b)) \<and>
          (if dq_include_bridges q \<and> a \<noteq> b
           then \<exists>bs. bridges r = Some bs \<and> distinct bs \<and> set bs = meeting_layer R a b d - {a, b}
           else bridges r = None)) \<and>
     (mutual_follow r \<longleftrightarrow> a \<noteq> b \<and> 0 < max_hops \<and> R a b \<and> R b a))"

lemma answers_distance_ok:
  assumes g: "graph_wf g" and i: "pubkey_to_id g (dq_from q) = Some i" and j: "pubkey_to_id g (dq_to q) = Some j"
    and ne: "dq_from q \<noteq> dq_to q"
    and mutual: "mutual \<longleftrightarrow> edge (follows g) i j \<and> edge (follows g) j i"
    and direct: "edge (follows g) i j \<Longrightarrow> max_hops = 0"
    and max: "max_hops = unat (dq_max_hops q)"
    and r: "answers (edge (follows g)) (name_of g) i j max_hops (dq_include_bridges q) mutual r"
  shows "distance_ok g q r"
proof -
  note W = follow_walks [OF g i j] and Wr = follow_walks [OF g j i]
  have names: "name_of g i = dq_from q" "name_of g j = dq_to q" using g i j by (simp_all add: name_of_id)
  have mf: "mutual_follow r \<longleftrightarrow> 0 < max_hops \<and> edge (follows g) i j \<and> edge (follows g) j i"
  proof (cases "hops r")
    case None
    then show ?thesis using r direct by (auto simp: answers_def)
  next
    case (Some d)
    then have "d \<le> max_hops" "dist_is (edge (follows g)) i j d" "mutual_follow r = mutual"
      using r by (simp_all add: answers_def)
    moreover have "i \<noteq> j" using names ne by auto
    ultimately show ?thesis using mutual direct by (cases "d = 0") auto
  qed
  show ?thesis
  proof (cases "hops r")
    case None
    then show ?thesis using r mf ne max W(2,3) Wr(3) names by (auto simp: distance_ok_def answers_def)
  next
    case (Some d)
    have bs: "\<exists>bs. bridges r = Some bs \<and> distinct bs \<and>
        set bs = meeting_layer (follow_edge g) (dq_from q) (dq_to q) d - {dq_from q, dq_to q}" if "dq_include_bridges q"
    proof -
      obtain ids where ids: "bridges r = Some (map (name_of g) ids)" "distinct ids"
        "set ids = meeting_layer (edge (follows g)) i j d - {i, j}"
        using r Some \<open>dq_include_bridges q\<close> by (auto simp: answers_def)
      have inj: "inj_on (name_of g) {..<node_count g}" by (rule name_of_inj [OF graph_wf_names [OF g]])
      have ij: "i < node_count g" "j < node_count g" using i j g names_wf_iff by auto
      have layer: "meeting_layer (edge (follows g)) i j d \<subseteq> {..<node_count g}"
        using id_graph.dist_in [OF graph_id_graph [OF g]] ij(1) by (auto simp: meeting_layer_def split: prod.splits)
      have "distinct (map (name_of g) ids)"
        using ids(2,3) layer inj_on_subset [OF inj, of "set ids"] by (auto simp: distinct_map)
      moreover have "name_of g ` (meeting_layer (edge (follows g)) i j d - {i, j}) =
          name_of g ` meeting_layer (edge (follows g)) i j d - {name_of g i, name_of g j}"
        using inj_on_image_set_diff [OF inj, of "meeting_layer (edge (follows g)) i j d" "{i, j}"] layer ij by auto
      ultimately show ?thesis using ids(1,3) follow_meeting [OF g i j, of d] names by auto
    qed
    show ?thesis
      using r Some mf ne max W Wr(3) names bs by (auto simp: distance_ok_def answers_def Let_def)
  qed
qed

lemma follow_refl_walks [simp]: "walks R 0 u u = {[u]}"
  by (simp add: walks_0)

lemma compute_distance_ok:
  assumes g: "graph_wf g"
  shows "\<exists>r st. compute_distance g scratch q = Some (r, st) \<and> distance_ok g q r"
proof -
  let ?a = "dq_from q" and ?b = "dq_to q" and ?m = "unat (dq_max_hops q)"
  consider (same) "?a = ?b" | (unknown) "?a \<noteq> ?b" "pubkey_to_id g ?a = None \<or> pubkey_to_id g ?b = None"
    | (known) i j where "?a \<noteq> ?b" "pubkey_to_id g ?a = Some i" "pubkey_to_id g ?b = Some j"
    by (cases "pubkey_to_id g ?a"; cases "pubkey_to_id g ?b") auto
  then show ?thesis
  proof cases
    case same
    obtain r where r: "compute_distance g scratch q = Some (r, scratch)" "r = same_node ?a"
      using same by (auto simp: compute_distance_def get_pubkey_arc_by_str_def split: option.split)
    have "distance_ok g q r"
      using same by (auto simp: r(2) distance_ok_def same_node_def)
    then show ?thesis using r(1) by blast
  next
    case unknown
    obtain r where r: "compute_distance g scratch q = Some (r, scratch)" "r = not_found ?a ?b"
      using unknown by (auto simp: compute_distance_def get_node_id_and_arc_def split: option.split)
    have "distance_ok g q r"
      using unknown_unreachable [OF g unknown] by (simp add: r(2) distance_ok_def not_found_def)
    then show ?thesis using r(1) by blast
  next
    case known
    have ij: "i < node_count g" "j < node_count g" "i \<noteq> j" "name_of g i = ?a" "name_of g j = ?b"
      using known g names_wf_iff [of g] by (auto simp: name_of_def)
    note W = follow_walks [OF g known(2,3)]
    have dir: "is_direct (follows g) i j \<longleftrightarrow> edge (follows g) i j" "is_direct (follows g) j i \<longleftrightarrow> edge (follows g) j i"
      using is_direct_edge [OF g] ij by blast+
    let ?mutual = "edge (follows g) i j \<and> edge (follows g) j i"
    show ?thesis
    proof (cases "0 < ?m \<and> edge (follows g) i j")
      case True
      define r where "r = \<lparr>dr_from = ?a, dr_to = ?b, hops = Some 1, path_count = 1, mutual_follow = ?mutual,
        bridges = (if dq_include_bridges q then Some [] else None)\<rparr>"
      have run: "compute_distance g scratch q = Some (r, scratch)"
        using known True dir by (simp add: compute_distance_def get_node_id_and_arc_def r_def Let_def)
      have e: "follow_edge g ?a ?b" using True W(3) by simp
      then have d: "dist_is (follow_edge g) ?a ?b 1" "capped (card (walks (follow_edge g) 1 ?a ?b)) = 1"
        using known(1) dist_is_1 [where R = "follow_edge g" and u = ?a and v = ?b] by (blast, simp)
      have "snd (depths (follow_edge g) ?a ?b 1) = 0"
        using depths_sum [of "follow_edge g" ?a ?b 1] depths_forward_first [of "follow_edge g" ?a ?b 0] by simp
      then have "bridges r = Some [] \<and> meeting_layer (follow_edge g) ?a ?b 1 - {?a, ?b} = {}" if "dq_include_bridges q"
        using that meeting_layer_inner [OF d(1) known(1)] by (simp add: r_def)
      moreover have "hops r = Some 1" "dr_from r = ?a" "dr_to r = ?b" "path_count r = 1"
        "mutual_follow r \<longleftrightarrow> follow_edge g ?b ?a" "dq_include_bridges q \<or> bridges r = None"
        using W(3) follow_walks(3) [OF g known(3,2)] True by (auto simp: r_def)
      ultimately have "distance_ok g q r"
        using known(1) True d e unfolding distance_ok_def Let_def by (auto simp del: One_nat_def)
      then show ?thesis using run by blast
    next
      case False
      obtain r st where r: "bidirectional_bfs (bfs_clear scratch) (follows g) (followers g) i j ?m
          (dq_include_bridges q) ?mutual ?a ?b g = Some (r, st)"
        "answers (edge (follows g)) (name_of g) i j ?m (dq_include_bridges q) ?mutual r"
        using bidirectional_ok [OF g ij(1-3)] ij(4,5) by metis
      have "compute_distance g scratch q = Some (r, st)"
        using known False dir r(1) by (auto simp: compute_distance_def get_node_id_and_arc_def Let_def)
      moreover have "distance_ok g q r"
        by (rule answers_distance_ok [OF g known(2,3,1) refl _ refl r(2)]) (use False in simp)
      ultimately show ?thesis by blast
    qed
  qed
qed

lemma compute_distance_scratch:
  "map_option fst (compute_distance g scratch q) = map_option fst (compute_distance g scratch' q)"
proof -
  have "bfs_clear st = bfs_state_new" for st :: bfs_state
    by (cases st) (simp add: bfs_clear_def bfs_state_new_def)
  then have "bfs_clear scratch = bfs_clear scratch'" by simp
  then show ?thesis by (auto simp: compute_distance_def Let_def split: option.split)
qed

end
