(* ===== verification/QueryCache.thy ===== *)
theory QueryCache
  imports GraphRevision DistanceSpec
begin

text \<open>
  The distance cache (\<open>cache.rs\<close>). The concurrent map behind it (the \<open>moka\<close> crate) is not
  part of the repository: its look-up, insertion and clearing are the parameters \<open>mget\<close>,
  \<open>mput\<close> and \<open>mclear\<close>, of which only the documented behaviour of a bounded cache with a time
  to live is assumed (\<open>lossy\<close>: it returns nothing that was not inserted under the key; it may
  forget at any time). The graph changes while a reader runs, so each read of the graph by
  \<open>get\<close> and \<open>insert\<close> takes the graph of its own moment.
\<close>

record cache_key =
  key_from :: nat
  key_to :: nat
  key_max_hops :: "8 word"
  key_bridges :: bool

record cached_distance =
  cd_revision :: u64
  cd_hops :: "nat option"
  cd_path_count :: u64
  cd_mutual :: bool
  cd_bridge_ids :: "nat list option"

definition cache_key_new :: "nat \<Rightarrow> nat \<Rightarrow> 8 word \<Rightarrow> bool \<Rightarrow> cache_key" where
  "cache_key_new from_id to_id max_hops include_bridges =
     \<lparr>key_from = from_id, key_to = to_id, key_max_hops = max_hops, key_bridges = include_bridges\<rparr>"

definition from_result :: "distance_result \<Rightarrow> wot_graph \<Rightarrow> u64 \<Rightarrow> cached_distance" where
  "from_result result g stamp =
     \<lparr>cd_revision = stamp, cd_hops = hops result, cd_path_count = path_count result,
      cd_mutual = mutual_follow result,
      cd_bridge_ids = map_option (List.map_filter (get_node_id g)) (bridges result)\<rparr>"

definition to_result :: "cached_distance \<Rightarrow> wot_graph \<Rightarrow> nat \<Rightarrow> nat \<Rightarrow> distance_result option" where
  "to_result cd g from_id to_id =
     (case get_pubkey_arc g from_id of
        None \<Rightarrow> None
      | Some from \<Rightarrow>
          (case get_pubkey_arc g to_id of
             None \<Rightarrow> None
           | Some to \<Rightarrow>
               Some \<lparr>dr_from = from, dr_to = to, hops = cd_hops cd, path_count = cd_path_count cd,
                     mutual_follow = cd_mutual cd,
                     bridges = map_option (resolve_pubkeys_arc g) (cd_bridge_ids cd)\<rparr>))"

text \<open>\<open>QueryCache::get\<close>: the revision is read before (\<open>g1\<close>) and after (\<open>g3\<close>) the result is
  resolved (\<open>g2\<close>).\<close>

definition cache_get ::
    "('c \<Rightarrow> cache_key \<Rightarrow> cached_distance option) \<Rightarrow> 'c \<Rightarrow> cache_key \<Rightarrow>
     wot_graph \<Rightarrow> wot_graph \<Rightarrow> wot_graph \<Rightarrow> distance_result option" where
  "cache_get mget c key g1 g2 g3 =
     (case mget c key of
        None \<Rightarrow> None
      | Some cached \<Rightarrow>
          if cd_revision cached \<noteq> revision g1 then None
          else
            (case to_result cached g2 (key_from key) (key_to key) of
               None \<Rightarrow> None
             | Some result \<Rightarrow> if revision g3 = revision g1 then Some result else None))"

definition cache_insert ::
    "('c \<Rightarrow> cache_key \<Rightarrow> cached_distance \<Rightarrow> 'c) \<Rightarrow> 'c \<Rightarrow> cache_key \<Rightarrow> distance_result \<Rightarrow>
     wot_graph \<Rightarrow> wot_graph \<Rightarrow> u64 \<Rightarrow> 'c" where
  "cache_insert mput c key result g1 g2 stamp =
     (if revision g1 \<noteq> stamp then c else mput c key (from_result result g2 stamp))"

definition cache_invalidate_all :: "('c \<Rightarrow> 'c) \<Rightarrow> 'c \<Rightarrow> 'c" where
  "cache_invalidate_all mclear c = mclear c"

text \<open>
  The cache itself: the entries and the configured life. Of the map the code also asks its entry
  count and its capacity, which the map may leave open.
\<close>

record 'c query_cache =
  cache_entries :: 'c
  cache_ttl :: u64

record cache_stats =
  cs_size :: u64
  cs_capacity :: u64
  cs_ttl_secs :: u64

definition query_cache_new :: "(u64 \<Rightarrow> u64 \<Rightarrow> 'c) \<Rightarrow> u64 \<Rightarrow> u64 \<Rightarrow> 'c query_cache" where
  "query_cache_new mbuild max_capacity ttl = \<lparr>cache_entries = mbuild max_capacity ttl, cache_ttl = ttl\<rparr>"

definition query_cache_with_defaults :: "(u64 \<Rightarrow> u64 \<Rightarrow> 'c) \<Rightarrow> 'c query_cache" where
  "query_cache_with_defaults mbuild = query_cache_new mbuild 10000 300"

definition cache_stats_of :: "('c \<Rightarrow> u64) \<Rightarrow> ('c \<Rightarrow> u64 option) \<Rightarrow> 'c query_cache \<Rightarrow> cache_stats" where
  "cache_stats_of mcount mcapacity qc =
     \<lparr>cs_size = mcount (cache_entries qc),
      cs_capacity = (case mcapacity (cache_entries qc) of Some n \<Rightarrow> n | None \<Rightarrow> 0),
      cs_ttl_secs = cache_ttl qc\<rparr>"

definition forgets :: "('c \<Rightarrow> cache_key \<Rightarrow> cached_distance option) \<Rightarrow> 'c \<Rightarrow> 'c \<Rightarrow> bool" where
  "forgets mget c c' \<longleftrightarrow> (\<forall>k v. mget c' k = Some v \<longrightarrow> mget c k = Some v)"

definition lossy ::
    "('c \<Rightarrow> cache_key \<Rightarrow> cached_distance option) \<Rightarrow> ('c \<Rightarrow> cache_key \<Rightarrow> cached_distance \<Rightarrow> 'c) \<Rightarrow> bool" where
  "lossy mget mput \<longleftrightarrow>
     (\<forall>c k v k' w. mget (mput c k v) k' = Some w \<longrightarrow> (k' = k \<and> w = v) \<or> mget c k' = Some w)"

lemma lossyD: "lossy mget mput \<Longrightarrow> mget (mput c k v) k' = Some w \<Longrightarrow> (k' = k \<and> w = v) \<or> mget c k' = Some w"
  unfolding lossy_def by blast

section \<open>Moments of one graph\<close>

definition later :: "nat \<Rightarrow> wot_graph \<Rightarrow> wot_graph \<Rightarrow> bool" where
  "later n g g' \<longleftrightarrow> (\<exists>ws. length ws \<le> n \<and> (\<forall>w \<in> set ws. write_valid w) \<and> run_writes ws g = Some g')"

lemma later_refl [simp]: "later n g g"
  unfolding later_def by (intro exI [of _ "[]"]) simp

lemma run_writes_append: "run_writes ws g = Some g1 \<Longrightarrow> run_writes (ws @ ws') g = run_writes ws' g1"
  by (induction ws arbitrary: g) (auto split: option.splits)

lemma later_trans: "later n g g1 \<Longrightarrow> later m g1 g2 \<Longrightarrow> later (n + m) g g2"
proof -
  assume "later n g g1" "later m g1 g2"
  then obtain ws ws' where "length ws \<le> n" "\<forall>w \<in> set ws. write_valid w" "run_writes ws g = Some g1"
    "length ws' \<le> m" "\<forall>w \<in> set ws'. write_valid w" "run_writes ws' g1 = Some g2"
    unfolding later_def by blast
  then show ?thesis
    unfolding later_def by (intro exI [of _ "ws @ ws'"]) (auto simp: run_writes_append)
qed

lemma later_mono: "later n g g' \<Longrightarrow> n \<le> m \<Longrightarrow> later m g g'"
  unfolding later_def by (meson le_trans)

lemma later_wf: "graph_wf g \<Longrightarrow> later n g g' \<Longrightarrow> graph_small g' \<Longrightarrow> graph_wf g' \<and> advance n g g'"
  using run_writes_ok advance_trans [of "length _" g g' _ g'] unfolding later_def
  by (metis advance_refl le_add_diff_inverse)

lemma later_small: "later n g g' \<Longrightarrow> graph_small g' \<Longrightarrow> graph_small g"
  unfolding later_def using run_writes_small by blast

lemma later_ids:
  assumes "graph_wf g" "later n g g'" "graph_small g'" "pubkey_to_id g a = Some i"
  shows "pubkey_to_id g' a = Some i"
proof -
  have g': "graph_wf g'" "advance n g g'" using later_wf [OF assms(1-3)] by blast+
  then obtain ps where "id_to_pubkey g' = id_to_pubkey g @ ps" unfolding advance_def by blast
  moreover have "i < node_count g" "id_to_pubkey g ! i = a" using assms(1,4) names_wf_iff by auto
  ultimately show ?thesis using names_wf_iff [of g' a i] g'(1) by (simp add: nth_append)
qed

lemma later_view:
  assumes "graph_wf g" "later n g g'" "graph_small g'" "n < 2 ^ 64 - 2 ^ 32" "revision g' = revision g"
  shows "same_view g g'"
  using later_wf [OF assms(1-3)] advance_unchanged [of n g g'] assms(3-5) by blast

text \<open>Between two moments with one revision nothing a query reads has changed.\<close>

lemma later_between:
  assumes wf: "graph_wf g0" and moments: "later n g0 g1" "later m g1 g2" and small: "graph_small g2"
    and bound: "n + m < 2 ^ 64 - 2 ^ 32" and same: "revision g2 = revision g0"
  shows "same_view g0 g1"
proof -
  have small1: "graph_small g1" using later_small [OF moments(2) small] .
  have wf1: "graph_wf g1" using later_wf [OF wf moments(1) small1] by blast
  have "advance n g0 g1" "advance m g1 g2"
    using later_wf [OF wf moments(1) small1] later_wf [OF wf1 moments(2) small] by blast+
  then obtain ps c qs d where c: "id_to_pubkey g1 = id_to_pubkey g0 @ ps" "c \<le> length ps + n"
    "revision g1 = revision g0 + of_nat c" "c = 0 \<longrightarrow> same_view g0 g1"
    "id_to_pubkey g2 = id_to_pubkey g1 @ qs" "d \<le> length qs + m" "revision g2 = revision g1 + of_nat d"
    unfolding advance_def by blast
  have "length ps + length qs \<le> 2 ^ 32" using small c(1,5) by (simp add: graph_small_def)
  then have "c + d < 2 ^ 64" using c(2,6) bound by simp
  moreover have "(of_nat (c + d) :: u64) = 0" using c(3,7) same by (simp add: add.assoc)
  ultimately have "c + d = 0" by (rule u64_of_nat_zero)
  then show ?thesis using c(4) by simp
qed

section \<open>Results survive the compact form\<close>

lemma same_view_compute: "same_view g g' \<Longrightarrow> compute_distance g' scratch q = compute_distance g scratch q"
  unfolding same_view_def compute_distance_def bidirectional_bfs_def get_pubkey_arc_by_str_def
    get_node_id_and_arc_def finish_search_def [abs_def] resolve_pubkeys_arc_def get_pubkey_arc_def [abs_def]
  by (simp only:)

lemma same_view_cells: "same_view g g' \<Longrightarrow> get_pubkey_arc g' = get_pubkey_arc g \<and> resolve_pubkeys_arc g' = resolve_pubkeys_arc g"
  by (simp add: same_view_def get_pubkey_arc_def [abs_def] resolve_pubkeys_arc_def [abs_def])

lemma known_name: "graph_wf g \<Longrightarrow> pubkey_to_id g a = Some i \<Longrightarrow> get_pubkey_arc g i = Some a"
  using names_wf_iff [of g a i] by (simp add: get_pubkey_arc_def index_def)

lemma bridges_roundtrip:
  assumes "graph_wf g" "\<And>b. b \<in> set bs \<Longrightarrow> pubkey_to_id g b \<noteq> None"
  shows "resolve_pubkeys_arc g (List.map_filter (get_node_id g) bs) = bs"
  using assms(2)
proof (induction bs)
  case (Cons b bs)
  then obtain i where "pubkey_to_id g b = Some i" by auto
  then show ?case
    using Cons known_name [OF assms(1)]
    by (simp add: resolve_pubkeys_arc_def get_node_id_def List.map_filter_simps)
qed (simp add: resolve_pubkeys_arc_def List.map_filter_simps)

lemma bridges_known:
  assumes g: "graph_wf g" and ok: "distance_ok g q r" and bs: "bridges r = Some bs" "b \<in> set bs"
  shows "pubkey_to_id g b \<noteq> None"
proof -
  obtain d where d: "hops r = Some d" using ok bs(1) by (cases "hops r") (simp_all add: distance_ok_def Let_def)
  then have "dq_include_bridges q \<and> dq_from q \<noteq> dq_to q"
    using ok bs(1) by (simp add: distance_ok_def Let_def split: if_splits)
  then have "set bs = meeting_layer (follow_edge g) (dq_from q) (dq_to q) d - {dq_from q, dq_to q}"
    using ok bs(1) d unfolding distance_ok_def Let_def by auto
  then obtain l where l: "dist_is (follow_edge g) (dq_from q) b l" "b \<noteq> dq_from q"
    using bs(2) by (auto simp: meeting_layer_def split: prod.splits)
  then obtain k where "l = Suc k" by (cases l) auto
  then show ?thesis using dist_is_pos [of "follow_edge g" "dq_from q" b k] l follow_edge_known [OF g] by blast
qed

lemma compact_roundtrip:
  assumes g: "graph_wf g" and ok: "distance_ok g q r"
    and ids: "pubkey_to_id g (dq_from q) = Some i" "pubkey_to_id g (dq_to q) = Some j"
  shows "to_result (from_result r g stamp) g i j = Some r"
proof -
  have "map_option (resolve_pubkeys_arc g) (map_option (List.map_filter (get_node_id g)) (bridges r)) = bridges r"
    using bridges_known [OF g ok] bridges_roundtrip [OF g] by (cases "bridges r") auto
  moreover have "dr_from r = dq_from q" "dr_to r = dq_to q" using ok by (simp_all add: distance_ok_def Let_def)
  ultimately show ?thesis using known_name [OF g] ids by (simp add: to_result_def from_result_def)
qed

section \<open>Sound entries\<close>

text \<open>
  An entry is sound for the graph \<open>g\<close> if it is the compact form of what \<open>compute_distance\<close>
  returned on an earlier moment \<open>g0\<close> of the graph, at most \<open>n\<close> writes ago, and carries the
  revision of that moment.
\<close>

definition key_query :: "string \<Rightarrow> string \<Rightarrow> cache_key \<Rightarrow> distance_query" where
  "key_query a b key =
     \<lparr>dq_from = a, dq_to = b, dq_max_hops = key_max_hops key, dq_include_bridges = key_bridges key\<rparr>"

definition entry_sound :: "nat \<Rightarrow> wot_graph \<Rightarrow> cache_key \<Rightarrow> cached_distance \<Rightarrow> bool" where
  "entry_sound n g key cd \<longleftrightarrow>
     (\<exists>g0 a b s r st. later n g0 g \<and> graph_wf g0 \<and>
        pubkey_to_id g0 a = Some (key_from key) \<and> pubkey_to_id g0 b = Some (key_to key) \<and>
        compute_distance g0 s (key_query a b key) = Some (r, st) \<and> cd = from_result r g0 (revision g0))"

definition cache_sound :: "nat \<Rightarrow> ('c \<Rightarrow> cache_key \<Rightarrow> cached_distance option) \<Rightarrow> 'c \<Rightarrow> wot_graph \<Rightarrow> bool" where
  "cache_sound n mget c g \<longleftrightarrow> (\<forall>key cd. mget c key = Some cd \<longrightarrow> entry_sound n g key cd)"

lemma entry_sound_later:
  assumes "entry_sound n g key cd" "later m g g'"
  shows "entry_sound (n + m) g' key cd"
proof -
  obtain g0 a b s r st where "later n g0 g" "graph_wf g0" "pubkey_to_id g0 a = Some (key_from key)"
    "pubkey_to_id g0 b = Some (key_to key)" "compute_distance g0 s (key_query a b key) = Some (r, st)"
    "cd = from_result r g0 (revision g0)"
    using assms(1) unfolding entry_sound_def by blast
  then show ?thesis unfolding entry_sound_def using later_trans [OF _ assms(2)] by blast
qed

lemma cache_sound_later: "cache_sound n mget c g \<Longrightarrow> later m g g' \<Longrightarrow> cache_sound (n + m) mget c g'"
  unfolding cache_sound_def using entry_sound_later by blast

lemma cache_sound_forgets: "cache_sound n mget c g \<Longrightarrow> forgets mget c c' \<Longrightarrow> cache_sound n mget c' g"
  unfolding cache_sound_def forgets_def by blast

lemma compute_fst:
  "compute_distance g s q = Some (r, st) \<Longrightarrow> map_option fst (compute_distance g s' q) = Some r"
  using compute_distance_scratch [of g s q s'] by simp

text \<open>
  The insertion of a finished computation: \<open>g0\<close> is the graph when the handler read the revision,
  \<open>g1\<close> the graph the search ran on, \<open>g2\<close> and \<open>g3\<close> the ones that \<open>insert\<close> reads.
\<close>

lemma inserted_entry_sound:
  assumes wf: "graph_wf g0"
    and moments: "later k0 g0 g1" "later k1 g1 g2" "later k2 g2 g3" and small: "graph_small g3"
    and bound: "k0 + k1 < 2 ^ 64 - 2 ^ 32" and steps: "k0 + k1 + k2 \<le> n"
    and run: "compute_distance g1 s (key_query a b key) = Some (r, st)"
    and ids: "pubkey_to_id g3 a = Some (key_from key)" "pubkey_to_id g3 b = Some (key_to key)"
      "pubkey_to_id g0 a \<noteq> None" "pubkey_to_id g0 b \<noteq> None"
    and rev: "revision g2 = revision g0"
  shows "entry_sound n g3 key (from_result r g3 (revision g0))"
proof -
  have small2: "graph_small g2" using later_small [OF moments(3) small] .
  note m03 = later_trans [OF later_trans [OF moments(1,2)] moments(3)]
  have wf3: "graph_wf g3" using later_wf [OF wf m03 small] by blast
  have ids0: "pubkey_to_id g0 a = Some (key_from key)" "pubkey_to_id g0 b = Some (key_to key)"
    using later_ids [OF wf m03 small] ids by fastforce+
  have view: "same_view g0 g1" using later_between [OF wf moments(1,2) small2 bound rev] .
  have run0: "compute_distance g0 s (key_query a b key) = Some (r, st)"
    using run same_view_compute [OF view] by simp
  then have ok: "distance_ok g0 (key_query a b key) r"
    using compute_distance_ok [OF wf, of s "key_query a b key"] by auto
  have "get_node_id g3 x = get_node_id g0 x" if "bridges r = Some bs" "x \<in> set bs" for x bs
    using bridges_known [OF wf ok that] later_ids [OF wf m03 small] by (fastforce simp: get_node_id_def)
  then have "List.map_filter (get_node_id g3) bs = List.map_filter (get_node_id g0) bs" if "bridges r = Some bs" for bs
    using that by (auto simp: List.map_filter_def intro!: map_cong filter_cong)
  then have "from_result r g3 (revision g0) = from_result r g0 (revision g0)"
    by (cases "bridges r") (simp_all add: from_result_def)
  then show ?thesis
    unfolding entry_sound_def using later_mono ids0 wf run0 m03 steps by metis
qed

lemma cache_put_sound:
  "lossy mget mput \<Longrightarrow> cache_sound n mget c g \<Longrightarrow> entry_sound n g k cd \<Longrightarrow> cache_sound n mget (mput c k cd) g"
  using lossyD unfolding cache_sound_def by metis

lemma cache_insert_sound:
  assumes law: "lossy mget mput" and sound: "cache_sound n mget c g3" and wf: "graph_wf g0"
    and moments: "later k0 g0 g1" "later k1 g1 g2" "later k2 g2 g3" and small: "graph_small g3"
    and bound: "k0 + k1 < 2 ^ 64 - 2 ^ 32" and steps: "k0 + k1 + k2 \<le> n"
    and run: "compute_distance g1 s (key_query a b key) = Some (r, st)"
    and ids: "pubkey_to_id g3 a = Some (key_from key)" "pubkey_to_id g3 b = Some (key_to key)"
      "pubkey_to_id g0 a \<noteq> None" "pubkey_to_id g0 b \<noteq> None"
  shows "cache_sound n mget (cache_insert mput c key r g2 g3 (revision g0)) g3"
proof (cases "revision g2 = revision g0")
  case False
  then show ?thesis using sound by (simp add: cache_insert_def)
next
  case True
  note entry = inserted_entry_sound [OF wf moments small bound steps run ids True]
  show ?thesis using cache_put_sound [OF law sound entry] True by (simp add: cache_insert_def)
qed

text \<open>
  A served result is what \<open>compute_distance\<close> would return now. The cache may hold entries that others
  have made since the first reading of the revision.
\<close>

lemma cache_get_current:
  assumes sound: "cache_sound n mget c g3" and wf: "graph_wf g1"
    and moments: "later k1 g1 g2" "later k2 g2 g3" and small: "graph_small g3"
    and bound: "n < 2 ^ 64 - 2 ^ 32" "k1 + k2 < 2 ^ 64 - 2 ^ 32"
    and get: "cache_get mget c key g1 g2 g3 = Some r"
    and ids: "pubkey_to_id g3 a = Some (key_from key)" "pubkey_to_id g3 b = Some (key_to key)"
  shows "map_option fst (compute_distance g3 scratch (key_query a b key)) = Some r"
proof -
  obtain cd where cd: "mget c key = Some cd" "cd_revision cd = revision g1" "revision g3 = revision g1"
    "to_result cd g2 (key_from key) (key_to key) = Some r"
    using get by (auto simp: cache_get_def split: option.splits if_splits)
  then obtain g0 a0 b0 s r0 st where e: "later n g0 g3" "graph_wf g0"
    "pubkey_to_id g0 a0 = Some (key_from key)" "pubkey_to_id g0 b0 = Some (key_to key)"
    "compute_distance g0 s (key_query a0 b0 key) = Some (r0, st)" "cd = from_result r0 g0 (revision g0)"
    using sound unfolding cache_sound_def entry_sound_def by blast
  have rev: "revision g3 = revision g0" using cd(2,3) e(6) by (simp add: from_result_def)
  have view3: "same_view g0 g3" using later_view [OF e(2,1) small bound(1) rev] .
  have view1: "same_view g1 g2" "same_view g1 g3"
    using later_between [OF wf moments small bound(2) cd(3)]
      later_view [OF wf later_trans [OF moments] small bound(2) cd(3)] by blast+
  have ok: "distance_ok g0 (key_query a0 b0 key) r0" using compute_distance_ok [OF e(2), of s "key_query a0 b0 key"] e(5) by auto
  have "to_result cd g2 (key_from key) (key_to key) = to_result cd g0 (key_from key) (key_to key)"
    using same_view_cells [OF view3] same_view_cells [OF view1(1)] same_view_cells [OF view1(2)]
    by (simp add: to_result_def cong: option.case_cong)
  then have "r = r0"
    using cd(4) compact_roundtrip [OF e(2) ok, of "key_from key" "key_to key"] e(3,4,6)
    by (simp add: key_query_def)
  moreover have "a = a0" "b = b0"
    using ids e(3,4) id_inj [OF graph_wf_names [OF e(2)]] view3 by (auto simp: same_view_def)
  ultimately show ?thesis
    using compute_fst [OF e(5), of scratch] same_view_compute [OF view3] by simp
qed

lemma entry_sound_wf: "entry_sound n g key cd \<Longrightarrow> graph_small g \<Longrightarrow> graph_wf g"
  unfolding entry_sound_def using later_wf by blast

lemma cache_get_exact:
  assumes sound: "cache_sound n mget c g1"
    and moments: "later k1 g1 g2" "later k2 g2 g3" and small: "graph_small g3"
    and bound: "n + k1 + k2 < 2 ^ 64 - 2 ^ 32"
    and get: "cache_get mget c key g1 g2 g3 = Some r"
    and ids: "pubkey_to_id g3 a = Some (key_from key)" "pubkey_to_id g3 b = Some (key_to key)"
  shows "map_option fst (compute_distance g3 scratch (key_query a b key)) = Some r"
proof -
  obtain cd where "mget c key = Some cd" using get by (auto simp: cache_get_def split: option.splits)
  then have "entry_sound n g1 key cd" using sound by (simp add: cache_sound_def)
  moreover have m13: "later (k1 + k2) g1 g3" using later_trans [OF moments] .
  ultimately have wf: "graph_wf g1" using entry_sound_wf later_small [OF m13 small] by blast
  show ?thesis
    by (rule cache_get_current [OF cache_sound_later [OF sound m13] wf moments small _ _ get ids]) (use bound in simp_all)
qed

end
