(* ===== verification/BfsPath.thy ===== *)
theory BfsPath
  imports BfsDistance
begin

text \<open>
  \<open>compute_path\<close> (\<open>graph/bfs.rs\<close>): the bidirectional search with parent maps, which
  stops at the first meeting node (\<open>break 'outer\<close>) and walks back along the parents. \<open>None\<close>
  of the whole is a panic, or a walk back that does not end.
\<close>

record path_query =
  pq_from :: string
  pq_to :: string
  pq_max_hops :: "8 word"

record path_result =
  pr_from :: string
  pr_to :: string
  pr_path :: "string list option"

text \<open>What one direction owns.\<close>

record path_side =
  ps_parent :: "nat \<Rightarrow> nat option"
  ps_visited :: "nat set"
  ps_current :: "nat list"
  ps_next :: "nat list"
  ps_dist :: nat

definition path_side_new :: "nat \<Rightarrow> path_side" where
  "path_side_new start =
     \<lparr>ps_parent = Map.empty, ps_visited = {start}, ps_current = [start], ps_next = [], ps_dist = 0\<rparr>"

definition reach :: "nat \<Rightarrow> nat \<Rightarrow> path_side \<Rightarrow> path_side" where
  "reach node neighbor S =
     (if neighbor \<in> ps_visited S then S
      else S\<lparr>ps_visited := insert neighbor (ps_visited S),
             ps_parent := (ps_parent S)(neighbor \<mapsto> node), ps_next := ps_next S @ [neighbor]\<rparr>)"

text \<open>The two inner loops; the second component is the meeting node of a \<open>break 'outer\<close>.\<close>

fun scan_row :: "nat set \<Rightarrow> nat \<Rightarrow> nat list \<Rightarrow> path_side \<Rightarrow> path_side \<times> nat option" where
  "scan_row other node [] S = (S, None)"
| "scan_row other node (neighbor # neighbors) S =
     (if neighbor \<in> other then (S\<lparr>ps_parent := (ps_parent S)(neighbor \<mapsto> node)\<rparr>, Some neighbor)
      else scan_row other node neighbors (reach node neighbor S))"

fun scan_level ::
    "nat list list \<Rightarrow> nat set \<Rightarrow> nat list \<Rightarrow> path_side \<Rightarrow> (path_side \<times> nat option) option" where
  "scan_level adj other [] S = Some (S, None)"
| "scan_level adj other (node # nodes) S =
     (case index adj node of
        None \<Rightarrow> None
      | Some neighbors \<Rightarrow>
          (case scan_row other node neighbors S of
             (S', Some meet) \<Rightarrow> Some (S', Some meet)
           | (S', None) \<Rightarrow> scan_level adj other nodes S'))"

definition scan_side ::
    "nat list list \<Rightarrow> nat set \<Rightarrow> path_side \<Rightarrow> (path_side \<times> nat option) option" where
  "scan_side adj other S =
     (case scan_level adj other (ps_current S) (S\<lparr>ps_dist := ps_dist S + 1\<rparr>) of
        None \<Rightarrow> None
      | Some (S', Some meet) \<Rightarrow> Some (S', Some meet)
      | Some (S', None) \<Rightarrow> Some (S'\<lparr>ps_current := ps_next S', ps_next := []\<rparr>, None))"

type_synonym path_state = "path_side \<times> path_side \<times> nat option"

definition path_open :: "nat \<Rightarrow> path_state \<Rightarrow> bool" where
  "path_open max_hops = (\<lambda>(F, B, meet).
     meet = None \<and> ps_current F \<noteq> [] \<and> ps_current B \<noteq> [] \<and> \<not> max_hops \<le> ps_dist F + ps_dist B)"

definition path_step :: "nat list list \<Rightarrow> nat list list \<Rightarrow> path_state \<Rightarrow> path_state option" where
  "path_step out inn = (\<lambda>(F, B, meet).
     if expand_forward (ps_current F) (ps_current B)
     then map_option (\<lambda>(F', meet'). (F', B, meet')) (scan_side out (ps_visited B) F)
     else map_option (\<lambda>(B', meet'). (F, B', meet')) (scan_side inn (ps_visited F) B))"

lemma scan_row_dist: "scan_row other node nbs S = (S', x) \<Longrightarrow> ps_dist S' = ps_dist S"
  by (induction nbs arbitrary: S) (auto simp: reach_def split: if_splits)

lemma scan_level_dist: "scan_level adj other nodes S = Some (S', x) \<Longrightarrow> ps_dist S' = ps_dist S"
  by (induction nodes arbitrary: S)
    (auto dest!: scan_row_dist split: option.splits prod.splits)

lemma scan_side_dist: "scan_side adj other S = Some (S', x) \<Longrightarrow> ps_dist S' = Suc (ps_dist S)"
  by (auto simp: scan_side_def dest!: scan_level_dist split: option.splits)

lemma path_step_dist:
  "path_step out inn (F, B, x) = Some (F', B', y) \<Longrightarrow> ps_dist F' + ps_dist B' = Suc (ps_dist F + ps_dist B)"
  by (auto simp: path_step_def dest!: scan_side_dist split: if_splits)

function path_loop :: "nat list list \<Rightarrow> nat list list \<Rightarrow> nat \<Rightarrow> path_state \<Rightarrow> path_state option" where
  "path_loop out inn max_hops st =
     (if path_open max_hops st then
        (case path_step out inn st of
           None \<Rightarrow> None
         | Some st' \<Rightarrow> path_loop out inn max_hops st')
      else Some st)"
  by pat_completeness auto
termination
  by (relation "measure (\<lambda>(out, inn, m, (F, B, _)). m - (ps_dist F + ps_dist B))")
    (auto simp: path_open_def dest!: path_step_dist)

declare path_loop.simps [simp del]

text \<open>The walks back along the parents.\<close>

partial_function (option) trace_fwd ::
    "(nat \<Rightarrow> nat option) \<Rightarrow> nat \<Rightarrow> nat \<Rightarrow> nat \<Rightarrow> nat list \<Rightarrow> nat list option" where
  "trace_fwd parent from_id to_id current path_ids =
     (if current = from_id then Some path_ids
      else case parent current of
        None \<Rightarrow> Some path_ids
      | Some p \<Rightarrow> trace_fwd parent from_id to_id p (if current \<noteq> to_id then path_ids @ [current] else path_ids))"

partial_function (option) trace_bwd ::
    "(nat \<Rightarrow> nat option) \<Rightarrow> nat \<Rightarrow> nat \<Rightarrow> nat list \<Rightarrow> nat list option" where
  "trace_bwd parent to_id current path_ids =
     (if current = to_id then Some path_ids
      else case parent current of
        None \<Rightarrow> Some path_ids
      | Some child \<Rightarrow> trace_bwd parent to_id child (if child \<noteq> to_id then path_ids @ [child] else path_ids))"

declare trace_fwd.simps [code] trace_bwd.simps [code]

definition trace_path :: "nat \<Rightarrow> nat \<Rightarrow> path_side \<Rightarrow> path_side \<Rightarrow> nat \<Rightarrow> nat list option" where
  "trace_path from_id to_id F B meet =
     (case trace_fwd (ps_parent F) from_id to_id meet [] of
        None \<Rightarrow> None
      | Some path_ids \<Rightarrow> trace_bwd (ps_parent B) to_id meet (rev path_ids))"

definition search_path :: "wot_graph \<Rightarrow> nat \<Rightarrow> nat \<Rightarrow> nat \<Rightarrow> string list option option" where
  "search_path g from_id to_id max_hops =
     (case path_loop (follows g) (followers g) max_hops (path_side_new from_id, path_side_new to_id, None) of
        None \<Rightarrow> None
      | Some (F, B, None) \<Rightarrow> Some None
      | Some (F, B, Some meet) \<Rightarrow>
          map_option (\<lambda>ids. Some (resolve_pubkeys_arc g ids)) (trace_path from_id to_id F B meet))"

definition compute_path :: "wot_graph \<Rightarrow> path_query \<Rightarrow> path_result option" where
  "compute_path g q =
     (if pq_from q = pq_to q then
        let pubkey_arc = (case get_pubkey_arc_by_str g (pq_from q) of Some a \<Rightarrow> a | None \<Rightarrow> pq_from q)
        in Some \<lparr>pr_from = pubkey_arc, pr_to = pubkey_arc, pr_path = Some []\<rparr>
      else
        case get_node_id_and_arc g (pq_from q) of
          None \<Rightarrow> Some \<lparr>pr_from = pq_from q, pr_to = pq_to q, pr_path = None\<rparr>
        | Some (from_id, from_arc) \<Rightarrow>
            (case get_node_id_and_arc g (pq_to q) of
               None \<Rightarrow> Some \<lparr>pr_from = from_arc, pr_to = pq_to q, pr_path = None\<rparr>
             | Some (to_id, to_arc) \<Rightarrow>
                 if 0 < unat (pq_max_hops q) \<and> is_direct (follows g) from_id to_id
                 then Some \<lparr>pr_from = from_arc, pr_to = to_arc, pr_path = Some []\<rparr>
                 else map_option (\<lambda>path. \<lparr>pr_from = from_arc, pr_to = to_arc, pr_path = path\<rparr>)
                        (search_path g from_id to_id (unat (pq_max_hops q)))))"

end
