(* ===== verification/PathSpec.thy ===== *)
theory PathSpec
  imports BfsPath DistanceSpec
begin

text \<open>
  The contract of \<open>compute_path\<close>: it returns the inner pubkeys of a shortest chain of follows
  exactly if there is one within the hop limit. The invariant of a side (\<open>path_side_ok\<close>) adds
  to the layers that every parent lies one layer nearer to the start; the walks back along the
  parents are therefore shortest walks, and they end.
\<close>

section \<open>A level is a scan of edges\<close>

definition reach_edges :: "(nat \<times> nat) list \<Rightarrow> path_side \<Rightarrow> path_side" where
  "reach_edges es S = fold (\<lambda>(u, v). reach u v) es S"

fun scan_edges :: "nat set \<Rightarrow> (nat \<times> nat) list \<Rightarrow> path_side \<Rightarrow> path_side \<times> nat option" where
  "scan_edges other [] S = (S, None)"
| "scan_edges other ((u, v) # es) S =
     (if v \<in> other then (S\<lparr>ps_parent := (ps_parent S)(v \<mapsto> u)\<rparr>, Some v)
      else scan_edges other es (reach u v S))"

lemma scan_edges_row:
  "scan_edges other (map (Pair u) vs @ es) S =
     (case scan_row other u vs S of (S', Some x) \<Rightarrow> (S', Some x) | (S', None) \<Rightarrow> scan_edges other es S')"
  by (induction vs arbitrary: S) simp_all

lemma scan_level_edges:
  "(\<And>u. u \<in> set nodes \<Longrightarrow> u < length adj) \<Longrightarrow>
     scan_level adj other nodes S = Some (scan_edges other (frontier_edges adj nodes) S)"
  by (induction nodes arbitrary: S) (simp_all add: scan_edges_row split: prod.split option.split)

lemma scan_edges_split:
  "scan_edges other es S = (S', x) \<Longrightarrow>
     (x = None \<and> (\<forall>(u, v) \<in> set es. v \<notin> other) \<and> S' = reach_edges es S) \<or>
     (\<exists>es1 u v es2. es = es1 @ (u, v) # es2 \<and> v \<in> other \<and> x = Some v \<and>
        S' = (reach_edges es1 S)\<lparr>ps_parent := (ps_parent (reach_edges es1 S))(v \<mapsto> u)\<rparr>)"
proof (induction es arbitrary: S)
  case Nil
  then show ?case by (simp add: reach_edges_def)
next
  case (Cons e es)
  obtain u v where e: "e = (u, v)" by (cases e)
  show ?case
  proof (cases "v \<in> other")
    case True
    then have "e # es = [] @ (u, v) # es \<and> v \<in> other \<and> x = Some v \<and>
        S' = (reach_edges [] S)\<lparr>ps_parent := (ps_parent (reach_edges [] S))(v \<mapsto> u)\<rparr>"
      using Cons.prems e by (auto simp: reach_edges_def)
    then show ?thesis by blast
  next
    case False
    then have "scan_edges other es (reach u v S) = (S', x)" using Cons.prems e by simp
    from Cons.IH [OF this] show ?thesis
    proof (elim disjE exE conjE)
      fix es1 u' v' es2
      assume "es = es1 @ (u', v') # es2" "v' \<in> other" "x = Some v'"
        "S' = (reach_edges es1 (reach u v S))\<lparr>ps_parent := (ps_parent (reach_edges es1 (reach u v S)))(v' \<mapsto> u')\<rparr>"
      then have "e # es = (e # es1) @ (u', v') # es2 \<and> v' \<in> other \<and> x = Some v' \<and>
          S' = (reach_edges (e # es1) S)\<lparr>ps_parent := (ps_parent (reach_edges (e # es1) S))(v' \<mapsto> u')\<rparr>"
        by (simp add: reach_edges_def e)
      then show ?thesis by blast
    qed (use False e in \<open>auto simp: reach_edges_def\<close>)
  qed
qed

lemma reach_edges_snoc: "reach_edges (es @ [(u, v)]) S = reach u v (reach_edges es S)"
  by (simp add: reach_edges_def)

lemma reach_edges_Nil: "reach_edges [] S = S"
  by (simp add: reach_edges_def)

lemma reach_edges_frame [simp]:
  "ps_current (reach_edges es S) = ps_current S" "ps_dist (reach_edges es S) = ps_dist S"
  by (induction es rule: rev_induct) (auto simp: reach_edges_Nil reach_edges_snoc reach_def)

lemma reach_edges_visited: "ps_visited (reach_edges es S) = ps_visited S \<union> {v. \<exists>u. (u, v) \<in> set es}"
  by (induction es rule: rev_induct) (auto simp: reach_edges_Nil reach_edges_snoc reach_def split: if_splits)

lemma reach_edges_next:
  assumes "ps_next S = []"
  shows "distinct (ps_next (reach_edges es S)) \<and>
    set (ps_next (reach_edges es S)) = {v. \<exists>u. (u, v) \<in> set es} - ps_visited S"
  by (induction es rule: rev_induct)
    (auto simp: reach_edges_Nil reach_edges_snoc reach_def reach_edges_visited assms split: if_splits)

lemma reach_edges_parent:
  "ps_parent (reach_edges es S) v = Some u \<Longrightarrow>
     ps_parent S v = Some u \<or> v \<notin> ps_visited S \<and> (u, v) \<in> set es"
  by (induction es rule: rev_induct)
    (auto simp: reach_edges_Nil reach_edges_snoc reach_def reach_edges_visited split: if_splits)

lemma reach_edges_parented:
  "(\<And>v. v \<in> ps_visited S \<Longrightarrow> P v \<Longrightarrow> ps_parent S v \<noteq> None) \<Longrightarrow>
     v \<in> ps_visited (reach_edges es S) \<Longrightarrow> P v \<Longrightarrow> ps_parent (reach_edges es S) v \<noteq> None"
  by (induction es arbitrary: v rule: rev_induct)
    (auto simp: reach_edges_Nil reach_edges_snoc reach_def split: if_splits)

section \<open>Sides\<close>

definition parents_ok :: "(nat \<Rightarrow> nat \<Rightarrow> bool) \<Rightarrow> nat \<Rightarrow> (nat \<Rightarrow> nat option) \<Rightarrow> bool" where
  "parents_ok R s parent \<longleftrightarrow>
     (\<forall>v u. parent v = Some u \<longrightarrow> R u v \<and> (\<exists>d. dist_is R s u d \<and> dist_is R s v (Suc d)))"

definition parented :: "(nat \<Rightarrow> nat \<Rightarrow> bool) \<Rightarrow> nat \<Rightarrow> nat \<Rightarrow> (nat \<Rightarrow> nat option) \<Rightarrow> bool" where
  "parented R s k parent \<longleftrightarrow> (\<forall>v d. d \<le> k \<and> dist_is R s v d \<and> v \<noteq> s \<longrightarrow> parent v \<noteq> None)"

definition path_side_ok :: "(nat \<Rightarrow> nat \<Rightarrow> bool) \<Rightarrow> nat \<Rightarrow> path_side \<Rightarrow> bool" where
  "path_side_ok R s S \<longleftrightarrow>
     ps_visited S = {v. \<exists>d\<le>ps_dist S. dist_is R s v d} \<and>
     distinct (ps_current S) \<and> set (ps_current S) = {v. dist_is R s v (ps_dist S)} \<and> ps_next S = [] \<and>
     parents_ok R s (ps_parent S) \<and> parented R s (ps_dist S) (ps_parent S)"

lemma path_side_new_ok: "path_side_ok R s (path_side_new s)"
  by (auto simp: path_side_ok_def path_side_new_def parents_ok_def parented_def intro: gr0I)

definition met :: "(nat \<Rightarrow> nat \<Rightarrow> bool) \<Rightarrow> nat \<Rightarrow> nat \<Rightarrow> path_side \<Rightarrow> nat \<Rightarrow> bool" where
  "met R s k S v \<longleftrightarrow>
     parents_ok R s (ps_parent S) \<and> parented R s k (ps_parent S) \<and> ps_parent S v \<noteq> None \<and> dist_is R s v (Suc k)"

context id_graph
begin

lemma path_frontier:
  assumes "adj_of adj V R" "s \<in> V" "path_side_ok R s S"
  shows "set (frontier_edges adj (ps_current S)) = {(u, v). dist_is R s u (ps_dist S) \<and> R u v}"
    "u \<in> set (ps_current S) \<Longrightarrow> u < length adj"
proof -
  have "set (ps_current S) \<subseteq> V" using assms(2,3) dist_in by (auto simp: path_side_ok_def)
  then have u: "u < length adj \<and> set (adj ! u) = {v. R u v}" if "u \<in> set (ps_current S)" for u
    using assms(1) that by (auto simp: adj_of_def)
  then show "u \<in> set (ps_current S) \<Longrightarrow> u < length adj" by blast
  show "set (frontier_edges adj (ps_current S)) = {(u, v). dist_is R s u (ps_dist S) \<and> R u v}"
    using u assms(3) by (auto simp: set_frontier_edges path_side_ok_def)
qed

lemma new_target:
  assumes "path_side_ok R s S" "dist_is R s u (ps_dist S)" "R u v" "v \<notin> ps_visited S"
  shows "dist_is R s v (Suc (ps_dist S))"
proof -
  have "walks R (Suc (ps_dist S)) s v \<noteq> {}" using assms(2,3) walks_step by (metis dist_is_def)
  then obtain d where "d \<le> Suc (ps_dist S)" "dist_is R s v d" using dist_is_le by meson
  then show ?thesis using assms(1,4) le_Suc_eq by (auto simp: path_side_ok_def)
qed

lemma reached_parents:
  assumes "path_side_ok R s S" "\<And>u v. (u, v) \<in> set es \<Longrightarrow> dist_is R s u (ps_dist S) \<and> R u v"
  shows "parents_ok R s (ps_parent (reach_edges es S))"
  unfolding parents_ok_def
proof (intro allI impI)
  fix v u assume "ps_parent (reach_edges es S) v = Some u"
  then consider "ps_parent S v = Some u" | "v \<notin> ps_visited S" "(u, v) \<in> set es"
    using reach_edges_parent by blast
  then show "R u v \<and> (\<exists>d. dist_is R s u d \<and> dist_is R s v (Suc d))"
  proof cases
    case 1
    then show ?thesis using assms(1) by (simp add: path_side_ok_def parents_ok_def)
  next
    case 2
    then show ?thesis using assms(2) new_target [OF assms(1)] by blast
  qed
qed

lemma scanned_through:
  assumes "adj_of adj V R" "s \<in> V" "path_side_ok R s S"
    and "S' = reach_edges (frontier_edges adj (ps_current S)) (S\<lparr>ps_dist := Suc (ps_dist S)\<rparr>)"
  shows "path_side_ok R s (S'\<lparr>ps_current := ps_next S', ps_next := []\<rparr>)"
proof -
  let ?es = "frontier_edges adj (ps_current S)" and ?S = "S\<lparr>ps_dist := Suc (ps_dist S)\<rparr>"
  note es = path_frontier(1) [OF assms(1-3)]
  have S: "ps_visited S = {v. \<exists>d\<le>ps_dist S. dist_is R s v d}" "ps_next S = []"
    using assms(3) by (simp_all add: path_side_ok_def)
  have layer: "v \<notin> ps_visited S \<and> (\<exists>u. (u, v) \<in> set ?es) \<longleftrightarrow> dist_is R s v (Suc (ps_dist S))" for v
  proof
    assume "v \<notin> ps_visited S \<and> (\<exists>u. (u, v) \<in> set ?es)"
    then show "dist_is R s v (Suc (ps_dist S))" using new_target [OF assms(3)] es by auto
  next
    assume d: "dist_is R s v (Suc (ps_dist S))"
    then obtain u where u: "dist_is R s u (ps_dist S)" "dist_is R u v 1"
      using dist_is_layer [of R s v "ps_dist S" 1] by auto
    then have "R u v" by (auto simp: dist_is_def walks_Suc walks_0 split: if_splits)
    moreover have "v \<notin> ps_visited S" using dist_is_unique [OF d] by (fastforce simp: S(1))
    ultimately show "v \<notin> ps_visited S \<and> (\<exists>u. (u, v) \<in> set ?es)" using u(1) es by auto
  qed
  have vis: "ps_visited S' = {v. \<exists>d\<le>Suc (ps_dist S). dist_is R s v d}"
    using layer unfolding assms(4) reach_edges_visited by (auto simp: S(1) le_Suc_eq)
  have next_ok: "distinct (ps_next S')" "set (ps_next S') = {v. dist_is R s v (Suc (ps_dist S))}"
    using reach_edges_next [of ?S ?es] S(2) layer unfolding assms(4) by auto
  have "reach_edges es (S\<lparr>ps_dist := n\<rparr>) = (reach_edges es S)\<lparr>ps_dist := n\<rparr>" for es n
    by (induction es rule: rev_induct) (auto simp: reach_edges_Nil reach_edges_snoc reach_def)
  then have parent: "ps_parent S' = ps_parent (reach_edges ?es S)" "ps_visited S' = ps_visited (reach_edges ?es S)"
    by (simp_all add: assms(4))
  have "parents_ok R s (ps_parent S')"
    unfolding parent using reached_parents [OF assms(3)] es by auto
  moreover have "ps_parent S' v \<noteq> None" if "v \<in> ps_visited S'" "v \<noteq> s" for v
    unfolding parent(1)
    by (rule reach_edges_parented [where P = "\<lambda>v. v \<noteq> s"])
      (use that assms(3) in \<open>auto simp: parent path_side_ok_def parented_def\<close>)
  then have "parented R s (Suc (ps_dist S)) (ps_parent S')" unfolding parented_def vis by blast
  ultimately show ?thesis
    using vis next_ok by (simp add: path_side_ok_def) (simp add: assms(4))
qed

lemma scanned_to:
  assumes "adj_of adj V R" "s \<in> V" "path_side_ok R s S"
    and es: "frontier_edges adj (ps_current S) = es1 @ (u, v) # es2"
    and v: "dist_is R s v (Suc (ps_dist S))"
    and S': "S' = (reach_edges es1 S)\<lparr>ps_parent := (ps_parent (reach_edges es1 S))(v \<mapsto> u)\<rparr>"
  shows "met R s (ps_dist S) S' v"
proof -
  have e: "dist_is R s u (ps_dist S) \<and> R u v" "\<And>u v. (u, v) \<in> set es1 \<Longrightarrow> dist_is R s u (ps_dist S) \<and> R u v"
    using path_frontier(1) [OF assms(1-3)] es by auto
  have "parents_ok R s (ps_parent (reach_edges es1 S))" by (rule reached_parents [OF assms(3) e(2)])
  then have "parents_ok R s (ps_parent S')" using e(1) v by (auto simp: S' parents_ok_def)
  moreover have "ps_parent (reach_edges es1 S) x \<noteq> None" if "x \<in> ps_visited (reach_edges es1 S)" "x \<noteq> s" for x
    by (rule reach_edges_parented [where P = "\<lambda>v. v \<noteq> s"])
      (use that assms(3) in \<open>auto simp: path_side_ok_def parented_def\<close>)
  then have "parented R s (ps_dist S) (ps_parent S')"
    using assms(3) by (auto simp: parented_def S' reach_edges_visited path_side_ok_def)
  ultimately show ?thesis using v by (simp add: met_def S')
qed

lemma scan_side_ok:
  assumes "adj_of adj V R" "s \<in> V" "path_side_ok R s S"
    and other: "other = {v. \<exists>d\<le>m. dist_is R v t d}"
    and none: "\<And>i. i \<le> ps_dist S + m \<Longrightarrow> walks R i s t = {}"
  shows "\<exists>S' x. scan_side adj other S = Some (S', x) \<and>
    (case x of
       None \<Rightarrow> path_side_ok R s S' \<and> ps_dist S' = Suc (ps_dist S) \<and> walks R (Suc (ps_dist S) + m) s t = {}
     | Some v \<Rightarrow> met R s (ps_dist S) S' v \<and> dist_is R v t m)"
proof -
  let ?k = "ps_dist S" and ?S = "S\<lparr>ps_dist := Suc (ps_dist S)\<rparr>"
  let ?es = "frontier_edges adj (ps_current S)"
  note es = path_frontier(1) [OF assms(1-3)]
  have frame: "reach_edges es ?S = (reach_edges es S)\<lparr>ps_dist := Suc ?k\<rparr>" for es
    by (induction es rule: rev_induct) (auto simp: reach_edges_Nil reach_edges_snoc reach_def)
  obtain S' x where scan: "scan_edges other ?es ?S = (S', x)" by fastforce
  have level: "scan_level adj other (ps_current S) ?S = Some (S', x)"
    using scan_level_edges [of "ps_current S" adj other ?S] path_frontier(2) [OF assms(1-3)] scan by simp
  from scan_edges_split [OF scan] show ?thesis
  proof (elim disjE exE conjE)
    assume x: "x = None" and free: "\<forall>(u, v) \<in> set ?es. v \<notin> other" and S': "S' = reach_edges ?es ?S"
    have "walks R (Suc ?k + m) s t = {}"
    proof (rule ccontr)
      assume "walks R (Suc ?k + m) s t \<noteq> {}"
      then have "dist_is R s t (?k + Suc m)" using none by (auto simp: dist_is_def less_Suc_eq_le)
      then obtain u where "dist_is R s u ?k" "dist_is R u t (Suc m)" by (rule dist_is_layer)
      then have u: "dist_is R s u ?k" "dist_is R u t (1 + m)" by simp_all
      then obtain v where v: "dist_is R u v 1" "dist_is R v t m" using dist_is_layer by metis
      then have "R u v" by (auto simp: dist_is_def walks_Suc walks_0 split: if_splits)
      then show False using free es u(1) v(2) other by auto
    qed
    moreover have "scan_side adj other S = Some (S'\<lparr>ps_current := ps_next S', ps_next := []\<rparr>, None)"
      using level x by (simp add: scan_side_def)
    moreover have "path_side_ok R s (S'\<lparr>ps_current := ps_next S', ps_next := []\<rparr>)"
      using assms(1-3) S' by (rule scanned_through)
    ultimately show ?thesis by (auto simp: S')
  next
    fix es1 u v es2
    assume split: "?es = es1 @ (u, v) # es2" and v: "v \<in> other" and x: "x = Some v"
      and S': "S' = (reach_edges es1 ?S)\<lparr>ps_parent := (ps_parent (reach_edges es1 ?S))(v \<mapsto> u)\<rparr>"
    obtain d where d: "d \<le> m" "dist_is R v t d" using v other by blast
    have uv: "dist_is R s u ?k" "R u v" using es split by auto
    have ne: "walks R (Suc ?k) s v \<noteq> {}" using uv walks_step by (metis dist_is_def)
    moreover have vt: "walks R d v t \<noteq> {}" using d(2) by (simp add: dist_is_def)
    ultimately have st: "walks R (Suc ?k + d) s t \<noteq> {}" using walks_append by fastforce
    then have "d = m" using none [of "Suc ?k + d"] d(1) by force
    then have "dist_is R s t (Suc ?k + m)" using st none by (auto simp: dist_is_def less_Suc_eq_le)
    then have sv: "dist_is R s v (Suc ?k)" using dist_is_split(1) ne vt \<open>d = m\<close> by metis
    define S1 where "S1 = (reach_edges es1 S)\<lparr>ps_parent := (ps_parent (reach_edges es1 S))(v \<mapsto> u)\<rparr>"
    have "met R s ?k S1 v" by (rule scanned_to [OF assms(1-3) split sv S1_def])
    then have "met R s ?k S' v" by (simp add: met_def S' S1_def frame)
    moreover have "scan_side adj other S = Some (S', Some v)" using level x by (simp add: scan_side_def)
    ultimately show ?thesis using d \<open>d = m\<close> by auto
  qed
qed

end

section \<open>The walks back\<close>

lemma trace_fwd_ok:
  assumes "parents_ok R s par" "parented R s k par" "d \<le> Suc k" "dist_is R s v d" "d = 0 \<or> par v \<noteq> None"
  shows "\<exists>p \<in> walks R d s v. trace_fwd par s t v acc = Some (acc @ rev (filter (\<lambda>x. x \<noteq> t) (tl p)))"
  using assms(3-5)
proof (induction d arbitrary: v acc)
  case 0
  then show ?case by (auto simp: trace_fwd.simps walks_0)
next
  case (Suc d)
  then obtain u where "par v = Some u" by auto
  then obtain d' where u: "par v = Some u" "R u v" "dist_is R s u d'" "dist_is R s v (Suc d')"
    using assms(1) unfolding parents_ok_def by blast
  have "Suc d' = Suc d" using u(4) Suc.prems(2) by (rule dist_is_unique)
  then have d: "dist_is R s u d" using u(3) by simp
  have "v \<noteq> s" using Suc.prems(2) dist_is_unique [of R s v "Suc d" 0] by auto
  have "d = 0 \<or> par u \<noteq> None"
    using assms(2) d Suc.prems(1) dist_is_unique [of R s u d 0] by (auto simp: parented_def)
  then obtain p where p: "p \<in> walks R d s u"
    "trace_fwd par s t u (if v \<noteq> t then acc @ [v] else acc) =
      Some ((if v \<noteq> t then acc @ [v] else acc) @ rev (filter (\<lambda>x. x \<noteq> t) (tl p)))"
    using Suc.IH [OF _ d] Suc.prems(1) by fastforce
  have "[u, v] \<in> walks R 1 u v" using u(2) by (simp add: walks_def)
  from walks_append [OF p(1) this] have "p @ [v] \<in> walks R (Suc d) s v" by simp
  moreover have "p \<noteq> []" using p(1) by (auto simp: walks_def)
  moreover have "trace_fwd par s t v acc = Some (acc @ rev (filter (\<lambda>x. x \<noteq> t) (tl (p @ [v]))))"
    using u(1) \<open>v \<noteq> s\<close> p(2) \<open>p \<noteq> []\<close> by (subst trace_fwd.simps) auto
  ultimately show ?case by blast
qed

lemma trace_bwd_ok:
  assumes "parents_ok (\<lambda>x y. R y x) t par" "parented (\<lambda>x y. R y x) t k par" "d \<le> Suc k" "dist_is R v t d"
    "d = 0 \<or> par v \<noteq> None"
  shows "\<exists>q \<in> walks R d v t. trace_bwd par t v acc = Some (acc @ filter (\<lambda>x. x \<noteq> t) (tl q))"
  using assms(3-5)
proof (induction d arbitrary: v acc)
  case 0
  then show ?case by (auto simp: trace_bwd.simps walks_0)
next
  case (Suc d)
  then obtain u where "par v = Some u" by auto
  then obtain d' where u: "par v = Some u" "R v u" "dist_is R u t d'" "dist_is R v t (Suc d')"
    using assms(1) unfolding parents_ok_def dist_is_rev [of R] by blast
  have "Suc d' = Suc d" using u(4) Suc.prems(2) by (rule dist_is_unique)
  then have d: "dist_is R u t d" using u(3) by simp
  have "v \<noteq> t" using Suc.prems(2) dist_is_unique [of R v t "Suc d" 0] by auto
  have "d = 0 \<or> par u \<noteq> None"
    using assms(2) d Suc.prems(1) dist_is_unique [of R u t d 0]
    by (auto simp: parented_def dist_is_rev [of R])
  then obtain q where q: "q \<in> walks R d u t"
    "trace_bwd par t u (if u \<noteq> t then acc @ [u] else acc) =
      Some ((if u \<noteq> t then acc @ [u] else acc) @ filter (\<lambda>x. x \<noteq> t) (tl q))"
    using Suc.IH [OF _ d] Suc.prems(1) by fastforce
  then obtain q' where q': "q = u # q'" by (cases q) (auto simp: walks_def)
  have "v # q \<in> walks R (Suc d) v t" using q(1) u(2) by (auto simp: walks_Suc)
  moreover have "trace_bwd par t v acc = Some (acc @ filter (\<lambda>x. x \<noteq> t) (tl (v # q)))"
    using u(1) \<open>v \<noteq> t\<close> q(2) q' by (subst trace_bwd.simps) auto
  ultimately show ?case by blast
qed

text \<open>On a shortest walk the end occurs once.\<close>

lemma shortest_end_once:
  assumes "w \<in> walks R (Suc d) s t" "dist_is R s t (Suc d)"
  shows "s # filter (\<lambda>x. x \<noteq> t) (tl w) @ [t] = w"
proof -
  obtain ps where w: "w = s # ps @ [t]"
  proof -
    obtain x where x: "w = s # x" "x \<noteq> []" using assms(1) by (cases w; cases "tl w") (auto simp: walks_def)
    then have "last x = t" using assms(1) by (simp add: walks_def)
    then show thesis using that [of "butlast x"] x append_butlast_last_id [of x] by simp
  qed
  have len: "length w = Suc (Suc d)" using assms(1) by (simp add: walks_def)
  have "t \<notin> set ps"
  proof
    assume "t \<in> set ps"
    then obtain i where i: "i < length ps" "ps ! i = t" by (auto simp: in_set_conv_nth)
    then have "w \<in> walks R (Suc i + (d - i)) s t" "w ! Suc i = t"
      using assms(1) len w by (auto simp: nth_append)
    then have "walks R (Suc i) s t \<noteq> {}" using walks_cut(1) by fastforce
    moreover have "Suc i < Suc d" using i(1) len w by simp
    ultimately show False using assms(2) by (simp add: dist_is_def)
  qed
  then have "filter (\<lambda>x. x \<noteq> t) ps = ps" by (simp add: filter_id_conv) blast
  then show ?thesis using w by simp
qed

section \<open>The loop\<close>

definition meeting_ok ::
    "(nat \<Rightarrow> nat \<Rightarrow> bool) \<Rightarrow> nat \<Rightarrow> nat \<Rightarrow> path_side \<Rightarrow> path_side \<Rightarrow> nat \<Rightarrow> nat \<Rightarrow> nat \<Rightarrow> bool" where
  "meeting_ok R s t F B v j k \<longleftrightarrow>
     0 < j + k \<and> dist_is R s t (j + k) \<and> dist_is R s v j \<and> dist_is R v t k \<and>
     parents_ok R s (ps_parent F) \<and> parented R s (j - 1) (ps_parent F) \<and> (j = 0 \<or> ps_parent F v \<noteq> None) \<and>
     parents_ok (\<lambda>x y. R y x) t (ps_parent B) \<and> parented (\<lambda>x y. R y x) t (k - 1) (ps_parent B) \<and>
     (k = 0 \<or> ps_parent B v \<noteq> None)"

definition path_inv ::
    "(nat \<Rightarrow> nat \<Rightarrow> bool) \<Rightarrow> nat \<Rightarrow> nat \<Rightarrow> nat \<Rightarrow> path_state \<Rightarrow> bool" where
  "path_inv R s t n = (\<lambda>(F, B, meet).
     (case meet of
        None \<Rightarrow> path_side_ok R s F \<and> path_side_ok (\<lambda>x y. R y x) t B \<and> ps_dist F + ps_dist B \<le> n \<and>
          (\<forall>i \<le> ps_dist F + ps_dist B. walks R i s t = {})
      | Some v \<Rightarrow> \<exists>j k. j + k \<le> n \<and> meeting_ok R s t F B v j k))"

lemma parented_mono: "parented R s k p \<Longrightarrow> j \<le> k \<Longrightarrow> parented R s j p"
  unfolding parented_def by (meson le_trans)

lemma path_inv_new: "s \<noteq> t \<Longrightarrow> path_inv R s t n (path_side_new s, path_side_new t, None)"
  by (simp add: path_inv_def path_side_new_ok walks_0) (simp add: path_side_new_def walks_0)

lemma side_parents:
  assumes "path_side_ok R s S" "dist_is R s v (ps_dist S)"
  shows "parents_ok R s (ps_parent S)" "parented R s (ps_dist S - 1) (ps_parent S)"
    "ps_dist S = 0 \<or> ps_parent S v \<noteq> None"
proof -
  show "parents_ok R s (ps_parent S)" "parented R s (ps_dist S - 1) (ps_parent S)"
    using assms(1) by (auto simp: path_side_ok_def elim: parented_mono)
  have "ps_dist S = 0 \<or> v \<noteq> s" using assms(2) dist_is_unique [of R s v _ 0] by force
  then show "ps_dist S = 0 \<or> ps_parent S v \<noteq> None"
    using assms by (auto simp: path_side_ok_def parented_def)
qed

lemma joined_dist:
  assumes "\<And>i. i \<le> j + k \<Longrightarrow> walks R i s t = {}" "dist_is R s v (Suc j)" "dist_is R v t k"
  shows "dist_is R s t (Suc (j + k))"
proof -
  have "walks R (Suc j + k) s t \<noteq> {}"
    using assms(2,3) walks_append by (fastforce simp: dist_is_def)
  then show ?thesis using assms(1) by (simp add: dist_is_def less_Suc_eq_le)
qed

context id_graph
begin

lemma path_step_ok:
  assumes adj: "adj_of out V R" "adj_of inn V (\<lambda>x y. R y x)" "s \<in> V" "t \<in> V"
    and inv: "path_inv R s t n (F, B, None)" and lt: "ps_dist F + ps_dist B < n"
  shows "\<exists>st. path_step out inn (F, B, None) = Some st \<and> path_inv R s t n st"
proof (cases "expand_forward (ps_current F) (ps_current B)")
  case True
  have FB: "path_side_ok R s F" "path_side_ok (\<lambda>x y. R y x) t B"
    "\<And>i. i \<le> ps_dist F + ps_dist B \<Longrightarrow> walks R i s t = {}" using inv by (simp_all add: path_inv_def)
  have vis: "ps_visited B = {v. \<exists>d\<le>ps_dist B. dist_is R v t d}"
    using FB(2) by (simp add: path_side_ok_def dist_is_rev [of R])
  obtain F' x where x: "scan_side out (ps_visited B) F = Some (F', x)"
    "case x of None \<Rightarrow> path_side_ok R s F' \<and> ps_dist F' = Suc (ps_dist F) \<and> walks R (Suc (ps_dist F) + ps_dist B) s t = {}
     | Some v \<Rightarrow> met R s (ps_dist F) F' v \<and> dist_is R v t (ps_dist B)"
    by (rule exE [OF scan_side_ok [OF adj(1,3) FB(1) vis]]) (erule FB(3), blast)
  have "path_inv R s t n (F', B, x)"
  proof (cases x)
    case None
    then show ?thesis using x(2) FB lt by (auto simp: path_inv_def le_Suc_eq)
  next
    case (Some v)
    then have v: "met R s (ps_dist F) F' v" "dist_is R v t (ps_dist B)" using x(2) by simp_all
    have "dist_is R s v (Suc (ps_dist F))" using v(1) by (simp add: met_def)
    then have "dist_is R s t (Suc (ps_dist F + ps_dist B))"
      using joined_dist [OF FB(3)] v(2) by blast
    then have "meeting_ok R s t F' B v (Suc (ps_dist F)) (ps_dist B)"
      using v side_parents [OF FB(2), of v] by (simp add: meeting_ok_def met_def dist_is_rev [of R])
    moreover have "Suc (ps_dist F) + ps_dist B \<le> n" using lt by simp
    ultimately show ?thesis unfolding path_inv_def Some prod.case option.case by blast
  qed
  then show ?thesis using True x(1) by (simp add: path_step_def)
next
  case False
  have FB: "path_side_ok R s F" "path_side_ok (\<lambda>x y. R y x) t B"
    "\<And>i. i \<le> ps_dist F + ps_dist B \<Longrightarrow> walks R i s t = {}" using inv by (simp_all add: path_inv_def)
  have none: "walks (\<lambda>x y. R y x) i t s = {}" if "i \<le> ps_dist B + ps_dist F" for i
    using FB(3) [of i] that by (simp add: walks_rev [of R])
  have vis: "ps_visited F = {v. \<exists>d\<le>ps_dist F. dist_is (\<lambda>x y. R y x) v s d}"
    using FB(1) by (simp add: path_side_ok_def dist_is_rev [of R])
  obtain B' x where x: "scan_side inn (ps_visited F) B = Some (B', x)"
    "case x of None \<Rightarrow> path_side_ok (\<lambda>x y. R y x) t B' \<and> ps_dist B' = Suc (ps_dist B) \<and>
        walks (\<lambda>x y. R y x) (Suc (ps_dist B) + ps_dist F) t s = {}
     | Some v \<Rightarrow> met (\<lambda>x y. R y x) t (ps_dist B) B' v \<and> dist_is (\<lambda>x y. R y x) v s (ps_dist F)"
    by (rule exE [OF id_graph.scan_side_ok [OF id_graph_rev adj(2,4) FB(2) vis]]) (erule none, blast)
  have "path_inv R s t n (F, B', x)"
  proof (cases x)
    case None
    then show ?thesis
      using x(2) FB lt by (auto simp: path_inv_def le_Suc_eq walks_rev [of R] add.commute)
  next
    case (Some v)
    then have v: "met (\<lambda>x y. R y x) t (ps_dist B) B' v" "dist_is R s v (ps_dist F)" using x(2) by (simp_all add: dist_is_rev [of R])
    have "dist_is (\<lambda>x y. R y x) t v (Suc (ps_dist B))" using v(1) by (simp add: met_def)
    then have "dist_is (\<lambda>x y. R y x) t s (Suc (ps_dist B + ps_dist F))"
      using joined_dist [OF none] x(2) Some by auto
    then have "meeting_ok R s t F B' v (ps_dist F) (Suc (ps_dist B))"
      using v side_parents [OF FB(1), of v]
      by (simp add: meeting_ok_def met_def dist_is_rev [of R] add.commute)
    moreover have "ps_dist F + Suc (ps_dist B) \<le> n" using lt by simp
    ultimately show ?thesis unfolding path_inv_def Some prod.case option.case by blast
  qed
  then show ?thesis using False x(1) by (simp add: path_step_def)
qed

lemma path_loop_ok:
  assumes "adj_of out V R" "adj_of inn V (\<lambda>x y. R y x)" "s \<in> V" "t \<in> V" "path_inv R s t n st"
  shows "\<exists>st'. path_loop out inn n st = Some st' \<and> path_inv R s t n st' \<and> \<not> path_open n st'"
  using assms(5)
proof (induction "n - (ps_dist (fst st) + ps_dist (fst (snd st)))" arbitrary: st rule: less_induct)
  case less
  obtain F B x where st: "st = (F, B, x)" by (cases st)
  show ?case
  proof (cases "path_open n st")
    case True
    then have x: "x = None" "ps_dist F + ps_dist B < n" by (auto simp: path_open_def st)
    then obtain st' where st': "path_step out inn st = Some st'" "path_inv R s t n st'"
      using path_step_ok [OF assms(1-4)] less.prems st by blast
    obtain F' B' y where "st' = (F', B', y)" by (cases st')
    then have "n - (ps_dist (fst st') + ps_dist (fst (snd st'))) < n - (ps_dist (fst st) + ps_dist (fst (snd st)))"
      using path_step_dist [of out inn F B x F' B' y] st'(1) x(2) st by simp
    from less.hyps [OF this st'(2)] show ?thesis
      using True st'(1) by (subst path_loop.simps) simp
  next
    case False
    then show ?thesis using less.prems by (subst path_loop.simps) simp
  qed
qed

lemma path_stuck:
  assumes "path_inv R s t n (F, B, None)" "\<not> path_open n (F, B, None)" "d \<le> n"
  shows "\<not> dist_is R s t d"
proof -
  have FB: "path_side_ok R s F" "path_side_ok (\<lambda>x y. R y x) t B"
    "\<And>i. i \<le> ps_dist F + ps_dist B \<Longrightarrow> walks R i s t = {}" using assms(1) by (simp_all add: path_inv_def)
  have "ps_current F = [] \<or> ps_current B = [] \<or> n \<le> ps_dist F + ps_dist B"
    using assms(2) by (auto simp: path_open_def)
  then have "(\<forall>v. \<not> dist_is R s v (ps_dist F)) \<or> (\<forall>v. \<not> dist_is R v t (ps_dist B)) \<or> n \<le> ps_dist F + ps_dist B"
    using FB(1,2) unfolding path_side_ok_def dist_is_rev [of R] by force
  then show ?thesis using exhausted [OF FB(3)] assms(3) by blast
qed

lemma trace_path_ok:
  assumes "path_inv R s t n (F, B, Some v)"
  shows "\<exists>ids. trace_path s t F B v = Some ids \<and> Suc (length ids) \<le> n \<and>
    dist_is R s t (Suc (length ids)) \<and> s # ids @ [t] \<in> walks R (Suc (length ids)) s t"
proof -
  obtain j k where jk: "j + k \<le> n" "0 < j + k" "dist_is R s t (j + k)" "dist_is R s v j" "dist_is R v t k"
    "parents_ok R s (ps_parent F)" "parented R s (j - 1) (ps_parent F)" "j = 0 \<or> ps_parent F v \<noteq> None"
    "parents_ok (\<lambda>x y. R y x) t (ps_parent B)" "parented (\<lambda>x y. R y x) t (k - 1) (ps_parent B)"
    "k = 0 \<or> ps_parent B v \<noteq> None"
    using assms by (auto simp: path_inv_def meeting_ok_def)
  have le: "j \<le> Suc (j - 1)" "k \<le> Suc (k - 1)" by simp_all
  obtain p where p: "p \<in> walks R j s v"
    "trace_fwd (ps_parent F) s t v [] = Some ([] @ rev (filter (\<lambda>x. x \<noteq> t) (tl p)))"
    using trace_fwd_ok [OF jk(6,7) le(1) jk(4,8)] by blast
  obtain q where q: "q \<in> walks R k v t"
    "trace_bwd (ps_parent B) t v (filter (\<lambda>x. x \<noteq> t) (tl p)) =
      Some (filter (\<lambda>x. x \<noteq> t) (tl p) @ filter (\<lambda>x. x \<noteq> t) (tl q))"
    using trace_bwd_ok [OF jk(9,10) le(2) jk(5,11)] by blast
  define ids where "ids = filter (\<lambda>x. x \<noteq> t) (tl p @ tl q)"
  have "trace_path s t F B v = Some ids" using p(2) q(2) by (simp add: trace_path_def ids_def)
  moreover have "p \<noteq> []" using p(1) by (auto simp: walks_def)
  obtain d where d: "j + k = Suc d" using jk(2) by (metis gr0_conv_Suc)
  have w: "p @ tl q \<in> walks R (Suc d) s t" using walks_append [OF p(1) q(1)] d by simp
  then have "s # filter (\<lambda>x. x \<noteq> t) (tl (p @ tl q)) @ [t] = p @ tl q"
    using jk(3) d by (intro shortest_end_once) simp_all
  then have eq: "s # ids @ [t] = p @ tl q" using \<open>p \<noteq> []\<close> by (simp add: ids_def)
  moreover have "length ids = d" using w unfolding eq [symmetric] by (simp add: walks_def)
  ultimately show ?thesis using jk(1,3) d w by auto
qed

end

section \<open>The query\<close>

definition path_ok :: "wot_graph \<Rightarrow> path_query \<Rightarrow> path_result \<Rightarrow> bool" where
  "path_ok g q r \<longleftrightarrow>
     (let R = follow_edge g; a = pq_from q; b = pq_to q; max_hops = unat (pq_max_hops q) in
     pr_from r = a \<and> pr_to r = b \<and>
     (case pr_path r of
        None \<Rightarrow> \<forall>d\<le>max_hops. \<not> dist_is R a b d
      | Some ps \<Rightarrow>
          if a = b then ps = []
          else Suc (length ps) \<le> max_hops \<and> dist_is R a b (Suc (length ps)) \<and>
            a # ps @ [b] \<in> walks R (Suc (length ps)) a b))"

lemma search_path_ok:
  assumes g: "graph_wf g" and a: "pubkey_to_id g a = Some i" and b: "pubkey_to_id g b = Some j" and "a \<noteq> b"
  shows "\<exists>p. search_path g i j n = Some p \<and>
    (case p of
       None \<Rightarrow> \<forall>d\<le>n. \<not> dist_is (follow_edge g) a b d
     | Some ps \<Rightarrow> Suc (length ps) \<le> n \<and> dist_is (follow_edge g) a b (Suc (length ps)) \<and>
         a # ps @ [b] \<in> walks (follow_edge g) (Suc (length ps)) a b)"
proof -
  let ?R = "edge (follows g)"
  note G = graph_id_graph [OF g]
  have ij: "i < node_count g" "j < node_count g" "name_of g i = a" "name_of g j = b"
    using a b g names_wf_iff [of g] by (auto simp: name_of_def)
  then have "i \<noteq> j" using \<open>a \<noteq> b\<close> by auto
  obtain F B x where st: "path_loop (follows g) (followers g) n (path_side_new i, path_side_new j, None) = Some (F, B, x)"
    "path_inv ?R i j n (F, B, x)" "\<not> path_open n (F, B, x)"
    using id_graph.path_loop_ok [OF G graph_adj [OF g] _ _ path_inv_new [OF \<open>i \<noteq> j\<close>], of n] ij(1,2) by auto
  note W = follow_walks [OF g a b]
  show ?thesis
  proof (cases x)
    case None
    then have "search_path g i j n = Some None" using st(1) by (simp add: search_path_def)
    moreover have "\<not> dist_is (follow_edge g) a b d" if "d \<le> n" for d
      using id_graph.path_stuck [OF G] st(2,3) None that W(2) by blast
    ultimately show ?thesis by simp
  next
    case (Some v)
    obtain ids where ids: "trace_path i j F B v = Some ids" "Suc (length ids) \<le> n"
      "dist_is ?R i j (Suc (length ids))" "i # ids @ [j] \<in> walks ?R (Suc (length ids)) i j"
      using id_graph.trace_path_ok [OF G] st(2) Some by blast
    have "set (i # ids @ [j]) \<subseteq> {..<node_count g}"
      by (rule walks_in [OF _ _ ids(4)]) (use edge_in [OF g] ij(1) in auto)
    then have names: "resolve_pubkeys_arc g ids = map (name_of g) ids" by (intro resolve_names) auto
    have "walks (follow_edge g) (Suc (length ids)) a b = map (name_of g) ` walks ?R (Suc (length ids)) i j"
      unfolding ij(3,4) [symmetric]
      by (rule walks_image [where V = "{..<node_count g}"])
        (use name_of_inj [OF graph_wf_names [OF g]] edge_in [OF g] follow_targets [OF g] ij(1,2) in auto)
    then have "map (name_of g) (i # ids @ [j]) \<in> walks (follow_edge g) (Suc (length ids)) a b"
      using ids(4) by blast
    then have "a # map (name_of g) ids @ [b] \<in> walks (follow_edge g) (Suc (length ids)) a b"
      using ij(3,4) by simp
    moreover have "search_path g i j n = Some (Some (map (name_of g) ids))"
      using st(1) Some ids(1) names by (simp add: search_path_def)
    ultimately show ?thesis using ids(2,3) W(2) by simp
  qed
qed

lemma compute_path_ok:
  assumes g: "graph_wf g"
  shows "\<exists>r. compute_path g q = Some r \<and> path_ok g q r"
proof -
  let ?a = "pq_from q" and ?b = "pq_to q" and ?m = "unat (pq_max_hops q)"
  consider (same) "?a = ?b" | (unknown) "?a \<noteq> ?b" "pubkey_to_id g ?a = None \<or> pubkey_to_id g ?b = None"
    | (known) i j where "?a \<noteq> ?b" "pubkey_to_id g ?a = Some i" "pubkey_to_id g ?b = Some j"
    by (cases "pubkey_to_id g ?a"; cases "pubkey_to_id g ?b") auto
  then show ?thesis
  proof cases
    case same
    then have "compute_path g q = Some \<lparr>pr_from = ?a, pr_to = ?b, pr_path = Some []\<rparr>"
      by (simp add: compute_path_def get_pubkey_arc_by_str_def Let_def split: option.split)
    then show ?thesis using same by (simp add: path_ok_def)
  next
    case unknown
    then have "compute_path g q = Some \<lparr>pr_from = ?a, pr_to = ?b, pr_path = None\<rparr>"
      by (auto simp: compute_path_def get_node_id_and_arc_def split: option.split)
    then show ?thesis using unknown_unreachable(1) [OF g unknown] by (simp add: path_ok_def)
  next
    case known
    have dir: "is_direct (follows g) i j \<longleftrightarrow> follow_edge g ?a ?b"
      using is_direct_edge [OF g] follow_walks(3) [OF g known(2,3)] g known names_wf_iff by auto
    show ?thesis
    proof (cases "0 < ?m \<and> follow_edge g ?a ?b")
      case True
      then have "dist_is (follow_edge g) ?a ?b 1" "[?a, ?b] \<in> walks (follow_edge g) 1 ?a ?b"
        using known(1) dist_is_1 [where R = "follow_edge g" and u = ?a and v = ?b] by (blast, simp)
      moreover have "compute_path g q = Some \<lparr>pr_from = ?a, pr_to = ?b, pr_path = Some []\<rparr>"
        using known True dir by (simp add: compute_path_def get_node_id_and_arc_def)
      ultimately show ?thesis using known(1) True by (simp add: path_ok_def)
    next
      case False
      obtain p where p: "search_path g i j ?m = Some p"
        "case p of None \<Rightarrow> \<forall>d\<le>?m. \<not> dist_is (follow_edge g) ?a ?b d
         | Some ps \<Rightarrow> Suc (length ps) \<le> ?m \<and> dist_is (follow_edge g) ?a ?b (Suc (length ps)) \<and>
             ?a # ps @ [?b] \<in> walks (follow_edge g) (Suc (length ps)) ?a ?b"
        using search_path_ok [OF g known(2,3,1)] by blast
      then have "compute_path g q = Some \<lparr>pr_from = ?a, pr_to = ?b, pr_path = p\<rparr>"
        using known False dir by (auto simp: compute_path_def get_node_id_and_arc_def)
      then show ?thesis using p(2) known(1) by (cases p) (simp_all add: path_ok_def Let_def)
    qed
  qed
qed

end
