(* ===== verification/LockMetrics.thy ===== *)
theory LockMetrics
  imports WotPrelude
begin

text \<open>
  The lock-contention counters (\<open>graph/metrics.rs\<close>): six atomic 64-bit counters, a guard that
  records the time between its creation and its drop, and the averaged snapshot. Times are
  nanoseconds since an arbitrary start, as natural numbers; \<open>as_nanos() as u64\<close> keeps the low
  64 bits.
\<close>

record lock_metrics =
  write_lock_count :: u64
  write_lock_total_ns :: u64
  write_lock_max_ns :: u64
  read_lock_count :: u64
  read_lock_total_ns :: u64
  read_lock_max_ns :: u64

record lock_metrics_snapshot =
  snap_write_count :: u64
  snap_write_avg_us :: u64
  snap_write_max_us :: u64
  snap_read_count :: u64
  snap_read_avg_us :: u64
  snap_read_max_us :: u64

definition lock_metrics_new :: lock_metrics where
  "lock_metrics_new =
     \<lparr>write_lock_count = 0, write_lock_total_ns = 0, write_lock_max_ns = 0,
      read_lock_count = 0, read_lock_total_ns = 0, read_lock_max_ns = 0\<rparr>"

definition record_write :: "nat \<Rightarrow> lock_metrics \<Rightarrow> lock_metrics" where
  "record_write nanos m =
     (let ns = of_nat nanos in
      m\<lparr>write_lock_count := write_lock_count m + 1, write_lock_total_ns := write_lock_total_ns m + ns,
        write_lock_max_ns := max (write_lock_max_ns m) ns\<rparr>)"

definition record_read :: "nat \<Rightarrow> lock_metrics \<Rightarrow> lock_metrics" where
  "record_read nanos m =
     (let ns = of_nat nanos in
      m\<lparr>read_lock_count := read_lock_count m + 1, read_lock_total_ns := read_lock_total_ns m + ns,
        read_lock_max_ns := max (read_lock_max_ns m) ns\<rparr>)"

definition checked_div :: "u64 \<Rightarrow> u64 \<Rightarrow> u64 option" where
  "checked_div a b = (if b = 0 then None else Some (a div b))"

definition avg_us :: "u64 \<Rightarrow> u64 \<Rightarrow> u64" where
  "avg_us total_ns n = (case checked_div total_ns n of None \<Rightarrow> 0 | Some ns \<Rightarrow> ns div 1000)"

definition metrics_snapshot :: "lock_metrics \<Rightarrow> lock_metrics_snapshot" where
  "metrics_snapshot m =
     \<lparr>snap_write_count = write_lock_count m, snap_write_avg_us = avg_us (write_lock_total_ns m) (write_lock_count m),
      snap_write_max_us = write_lock_max_ns m div 1000,
      snap_read_count = read_lock_count m, snap_read_avg_us = avg_us (read_lock_total_ns m) (read_lock_count m),
      snap_read_max_us = read_lock_max_ns m div 1000\<rparr>"

definition metrics_reset :: "lock_metrics \<Rightarrow> lock_metrics" where
  "metrics_reset m =
     m\<lparr>write_lock_count := 0, write_lock_total_ns := 0, write_lock_max_ns := 0,
       read_lock_count := 0, read_lock_total_ns := 0, read_lock_max_ns := 0\<rparr>"

text \<open>The guard; \<open>timer_drop\<close> runs at time \<open>now\<close>.\<close>

record lock_timer =
  timer_start :: nat
  timer_is_write :: bool

definition timer_write :: "nat \<Rightarrow> lock_timer" where
  "timer_write now = \<lparr>timer_start = now, timer_is_write = True\<rparr>"

definition timer_read :: "nat \<Rightarrow> lock_timer" where
  "timer_read now = \<lparr>timer_start = now, timer_is_write = False\<rparr>"

definition timer_drop :: "lock_timer \<Rightarrow> nat \<Rightarrow> lock_metrics \<Rightarrow> lock_metrics" where
  "timer_drop t now m =
     (let duration = now - timer_start t in
      if timer_is_write t then record_write duration m else record_read duration m)"

section \<open>What the counters hold\<close>

text \<open>A guard taken at \<open>start\<close> and dropped at \<open>stop\<close>; \<open>held\<close> is the list of them.\<close>

type_synonym held = "bool \<times> nat \<times> nat"

definition record_held :: "held list \<Rightarrow> lock_metrics \<Rightarrow> lock_metrics" where
  "record_held hs m =
     fold (\<lambda>(w, start, stop) m. timer_drop (if w then timer_write start else timer_read start) stop m) hs m"

definition durations :: "bool \<Rightarrow> held list \<Rightarrow> nat list" where
  "durations w hs = map (\<lambda>(_, start, stop). stop - start) (filter (\<lambda>(w', _, _). w' = w) hs)"

lemma durations_snoc:
  "durations w (hs @ [(w', start, stop)]) = durations w hs @ (if w' = w then [stop - start] else [])"
  by (simp add: durations_def)

definition max_of :: "nat list \<Rightarrow> nat" where
  "max_of ds = fold max ds 0"

lemma max_of_snoc: "max_of (ds @ [d]) = max (max_of ds) d"
  by (simp add: max_of_def max.commute)

lemma word_max: "a < 2 ^ 64 \<Longrightarrow> b < 2 ^ 64 \<Longrightarrow> max (of_nat a :: u64) (of_nat b) = of_nat (max a b)"
  by (auto simp: max_def word_less_eq_iff_unsigned unsigned_of_nat take_bit_nat_eq_self word_le_nat_alt unat_of_nat)

lemma max_of_le_sum: "max_of ds \<le> sum_list ds"
  by (induction ds rule: rev_induct) (auto simp: max_of_snoc max_of_def)

text \<open>As long as the total fits in 64 bits, each counter is the sum, number or maximum it stands for.\<close>

lemma record_held_counters:
  assumes "sum_list (durations True hs) < 2 ^ 64" "sum_list (durations False hs) < 2 ^ 64"
  shows "record_held hs lock_metrics_new =
    \<lparr>write_lock_count = of_nat (length (durations True hs)), write_lock_total_ns = of_nat (sum_list (durations True hs)),
     write_lock_max_ns = of_nat (max_of (durations True hs)),
     read_lock_count = of_nat (length (durations False hs)), read_lock_total_ns = of_nat (sum_list (durations False hs)),
     read_lock_max_ns = of_nat (max_of (durations False hs))\<rparr>"
  using assms
proof (induction hs rule: rev_induct)
  case Nil
  show ?case by (simp add: record_held_def lock_metrics_new_def durations_def max_of_def)
next
  case (snoc h hs)
  obtain w start stop where h: "h = (w, start, stop)" by (cases h)
  have small: "sum_list (durations True hs) < 2 ^ 64" "sum_list (durations False hs) < 2 ^ 64"
    "w \<longrightarrow> stop - start < 2 ^ 64" "\<not> w \<longrightarrow> stop - start < 2 ^ 64"
    using snoc.prems by (auto simp: h durations_snoc split: if_splits)
  then have m: "max_of (durations True hs) < 2 ^ 64" "max_of (durations False hs) < 2 ^ 64"
    using max_of_le_sum by (meson le_less_trans)+
  note IH = snoc.IH [OF small(1,2)]
  show ?case
    using IH small m
    by (cases w) (simp_all add: h record_held_def timer_drop_def timer_write_def timer_read_def record_write_def
        record_read_def Let_def durations_snoc max_of_snoc word_max)
qed

lemma max_of_mem: "d \<in> set ds \<Longrightarrow> d \<le> max_of ds"
  by (induction ds rule: rev_induct) (auto simp: max_of_snoc)

lemma sum_le_max: "sum_list ds \<le> length ds * max_of ds"
proof -
  have "sum_list (map (\<lambda>d. d) ds) \<le> sum_list (map (\<lambda>_. max_of ds) ds)"
    by (rule sum_list_mono) (rule max_of_mem)
  then show ?thesis by (simp add: sum_list_triv)
qed

lemma avg_us_exact:
  assumes "t < 2 ^ 64" "n < 2 ^ 64"
  shows "unat (avg_us (of_nat t) (of_nat n)) = t div n div 1000"
proof (cases "n = 0")
  case True
  then show ?thesis by (simp add: avg_us_def checked_div_def)
next
  case False
  then have "(of_nat n :: u64) \<noteq> 0" using assms(2) u64_of_nat_zero by blast
  moreover have "unat (of_nat t :: u64) = t" "unat (of_nat n :: u64) = n"
    using assms by (simp_all add: unat_of_nat take_bit_nat_eq_self)
  ultimately show ?thesis by (simp add: avg_us_def checked_div_def unat_div)
qed

lemma metrics_reset_new: "metrics_reset m = lock_metrics_new"
  by (simp add: metrics_reset_def lock_metrics_new_def)

end
