(* ===== verification/OracleConfig.thy ===== *)
theory OracleConfig
  imports WotPrelude
begin

text \<open>
  The configuration (\<open>config.rs\<close>). The environment is a map from names to values
  (\<open>env::var(..).ok()\<close>). \<open>str::parse\<close> of an unsigned integer accepts one leading plus sign and
  decimal digits and fails on overflow. \<open>trim\<close> removes white space; relay URLs are ASCII, so
  the ASCII white space of Rust's \<open>char::is_whitespace\<close> is all that is modelled.
\<close>

section \<open>Parsing\<close>

definition digit_value :: "char \<Rightarrow> nat option" where
  "digit_value c = (let n = of_char c in if 48 \<le> n \<and> n \<le> 57 then Some (n - 48) else None)"

text \<open>\<open>checked_mul(10)\<close> and \<open>checked_add\<close>: the loop stops at the first overflow.\<close>

fun parse_digits :: "nat \<Rightarrow> nat \<Rightarrow> string \<Rightarrow> nat option" where
  "parse_digits hi acc [] = Some acc"
| "parse_digits hi acc (c # cs) =
     (case digit_value c of
        None \<Rightarrow> None
      | Some d \<Rightarrow> if hi < acc * 10 + d then None else parse_digits hi (acc * 10 + d) cs)"

definition parse_uint :: "nat \<Rightarrow> string \<Rightarrow> nat option" where
  "parse_uint hi s =
     (let digits = (case s of c # cs \<Rightarrow> if c = CHR ''+'' then cs else s | [] \<Rightarrow> [])
      in if digits = [] then None else parse_digits hi 0 digits)"

definition parse_word :: "string \<Rightarrow> 'a::len word option" where
  "parse_word s = map_option of_nat (parse_uint (2 ^ LENGTH('a) - 1) s)"

definition clamp :: "'a::len word \<Rightarrow> 'a word \<Rightarrow> 'a word \<Rightarrow> 'a word" where
  "clamp lo hi x = (if x < lo then lo else if hi < x then hi else x)"

definition is_white :: "char \<Rightarrow> bool" where
  "is_white c = (let n = of_char c :: nat in n = 32 \<or> (9 \<le> n \<and> n \<le> 13))"

definition trim :: "string \<Rightarrow> string" where
  "trim s = rev (dropWhile is_white (rev (dropWhile is_white s)))"

fun split_on :: "char \<Rightarrow> string \<Rightarrow> string list" where
  "split_on sep [] = [[]]"
| "split_on sep (c # cs) =
     (if c = sep then [] # split_on sep cs
      else case split_on sep cs of p # ps \<Rightarrow> (c # p) # ps | [] \<Rightarrow> [[c]])"

section \<open>The configuration\<close>

definition max_hops_limit :: "8 word" where "max_hops_limit = 5"
definition max_hops_default :: "8 word" where "max_hops_default = 3"
definition cache_size_max :: u64 where "cache_size_max = 100000"
definition cache_size_default :: u64 where "cache_size_default = 10000"
definition rate_limit_max :: "32 word" where "rate_limit_max = 1000"
definition rate_limit_default :: "32 word" where "rate_limit_default = 100"

record config =
  relays :: "string list"
  http_port :: "16 word"
  db_path :: string
  dvm_enabled :: bool
  dvm_private_key :: "string option"
  rate_limit_per_minute :: "32 word"
  max_hops :: "8 word"
  cache_size :: u64
  cache_ttl_secs :: u64

definition default_relays :: string where
  "default_relays =
     ''wss://relay.damus.io,wss://nos.lol,wss://relay.primal.net/,wss://relay.mostr.pub/''"

text \<open>A bounded setting: unset or unreadable gives the default, anything else is clamped.\<close>

definition bounded_setting :: "(string \<Rightarrow> string option) \<Rightarrow> string \<Rightarrow> 'a::len word \<Rightarrow> 'a word \<Rightarrow> 'a word \<Rightarrow> 'a word" where
  "bounded_setting env name lo hi fallback =
     (case Option.bind (env name) parse_word of
        None \<Rightarrow> fallback
      | Some v \<Rightarrow> clamp lo hi v)"

definition from_env :: "(string \<Rightarrow> string option) \<Rightarrow> config" where
  "from_env env =
     \<lparr>relays = filter (\<lambda>s. s \<noteq> []) (map trim (split_on CHR '','' (case env ''RELAYS'' of Some r \<Rightarrow> r | None \<Rightarrow> default_relays))),
      http_port = (case Option.bind (env ''HTTP_PORT'') parse_word of Some p \<Rightarrow> p | None \<Rightarrow> 8080),
      db_path = (case env ''DB_PATH'' of Some p \<Rightarrow> p | None \<Rightarrow> ''wot.db''),
      dvm_enabled = (case env ''DVM_ENABLED'' of Some v \<Rightarrow> v = ''true'' \<or> v = ''1'' | None \<Rightarrow> False),
      dvm_private_key = env ''DVM_PRIVATE_KEY'',
      rate_limit_per_minute = bounded_setting env ''RATE_LIMIT_PER_MINUTE'' 1 rate_limit_max rate_limit_default,
      max_hops = bounded_setting env ''MAX_HOPS'' 1 max_hops_limit max_hops_default,
      cache_size = bounded_setting env ''CACHE_SIZE'' 100 cache_size_max cache_size_default,
      cache_ttl_secs = bounded_setting env ''CACHE_TTL_SECS'' 10 3600 300\<rparr>"

text \<open>The fields \<open>Debug\<close> writes, in order.\<close>

datatype debug_value =
    DebugStrings "string list"
  | DebugString string
  | DebugOption "string option"
  | DebugBool bool
  | DebugNat nat

definition config_debug :: "config \<Rightarrow> (string \<times> debug_value) list" where
  "config_debug c =
     [(''relays'', DebugStrings (relays c)), (''http_port'', DebugNat (unat (http_port c))),
      (''db_path'', DebugString (db_path c)), (''dvm_enabled'', DebugBool (dvm_enabled c)),
      (''dvm_private_key'', DebugOption (map_option (\<lambda>_. ''[REDACTED]'') (dvm_private_key c))),
      (''rate_limit_per_minute'', DebugNat (unat (rate_limit_per_minute c))),
      (''max_hops'', DebugNat (unat (max_hops c))), (''cache_size'', DebugNat (unat (cache_size c))),
      (''cache_ttl_secs'', DebugNat (unat (cache_ttl_secs c)))]"

section \<open>Bounds\<close>

lemma clamp_bounds: "lo \<le> hi \<Longrightarrow> lo \<le> clamp lo hi x \<and> clamp lo hi x \<le> hi"
  by (auto simp: clamp_def)

lemma clamp_id: "lo \<le> x \<Longrightarrow> x \<le> hi \<Longrightarrow> clamp lo hi x = x"
  by (auto simp: clamp_def)

lemma bounded_setting_bounds:
  "lo \<le> hi \<Longrightarrow> lo \<le> d \<Longrightarrow> d \<le> hi \<Longrightarrow> lo \<le> bounded_setting env name lo hi d \<and> bounded_setting env name lo hi d \<le> hi"
  by (auto simp: bounded_setting_def clamp_bounds split: option.split)

lemma parse_digits_bound: "parse_digits hi acc s = Some n \<Longrightarrow> acc \<le> hi \<Longrightarrow> acc \<le> n \<and> n \<le> hi"
proof (induction hi acc s rule: parse_digits.induct)
  case (2 hi acc c cs)
  then obtain d where d: "digit_value c = Some d" "\<not> hi < acc * 10 + d" "parse_digits hi (acc * 10 + d) cs = Some n"
    by (auto split: option.splits if_splits)
  have "acc * 10 + d \<le> n \<and> n \<le> hi" using "2.IH" [OF d(1,2,3)] d(2) by simp
  then show ?case by linarith
qed simp

lemma parse_word_value:
  assumes "parse_uint (2 ^ LENGTH('a::len) - 1) s = Some n"
  shows "parse_word s = Some (of_nat n :: 'a word) \<and> unat (of_nat n :: 'a word) = n"
proof -
  have "n \<le> 2 ^ LENGTH('a) - 1"
    using assms parse_digits_bound by (auto simp: parse_uint_def Let_def split: if_splits)
  then have "n < 2 ^ LENGTH('a)" by (rule le_less_trans) simp
  then show ?thesis using assms by (simp add: parse_word_def unat_of_nat take_bit_nat_eq_self)
qed

lemma no_separator: "p \<in> set (split_on sep s) \<Longrightarrow> sep \<notin> set p"
  by (induction sep s arbitrary: p rule: split_on.induct) (auto split: list.splits if_splits)

lemma trim_idem: "trim (trim s) = trim s"
proof -
  let ?d = "dropWhile is_white"
  have dd: "?d (?d xs) = ?d xs" for xs :: string by (simp add: dropWhile_idem)
  have "?d (rev (?d (rev (?d s)))) = rev (?d (rev (?d s)))"
  proof (cases "?d s")
    case Nil
    then show ?thesis by (simp only: Nil rev.simps dropWhile.simps)
  next
    case (Cons c cs)
    then have c: "\<not> is_white c" by (metis hd_dropWhile list.discI list.sel(1))
    have "rev (?d (rev (c # cs))) = [] \<or> hd (rev (?d (rev (c # cs)))) = c"
    proof -
      have "?d (rev cs @ [c]) = ?d (rev cs) @ [c]"
        using c by (simp add: dropWhile_append3 dropWhile_append)
      then show ?thesis by simp
    qed
    then show ?thesis using c Cons by (cases "rev (?d (rev (c # cs)))") auto
  qed
  then show ?thesis by (simp add: trim_def dd)
qed

section \<open>What an operator writes is what is used\<close>

text \<open>Decimal notation, as an operator writes a number into the environment.\<close>

fun decimal :: "nat \<Rightarrow> string" where
  "decimal n = (if n < 10 then [char_of (48 + n)] else decimal (n div 10) @ [char_of (48 + n mod 10)])"

declare decimal.simps [simp del]

lemma digit_value_char: "d < 10 \<Longrightarrow> digit_value (char_of (48 + d)) = Some d"
  by (simp add: digit_value_def Let_def)

lemma parse_digits_append:
  "parse_digits hi acc (xs @ ys) = Option.bind (parse_digits hi acc xs) (\<lambda>a. parse_digits hi a ys)"
  by (induction hi acc xs rule: parse_digits.induct) (auto split: option.split)

lemma parse_decimal: "n \<le> hi \<Longrightarrow> parse_digits hi 0 (decimal n) = Some n"
proof (induction n rule: decimal.induct)
  case (1 n)
  show ?case
  proof (cases "n < 10")
    case True
    then show ?thesis using "1.prems" by (simp add: decimal.simps [of n] digit_value_char)
  next
    case False
    have "parse_digits hi 0 (decimal (n div 10)) = Some (n div 10)"
      using 1 False by (meson div_le_dividend le_trans)
    moreover have "n div 10 * 10 + n mod 10 = n" by simp
    ultimately show ?thesis
      using False "1.prems" by (simp add: decimal.simps [of n] parse_digits_append digit_value_char)
  qed
qed

lemma decimal_head: "\<exists>c cs. decimal n = c # cs \<and> c \<noteq> CHR ''+''"
proof (induction n rule: decimal.induct)
  case (1 n)
  show ?case
  proof (cases "n < 10")
    case True
    have "(of_char (char_of (48 + n) :: char) :: nat) \<noteq> of_char CHR ''+''" using True by simp
    then have "(char_of (48 + n) :: char) \<noteq> CHR ''+''" by metis
    then show ?thesis using True by (simp add: decimal.simps [of n])
  next
    case False
    then show ?thesis using 1 by (auto simp: decimal.simps [of n])
  qed
qed

lemma parse_uint_decimal: "n \<le> hi \<Longrightarrow> parse_uint hi (decimal n) = Some n"
  using parse_decimal [of n hi] decimal_head [of n] by (auto simp: parse_uint_def Let_def)

lemma parse_word_decimal: "parse_word (decimal (unat w)) = Some (w :: 'a::len word)"
proof -
  have "unat w < 2 ^ LENGTH('a)" by (rule unsigned_less)
  then have "unat w \<le> 2 ^ LENGTH('a) - 1" by linarith
  then show ?thesis by (simp add: parse_word_def parse_uint_decimal)
qed

lemma bounded_setting_keeps:
  "env name = Some (decimal (unat v)) \<Longrightarrow> lo \<le> v \<Longrightarrow> v \<le> hi \<Longrightarrow> bounded_setting env name lo hi d = v"
  by (simp add: bounded_setting_def parse_word_decimal clamp_id)

lemma trim_sub: "set (trim s) \<subseteq> set s"
  by (auto simp: trim_def dest!: set_dropWhileD)

end
