(* ===== verification/Database.thy ===== *)
theory Database
  imports GraphRestore "HOL-Library.Multiset"
begin

text \<open>
  The SQLite store (\<open>db/sqlite.rs\<close>): its tables, its SQL statements and its operations. The
  tables are lists of rows with the constraints of the schema (a row that breaks one is an error
  of the statement). What the program does not decide is a parameter, the record \<open>db_env\<close>:
  which statement of a call fails (\<open>fails\<close>, by its number in the call; preparing, stepping and
  reading a statement is one such point), the rowid SQLite picks (\<open>fresh_rowid\<close>), whether the
  linked SQLite enforces foreign keys, and the iteration orders of the hash tables. A transaction
  that does not commit leaves the tables as they were.
\<close>

section \<open>Tables\<close>

record node_row =
  node_id :: int
  node_pubkey :: string
  node_event_id :: "string option"
  node_created_at :: "int option"
  node_updated_at :: int

record mute_row =
  mute_author :: int
  row_event_id :: "string option"
  row_created_at :: "int option"
  row_updated_at :: int

record sync_row =
  relay_url :: string
  last_event_time :: "int option"
  last_sync_at :: "int option"

record database =
  nodes :: "node_row list"
  edges :: "(int \<times> int) list"
  mute_lists :: "mute_row list"
  mute_edges :: "(int \<times> int) list"
  sync_states :: "sync_row list"

definition database_new :: database where
  "database_new = \<lparr>nodes = [], edges = [], mute_lists = [], mute_edges = [], sync_states = []\<rparr>"

record follow_update_batch =
  fu_pubkey :: string
  fu_follows :: "string list"
  fu_event_id :: "string option"
  fu_created_at :: "int option"

datatype db_error = SqlFault | ConstraintFailed | NoRows | Bail string

record db_env =
  fails :: "nat \<Rightarrow> bool"
  fresh_rowid :: "int list \<Rightarrow> int"
  enforce_keys :: bool
  order_winners :: "follow_update_batch list \<Rightarrow> follow_update_batch list"
  order_previous :: "(string \<times> int) list \<Rightarrow> (string \<times> int) list"
  order_desired :: "string list \<Rightarrow> string list"

section \<open>Running statements\<close>

text \<open>The state is the number of statements run so far and the tables as the transaction sees them.\<close>

type_synonym 'a sql = "nat \<times> database \<Rightarrow> ('a \<times> nat \<times> database, db_error) result"

definition sql_return :: "'a \<Rightarrow> 'a sql" where
  "sql_return x = (\<lambda>s. Ok (x, s))"

definition sql_bind :: "'a sql \<Rightarrow> ('a \<Rightarrow> 'b sql) \<Rightarrow> 'b sql" where
  "sql_bind m f = (\<lambda>s. case m s of Err e \<Rightarrow> Err e | Ok (x, s') \<Rightarrow> f x s')"

fun sql_for :: "('x \<Rightarrow> 'acc \<Rightarrow> 'acc sql) \<Rightarrow> 'x list \<Rightarrow> 'acc \<Rightarrow> 'acc sql" where
  "sql_for f [] acc = sql_return acc"
| "sql_for f (x # xs) acc = sql_bind (f x acc) (sql_for f xs)"

definition exec :: "db_env \<Rightarrow> (database \<Rightarrow> ('a \<times> database, db_error) result) \<Rightarrow> 'a sql" where
  "exec env stmt =
     (\<lambda>(n, db). if fails env n then Err SqlFault
                else case stmt db of Err e \<Rightarrow> Err e | Ok (x, db') \<Rightarrow> Ok (x, Suc n, db'))"

text \<open>A statement without effect or rows: \<open>BEGIN\<close>, \<open>COMMIT\<close>, preparing.\<close>

definition plain_stmt :: "database \<Rightarrow> (unit \<times> database, db_error) result" where
  "plain_stmt db = Ok ((), db)"

section \<open>The statements\<close>

definition find_node :: "database \<Rightarrow> string \<Rightarrow> node_row option" where
  "find_node db pk = find (\<lambda>r. node_pubkey r = pk) (nodes db)"

definition find_mutes :: "database \<Rightarrow> int \<Rightarrow> mute_row option" where
  "find_mutes db i = find (\<lambda>r. mute_author r = i) (mute_lists db)"

text \<open>\<open>get_node\<close>: id, event id and timestamp; for mutes over a \<open>LEFT JOIN\<close>.\<close>

definition get_node :: "bool \<Rightarrow> string \<Rightarrow> database \<Rightarrow> ((int \<times> string option \<times> int option) option \<times> database, db_error) result" where
  "get_node mute pk db =
     Ok (case find_node db pk of
           None \<Rightarrow> None
         | Some n \<Rightarrow>
             if mute then
               (case find_mutes db (node_id n) of
                  None \<Rightarrow> Some (node_id n, None, None)
                | Some m \<Rightarrow> Some (node_id n, row_event_id m, row_created_at m))
             else Some (node_id n, node_event_id n, node_created_at n), db)"

text \<open>\<open>query_row\<close> without \<open>optional\<close>, keeping the first column.\<close>

definition get_id :: "bool \<Rightarrow> string \<Rightarrow> database \<Rightarrow> (int \<times> database, db_error) result" where
  "get_id mute pk db =
     (case get_node mute pk db of
        Err e \<Rightarrow> Err e
      | Ok (None, _) \<Rightarrow> Err NoRows
      | Ok (Some (i, _), db') \<Rightarrow> Ok (i, db'))"

definition insert_node :: "db_env \<Rightarrow> string \<Rightarrow> int \<Rightarrow> database \<Rightarrow> (unit \<times> database, db_error) result" where
  "insert_node env pk now db =
     Ok ((), if find_node db pk \<noteq> None then db
             else db\<lparr>nodes := nodes db @
               [\<lparr>node_id = fresh_rowid env (map node_id (nodes db)), node_pubkey = pk,
                 node_event_id = None, node_created_at = None, node_updated_at = now\<rparr>]\<rparr>)"

definition upsert_follow_list :: "db_env \<Rightarrow> follow_update_batch \<Rightarrow> int \<Rightarrow> database \<Rightarrow> (unit \<times> database, db_error) result" where
  "upsert_follow_list env u now db =
     Ok ((), if find_node db (fu_pubkey u) \<noteq> None
             then db\<lparr>nodes := map (\<lambda>r. if node_pubkey r = fu_pubkey u
                    then r\<lparr>node_event_id := fu_event_id u, node_created_at := fu_created_at u, node_updated_at := now\<rparr>
                    else r) (nodes db)\<rparr>
             else db\<lparr>nodes := nodes db @
               [\<lparr>node_id = fresh_rowid env (map node_id (nodes db)), node_pubkey = fu_pubkey u,
                 node_event_id = fu_event_id u, node_created_at = fu_created_at u, node_updated_at = now\<rparr>]\<rparr>)"

text \<open>A \<open>NULL\<close> rowid (no such pubkey) would make SQLite pick one, which a foreign key check refuses.\<close>

definition upsert_mute_list :: "db_env \<Rightarrow> follow_update_batch \<Rightarrow> int \<Rightarrow> database \<Rightarrow> (unit \<times> database, db_error) result" where
  "upsert_mute_list env u now db =
     (let author = (case find_node db (fu_pubkey u) of
                      Some n \<Rightarrow> node_id n
                    | None \<Rightarrow> fresh_rowid env (map mute_author (mute_lists db))) in
      if enforce_keys env \<and> author \<notin> node_id ` set (nodes db) then Err ConstraintFailed
      else if find_mutes db author \<noteq> None
      then Ok ((), db\<lparr>mute_lists := map (\<lambda>r. if mute_author r = author
                  then r\<lparr>row_event_id := fu_event_id u, row_created_at := fu_created_at u, row_updated_at := now\<rparr>
                  else r) (mute_lists db)\<rparr>)
      else Ok ((), db\<lparr>mute_lists := mute_lists db @
               [\<lparr>mute_author = author, row_event_id = fu_event_id u, row_created_at = fu_created_at u,
                 row_updated_at = now\<rparr>]\<rparr>))"

definition upsert_list :: "db_env \<Rightarrow> bool \<Rightarrow> follow_update_batch \<Rightarrow> int \<Rightarrow> database \<Rightarrow> (unit \<times> database, db_error) result" where
  "upsert_list env mute u now db =
     (if mute then upsert_mute_list env u now db else upsert_follow_list env u now db)"

definition edge_table :: "bool \<Rightarrow> database \<Rightarrow> (int \<times> int) list" where
  "edge_table mute db = (if mute then mute_edges db else edges db)"

definition set_edge_table :: "bool \<Rightarrow> (int \<times> int) list \<Rightarrow> database \<Rightarrow> database" where
  "set_edge_table mute es db = (if mute then db\<lparr>mute_edges := es\<rparr> else db\<lparr>edges := es\<rparr>)"

definition old_edges :: "bool \<Rightarrow> int \<Rightarrow> database \<Rightarrow> ((string \<times> int) list \<times> database, db_error) result" where
  "old_edges mute i db =
     Ok (concat (map (\<lambda>(f, t). if f = i then map (\<lambda>n. (node_pubkey n, t)) (filter (\<lambda>n. node_id n = t) (nodes db)) else [])
           (edge_table mute db)), db)"

definition delete_edge :: "bool \<Rightarrow> int \<Rightarrow> int \<Rightarrow> database \<Rightarrow> (unit \<times> database, db_error) result" where
  "delete_edge mute i j db = Ok ((), set_edge_table mute (filter (\<lambda>e. e \<noteq> (i, j)) (edge_table mute db)) db)"

definition insert_edge :: "db_env \<Rightarrow> bool \<Rightarrow> int \<Rightarrow> int \<Rightarrow> database \<Rightarrow> (unit \<times> database, db_error) result" where
  "insert_edge env mute i j db =
     (if (i, j) \<in> set (edge_table mute db) then Err ConstraintFailed
      else if enforce_keys env \<and> \<not> {i, j} \<subseteq> node_id ` set (nodes db) then Err ConstraintFailed
      else Ok ((), set_edge_table mute (edge_table mute db @ [(i, j)]) db))"

section \<open>Batches of list updates\<close>

text \<open>The winning update of every author, in a hash table.\<close>

definition add_winner :: "follow_update_batch \<Rightarrow> (string \<times> follow_update_batch) list \<Rightarrow> (string \<times> follow_update_batch) list" where
  "add_winner u winners =
     (case map_of winners (fu_pubkey u) of
        Some previous \<Rightarrow>
          if event_wins (fu_created_at u) (fu_event_id u) (fu_created_at previous) (fu_event_id previous)
          then AList.update (fu_pubkey u) u winners else winners
      | None \<Rightarrow> AList.update (fu_pubkey u) u winners)"

definition winners_of :: "follow_update_batch list \<Rightarrow> (string \<times> follow_update_batch) list" where
  "winners_of updates = fold add_winner updates []"

text \<open>Collecting rows into a hash table: a later row replaces an earlier one of the same key.\<close>

definition hash_collect :: "(string \<times> int) list \<Rightarrow> (string \<times> int) list" where
  "hash_collect found = fold (\<lambda>(k, v). AList.update k v) found []"

type_synonym node_cache = "string \<Rightarrow> int option"

definition drop_target :: "db_env \<Rightarrow> bool \<Rightarrow> int \<Rightarrow> string list \<Rightarrow> string \<times> int \<Rightarrow> unit \<Rightarrow> unit sql" where
  "drop_target env mute follower_id desired p _ =
     (if fst p \<in> set desired then sql_return () else exec env (delete_edge mute follower_id (snd p)))"

definition add_target :: "db_env \<Rightarrow> bool \<Rightarrow> int \<Rightarrow> int \<Rightarrow> (string \<times> int) list \<Rightarrow> string \<Rightarrow> node_cache \<Rightarrow> node_cache sql" where
  "add_target env mute now follower_id previous pk ids =
     (if map_of previous pk \<noteq> None then sql_return ids
      else
        sql_bind
          (case ids pk of
             Some i \<Rightarrow> sql_return (i, ids)
           | None \<Rightarrow>
               sql_bind (exec env (insert_node env pk now)) (\<lambda>_.
               sql_bind (exec env (get_id mute pk)) (\<lambda>i.
               sql_return (i, ids(pk \<mapsto> i)))))
          (\<lambda>(followed_id, ids1).
             sql_bind (exec env (insert_edge env mute follower_id followed_id)) (\<lambda>_.
             sql_return ids1)))"

definition replace_list :: "db_env \<Rightarrow> bool \<Rightarrow> int \<Rightarrow> follow_update_batch \<Rightarrow> node_cache \<Rightarrow> node_cache sql" where
  "replace_list env mute now u ids =
     sql_bind (if mute then exec env (insert_node env (fu_pubkey u) now) else sql_return ()) (\<lambda>_.
     sql_bind (exec env (upsert_list env mute u now)) (\<lambda>_.
     sql_bind (exec env (get_id mute (fu_pubkey u))) (\<lambda>follower_id.
     sql_bind (exec env (old_edges mute follower_id)) (\<lambda>found.
       let previous = hash_collect found;
           desired = remdups (fu_follows u)
       in sql_bind (sql_for (drop_target env mute follower_id desired) (order_previous env previous) ()) (\<lambda>_.
          sql_for (add_target env mute now follower_id previous) (order_desired env desired)
            (ids(fu_pubkey u \<mapsto> follower_id)))))))"

definition write_update :: "db_env \<Rightarrow> bool \<Rightarrow> int \<Rightarrow> follow_update_batch \<Rightarrow> node_cache \<times> nat \<Rightarrow> (node_cache \<times> nat) sql" where
  "write_update env mute now u st =
     (case st of (ids, accepted) \<Rightarrow>
        sql_bind (exec env (get_node mute (fu_pubkey u))) (\<lambda>existing.
          if (case existing of
                Some (_, eid, ts) \<Rightarrow> \<not> event_wins (fu_created_at u) (fu_event_id u) ts eid
              | None \<Rightarrow> False)
          then sql_return (ids, accepted)
          else sql_bind (replace_list env mute now u ids) (\<lambda>ids1. sql_return (ids1, accepted + 1))))"

definition batch_transaction :: "db_env \<Rightarrow> int \<Rightarrow> bool \<Rightarrow> follow_update_batch list \<Rightarrow> nat sql" where
  "batch_transaction env now mute updates =
     sql_bind (exec env plain_stmt) (\<lambda>_.
     sql_bind (exec env plain_stmt) (\<lambda>_.
     sql_bind (sql_for (write_update env mute now) (order_winners env (map snd (winners_of updates))) (Map.empty, 0))
       (\<lambda>(_, accepted).
     sql_bind (exec env plain_stmt) (\<lambda>_. sql_return accepted))))"

definition update_lists_batch ::
    "db_env \<Rightarrow> int \<Rightarrow> follow_update_batch list \<Rightarrow> bool \<Rightarrow> database \<Rightarrow> (nat, db_error) result \<times> database" where
  "update_lists_batch env now updates mute db =
     (if updates = [] then (Ok 0, db)
      else case batch_transaction env now mute updates (0, db) of
             Ok (accepted, _, db') \<Rightarrow> (Ok accepted, db')
           | Err e \<Rightarrow> (Err e, db))"

definition update_follows_batch ::
    "db_env \<Rightarrow> int \<Rightarrow> follow_update_batch list \<Rightarrow> database \<Rightarrow> (nat, db_error) result \<times> database" where
  "update_follows_batch env now updates db = update_lists_batch env now updates False db"

definition update_mutes_batch ::
    "db_env \<Rightarrow> int \<Rightarrow> follow_update_batch list \<Rightarrow> database \<Rightarrow> (nat, db_error) result \<times> database" where
  "update_mutes_batch env now updates db = update_lists_batch env now updates True db"

definition db_update_follows ::
    "db_env \<Rightarrow> int \<Rightarrow> string \<Rightarrow> string list \<Rightarrow> string option \<Rightarrow> int option \<Rightarrow> database \<Rightarrow>
     (unit, db_error) result \<times> database" where
  "db_update_follows env now pk fs eid ts db =
     (case update_follows_batch env now
             [\<lparr>fu_pubkey = pk, fu_follows = fs, fu_event_id = eid, fu_created_at = ts\<rparr>] db of
        (Ok _, db') \<Rightarrow> (Ok (), db')
      | (Err e, db') \<Rightarrow> (Err e, db'))"

section \<open>Other operations\<close>

definition coalesce :: "'a option \<Rightarrow> 'a option \<Rightarrow> 'a option" where
  "coalesce a b = (case a of Some x \<Rightarrow> Some x | None \<Rightarrow> b)"

text \<open>Outside a transaction every statement is its own: the upsert stays when the look-up fails.\<close>

definition upsert_node ::
    "db_env \<Rightarrow> int \<Rightarrow> string \<Rightarrow> string option \<Rightarrow> int option \<Rightarrow> database \<Rightarrow> (int, db_error) result \<times> database" where
  "upsert_node env now pk eid ts db =
     (if fails env 0 then (Err SqlFault, db)
      else
        let db1 = (if find_node db pk \<noteq> None
             then db\<lparr>nodes := map (\<lambda>r. if node_pubkey r = pk
                    then r\<lparr>node_event_id := coalesce eid (node_event_id r),
                           node_created_at := coalesce ts (node_created_at r), node_updated_at := now\<rparr>
                    else r) (nodes db)\<rparr>
             else db\<lparr>nodes := nodes db @
               [\<lparr>node_id = fresh_rowid env (map node_id (nodes db)), node_pubkey = pk,
                 node_event_id = eid, node_created_at = ts, node_updated_at = now\<rparr>]\<rparr>)
        in if fails env 1 then (Err SqlFault, db1)
           else case find_node db1 pk of
                  None \<Rightarrow> (Err NoRows, db1)
                | Some n \<Rightarrow> (Ok (node_id n), db1))"

definition get_sync_state :: "db_env \<Rightarrow> string \<Rightarrow> database \<Rightarrow> (sync_row option, db_error) result" where
  "get_sync_state env url db =
     (let result = (if fails env 0 then Err SqlFault
                    else case find (\<lambda>r. relay_url r = url) (sync_states db) of
                           None \<Rightarrow> Err NoRows
                         | Some r \<Rightarrow> Ok r)
      in case result of
           Ok state \<Rightarrow> Ok (Some state)
         | Err e \<Rightarrow> if e = NoRows then Ok None else Err e)"

definition set_sync_state ::
    "db_env \<Rightarrow> int \<Rightarrow> string \<Rightarrow> int option \<Rightarrow> database \<Rightarrow> (unit, db_error) result \<times> database" where
  "set_sync_state env now url ts db =
     (if fails env 0 then (Err SqlFault, db)
      else (Ok (), db\<lparr>sync_states :=
        (if find (\<lambda>r. relay_url r = url) (sync_states db) \<noteq> None
         then map (\<lambda>r. if relay_url r = url then r\<lparr>last_event_time := ts, last_sync_at := Some now\<rparr> else r) (sync_states db)
         else sync_states db @ [\<lparr>relay_url = url, last_event_time = ts, last_sync_at = Some now\<rparr>])\<rparr>))"

definition db_get_stats :: "db_env \<Rightarrow> database \<Rightarrow> (nat \<times> nat, db_error) result" where
  "db_get_stats env db =
     (if fails env 0 then Err SqlFault
      else if fails env 1 then Err SqlFault
      else Ok (length (nodes db), length (edges db)))"

end
