(* ===== verification/DatabaseSpec.thy ===== *)
theory DatabaseSpec
  imports Database
begin

text \<open>
  What the statements of a transaction do. The lists are read by name (\<open>db_meta\<close>,
  \<open>db_targets\<close>, \<open>db_known\<close>); \<open>changed\<close> says that exactly one list differs, each statement
  has a lemma that says what it changes, and \<open>replace_list_ok\<close> composes them: the program that
  replaces a list fails only where a statement faults.
\<close>

section \<open>Results with faults\<close>

text \<open>\<open>outcome F P r\<close>: \<open>r\<close> is an error only if \<open>F\<close>, and a value of it satisfies \<open>P\<close>.\<close>

definition outcome :: "bool \<Rightarrow> ('a \<Rightarrow> bool) \<Rightarrow> ('a, 'e) result \<Rightarrow> bool" where
  "outcome F P r = (case r of Err _ \<Rightarrow> F | Ok x \<Rightarrow> P x)"

lemma outcome_simps [simp]: "outcome F P (Ok x) = P x" "outcome F P (Err e) = F"
  by (simp_all add: outcome_def)

lemma outcome_mono: "outcome F P r \<Longrightarrow> (\<And>x. P x \<Longrightarrow> Q x) \<Longrightarrow> outcome F Q r"
  by (cases r) auto

text \<open>\<open>runs F P m s\<close>: the program \<open>m\<close> from \<open>s\<close>, with \<open>P\<close> on its value and tables.\<close>

definition runs :: "bool \<Rightarrow> ('a \<Rightarrow> database \<Rightarrow> bool) \<Rightarrow> 'a sql \<Rightarrow> nat \<times> database \<Rightarrow> bool" where
  "runs F P m s = outcome F (\<lambda>(x, n, db). P x db) (m s)"

lemma runs_return [simp]: "runs F P (sql_return x) (n, db) = P x db"
  by (simp add: runs_def sql_return_def)

lemma runs_mono: "runs F P m s \<Longrightarrow> (\<And>x db. P x db \<Longrightarrow> Q x db) \<Longrightarrow> runs F Q m s"
  unfolding runs_def by (erule outcome_mono) auto

lemma runs_bind:
  assumes "runs F P m s" "\<And>x n db. P x db \<Longrightarrow> runs F Q (f x) (n, db)"
  shows "runs F Q (sql_bind m f) s"
  using assms by (cases "m s") (auto simp: runs_def sql_bind_def)

lemma runs_for:
  assumes "I [] acc db" and "\<And>done' x acc n db. I done' acc db \<Longrightarrow> (\<exists>rest. xs = done' @ x # rest) \<Longrightarrow>
      runs F (\<lambda>acc' db'. I (done' @ [x]) acc' db') (f x acc) (n, db)"
  shows "runs F (I xs) (sql_for f xs acc) (n, db)"
proof -
  have main: "runs F (I xs) (sql_for f ys acc) (n, db)" if "I zs acc db" "xs = zs @ ys" for zs ys acc n db
    using that
  proof (induction ys arbitrary: zs acc n db)
    case Nil
    then show ?case by simp
  next
    case (Cons y ys)
    have "runs F (I (zs @ [y])) (f y acc) (n, db)" using assms(2) [OF Cons.prems(1)] Cons.prems(2) by blast
    moreover have "runs F (I xs) (sql_for f ys acc') (n', db')" if "I (zs @ [y]) acc' db'" for acc' n' db'
      using Cons.IH [OF that] Cons.prems(2) by simp
    ultimately show ?case unfolding sql_for.simps by (rule runs_bind)
  qed
  show ?thesis by (rule main [of "[]"]) (simp_all add: assms(1))
qed

definition faulty :: "db_env \<Rightarrow> bool" where
  "faulty env \<longleftrightarrow> (\<exists>n. fails env n)"

lemma runs_exec:
  assumes "stmt db = Ok (x, db')" "P x db'"
  shows "runs (faulty env) P (exec env stmt) (n, db)"
  using assms by (auto simp: runs_def exec_def faulty_def)

lemma runs_step:
  assumes "stmt db = Ok (x, db')" "\<And>n'. runs (faulty env) Q (f x) (n', db')"
  shows "runs (faulty env) Q (sql_bind (exec env stmt) f) (n, db)"
  using assms by (auto simp: runs_def exec_def faulty_def sql_bind_def)

section \<open>Well-formed tables\<close>

definition db_id :: "database \<Rightarrow> string \<Rightarrow> int option" where
  "db_id db pk = map_option node_id (find_node db pk)"

definition db_wf :: "database \<Rightarrow> bool" where
  "db_wf db \<longleftrightarrow>
     distinct (map node_id (nodes db)) \<and> distinct (map node_pubkey (nodes db)) \<and>
     distinct (edges db) \<and> set (edges db) \<subseteq> node_id ` set (nodes db) \<times> node_id ` set (nodes db) \<and>
     distinct (map mute_author (mute_lists db)) \<and> mute_author ` set (mute_lists db) \<subseteq> node_id ` set (nodes db) \<and>
     distinct (mute_edges db) \<and>
     set (mute_edges db) \<subseteq> mute_author ` set (mute_lists db) \<times> node_id ` set (nodes db)"

lemma find_distinct:
  "distinct (map f xs) \<Longrightarrow> find (\<lambda>r. f r = k) xs = Some r \<longleftrightarrow> r \<in> set xs \<and> f r = k"
  by (induction xs) (auto simp: image_iff)

lemma find_None: "find (\<lambda>r. f r = k) xs = None \<longleftrightarrow> k \<notin> f ` set xs"
  by (auto simp: find_None_iff)

lemma find_append: "find P (xs @ ys) = (case find P xs of Some x \<Rightarrow> Some x | None \<Rightarrow> find P ys)"
  by (induction xs) auto

lemma find_map_key:
  "(\<And>r. f (g r) = f r) \<Longrightarrow> find (\<lambda>r. f r = k) (map g xs) = map_option g (find (\<lambda>r. f r = k) xs)"
  by (induction xs) auto

text \<open>Names and ids determine each other.\<close>

lemma db_id_node:
  assumes "db_wf db"
  shows "db_id db pk = Some i \<longleftrightarrow> (\<exists>n \<in> set (nodes db). node_pubkey n = pk \<and> node_id n = i)"
proof -
  have "find_node db pk = Some n \<longleftrightarrow> n \<in> set (nodes db) \<and> node_pubkey n = pk" for n
    unfolding find_node_def using assms find_distinct [of node_pubkey "nodes db"] by (simp add: db_wf_def)
  then show ?thesis by (auto simp: db_id_def)
qed

lemma db_id_inj: "db_wf db \<Longrightarrow> db_id db a = Some i \<Longrightarrow> db_id db b = Some i \<Longrightarrow> a = b"
  using db_id_node [of db a i] db_id_node [of db b i] by (auto simp: db_wf_def distinct_map inj_on_def)

lemma ran_db_id: "db_wf db \<Longrightarrow> ran (db_id db) = node_id ` set (nodes db)"
  by (auto simp: ran_def db_id_node)

section \<open>Lists by name\<close>

definition db_meta :: "bool \<Rightarrow> database \<Rightarrow> string \<Rightarrow> meta" where
  "db_meta mute db a =
     (case find_node db a of
        None \<Rightarrow> (None, None)
      | Some n \<Rightarrow>
          if mute then (case find_mutes db (node_id n) of None \<Rightarrow> (None, None) | Some m \<Rightarrow> (row_created_at m, row_event_id m))
          else (node_created_at n, node_event_id n))"

definition db_targets :: "bool \<Rightarrow> database \<Rightarrow> string \<Rightarrow> string set" where
  "db_targets mute db a =
     (case db_id db a of
        None \<Rightarrow> {}
      | Some i \<Rightarrow> node_pubkey ` set (filter (\<lambda>m. (i, node_id m) \<in> set (edge_table mute db)) (nodes db)))"

definition db_known :: "database \<Rightarrow> string \<Rightarrow> bool" where
  "db_known db a = (case db_id db a of None \<Rightarrow> False | Some i \<Rightarrow> find_mutes db i \<noteq> None)"

lemma db_targets_iff:
  "db_wf db \<Longrightarrow> b \<in> db_targets mute db a \<longleftrightarrow>
     (\<exists>i j. db_id db a = Some i \<and> db_id db b = Some j \<and> (i, j) \<in> set (edge_table mute db))"
proof (cases "db_id db a")
  case (Some i)
  assume "db_wf db"
  then have "b \<in> db_targets mute db a \<longleftrightarrow> (\<exists>m \<in> set (nodes db). node_pubkey m = b \<and> (i, node_id m) \<in> set (edge_table mute db))"
    using Some by (auto simp: db_targets_def)
  also have "\<dots> \<longleftrightarrow> (\<exists>j. db_id db b = Some j \<and> (i, j) \<in> set (edge_table mute db))"
    using \<open>db_wf db\<close> by (auto simp: db_id_node)
  finally show ?thesis using Some by simp
qed (simp add: db_targets_def)

lemma db_targets_named: "db_wf db \<Longrightarrow> b \<in> db_targets mute db a \<Longrightarrow> db_id db b \<noteq> None"
  by (auto simp: db_targets_iff)

lemma edge_ends:
  assumes "db_wf db" "(i, j) \<in> set (edge_table mute db)"
  shows "i \<in> node_id ` set (nodes db)" "j \<in> node_id ` set (nodes db)"
  using assms by (auto simp: db_wf_def edge_table_def split: if_splits)

lemma db_known_meta: "\<not> db_known db a \<Longrightarrow> db_meta True db a = (None, None)"
  by (auto simp: db_known_def db_meta_def db_id_def split: option.splits)

lemma db_known_targets: "db_wf db \<Longrightarrow> \<not> db_known db a \<Longrightarrow> db_targets True db a = {}"
proof -
  assume db: "db_wf db" and unknown: "\<not> db_known db a"
  have "(i, j) \<notin> set (mute_edges db)" if "db_id db a = Some i" for i j
  proof -
    have "i \<notin> mute_author ` set (mute_lists db)"
      using unknown that by (simp add: db_known_def find_mutes_def find_None)
    then show ?thesis using db by (auto simp: db_wf_def)
  qed
  then show ?thesis by (auto simp: db_targets_def edge_table_def split: option.split)
qed

section \<open>Single statements\<close>

text \<open>\<open>changed db mute k m T d\<close>: \<open>d\<close> is \<open>db\<close> with the list of \<open>k\<close> set to the
  provenance \<open>m\<close> and the targets \<open>T\<close>; nodes may have been added.\<close>

definition grows :: "database \<Rightarrow> database \<Rightarrow> bool" where
  "grows db d \<longleftrightarrow>
     db_wf d \<and> db_id db \<subseteq>\<^sub>m db_id d \<and> db_meta False d = db_meta False db \<and> db_meta True d = db_meta True db \<and>
     db_targets False d = db_targets False db \<and> db_targets True d = db_targets True db \<and>
     db_known d = db_known db \<and> sync_states d = sync_states db"

definition changed :: "database \<Rightarrow> bool \<Rightarrow> string \<Rightarrow> meta \<Rightarrow> string set \<Rightarrow> database \<Rightarrow> bool" where
  "changed db mute k m T d \<longleftrightarrow>
     db_wf d \<and> db_id db \<subseteq>\<^sub>m db_id d \<and> db_id d k \<noteq> None \<and>
     db_meta mute d = (db_meta mute db)(k := m) \<and> db_meta (\<not> mute) d = db_meta (\<not> mute) db \<and>
     db_targets mute d = (db_targets mute db)(k := T) \<and> db_targets (\<not> mute) d = db_targets (\<not> mute) db \<and>
     db_known d = (if mute then (db_known db)(k := True) else db_known db) \<and> sync_states d = sync_states db"

lemma grows_refl: "db_wf db \<Longrightarrow> grows db db"
  by (simp add: grows_def)

lemma changed_grows: "changed db mute k m T d \<Longrightarrow> grows d d' \<Longrightarrow> changed db mute k m T d'"
  unfolding changed_def grows_def by (cases mute) (auto intro: map_le_trans dest: map_le_implies_dom_le)

lemma find_node_row:
  assumes "find_node db pk = None"
  shows "find_node (db\<lparr>nodes := nodes db @ [r]\<rparr>) a =
    (case find_node db a of Some n \<Rightarrow> Some n | None \<Rightarrow> if node_pubkey r = a then Some r else None)"
  using assms by (simp add: find_node_def find_append split: option.split)

text \<open>Adding a row with an unused id.\<close>

lemma add_row:
  assumes db: "db_wf db" and new: "find_node db (node_pubkey r) = None" "node_id r \<notin> node_id ` set (nodes db)"
  defines "d \<equiv> db\<lparr>nodes := nodes db @ [r]\<rparr>"
  shows "db_wf d" "db_id d = (db_id db)(node_pubkey r \<mapsto> node_id r)" "db_targets b d = db_targets b db"
    "db_known d = db_known db"
    "db_meta b d = (db_meta b db)(node_pubkey r := (if b then (None, None) else (node_created_at r, node_event_id r)))"
proof -
  have pk: "node_pubkey r \<notin> node_pubkey ` set (nodes db)"
    using new(1) by (simp add: find_node_def find_None)
  show wf: "db_wf d" using db new(2) pk by (auto simp: db_wf_def d_def)
  have find: "find_node d a = (if a = node_pubkey r then Some r else find_node db a)" for a
    using new(1) by (auto simp: d_def find_node_row split: option.split)
  show ids: "db_id d = (db_id db)(node_pubkey r \<mapsto> node_id r)"
    by (rule ext) (simp add: db_id_def find)
  have same: "edge_table b d = edge_table b db" "find_mutes d = find_mutes db" for b
    by (simp_all add: d_def edge_table_def find_mutes_def fun_eq_iff)
  have "mute_author ` set (mute_lists db) \<subseteq> node_id ` set (nodes db)" using db by (simp add: db_wf_def)
  then have none: "find_mutes db (node_id r) = None"
    using new(2) unfolding find_mutes_def find_None by blast
  have nid: "db_id db (node_pubkey r) = None" using new(1) by (simp add: db_id_def)
  show "db_known d = db_known db"
    by (rule ext) (simp add: db_known_def ids same none nid split: option.split)
  show "db_meta b d = (db_meta b db)(node_pubkey r := (if b then (None, None) else (node_created_at r, node_event_id r)))"
    by (rule ext) (simp add: db_meta_def find same none split: option.split)
  have "x \<in> db_targets b d a \<longleftrightarrow> x \<in> db_targets b db a" for x a
    using edge_ends [OF db, of _ _ b] new(2) nid
    by (auto simp: db_targets_iff [OF wf] db_targets_iff [OF db] ids same)
  then show "db_targets b d = db_targets b db" by blast
qed

text \<open>Rewriting rows without touching ids and names.\<close>

lemma map_rows:
  assumes db: "db_wf db" and g: "\<And>r. node_id (g r) = node_id r \<and> node_pubkey (g r) = node_pubkey r"
  defines "d \<equiv> db\<lparr>nodes := map g (nodes db)\<rparr>"
  shows "db_wf d" "db_id d = db_id db" "db_targets b d = db_targets b db" "db_known d = db_known db"
    "find_node d a = map_option g (find_node db a)" "find_mutes d = find_mutes db"
proof -
  have keys: "map node_id (nodes d) = map node_id (nodes db)" "map node_pubkey (nodes d) = map node_pubkey (nodes db)"
    using g by (simp_all add: d_def)
  have ids: "node_id ` set (nodes d) = node_id ` set (nodes db)" using keys(1) by (metis list.set_map)
  show wf: "db_wf d" unfolding db_wf_def keys ids using db by (simp add: db_wf_def d_def)
  show find: "find_node d a = map_option g (find_node db a)" for a
    unfolding find_node_def d_def using g by (simp add: find_map_key)
  show ids: "db_id d = db_id db"
    by (rule ext) (simp add: db_id_def find option.map_comp o_def g)
  show fm: "find_mutes d = find_mutes db" by (simp add: fun_eq_iff d_def find_mutes_def)
  show "db_known d = db_known db" by (simp add: fun_eq_iff db_known_def ids fm split: option.split)
  have "edge_table b d = edge_table b db" by (simp add: d_def edge_table_def)
  then have "x \<in> db_targets b d a \<longleftrightarrow> x \<in> db_targets b db a" for x a
    by (simp add: db_targets_iff [OF wf] db_targets_iff [OF db] ids)
  then show "db_targets b d = db_targets b db" by blast
qed

text \<open>What SQLite and the hash tables are relied on for.\<close>

definition env_ok :: "db_env \<Rightarrow> bool" where
  "env_ok env \<longleftrightarrow>
     (\<forall>is. fresh_rowid env is \<notin> set is) \<and>
     (\<forall>xs. mset (order_winners env xs) = mset xs) \<and> (\<forall>xs. mset (order_previous env xs) = mset xs) \<and>
     (\<forall>xs. mset (order_desired env xs) = mset xs)"

lemma env_order:
  assumes "env_ok env"
  shows "set (order_winners env ws) = set ws" "set (order_previous env ps) = set ps"
    "set (order_desired env ds) = set ds" "distinct (order_desired env ds) = distinct ds"
    "distinct (map f (order_winners env ws)) = distinct (map f ws)"
  using assms unfolding env_ok_def
  by (metis mset_eq_setD mset_eq_imp_distinct_iff mset_map)+

lemma fresh_unused: "env_ok env \<Longrightarrow> fresh_rowid env (map node_id (nodes db)) \<notin> node_id ` set (nodes db)"
  unfolding env_ok_def by (metis list.set_map)

lemma insert_node_ok:
  assumes db: "db_wf db" and env: "env_ok env"
  shows "\<exists>d. insert_node env pk now db = Ok ((), d) \<and> grows db d \<and> db_id d pk \<noteq> None"
proof (cases "find_node db pk")
  case None
  let ?r = "\<lparr>node_id = fresh_rowid env (map node_id (nodes db)), node_pubkey = pk,
             node_event_id = None, node_created_at = None, node_updated_at = now\<rparr>"
  have nid: "db_id db pk = None" using None by (simp add: db_id_def)
  have meta: "db_meta b db pk = (None, None)" for b using None by (simp add: db_meta_def)
  note row = add_row [OF db, of ?r, simplified, OF None fresh_unused [OF env, of db, simplified]]
  have "grows db (db\<lparr>nodes := nodes db @ [?r]\<rparr>)"
    unfolding grows_def row using row(1) meta nid
    by (auto simp: map_le_def fun_upd_idem)
  then show ?thesis using None row(2) by (simp add: insert_node_def)
next
  case (Some n)
  then show ?thesis using grows_refl [OF db] by (simp add: insert_node_def db_id_def)
qed

lemma find_mutes_row:
  "find_mutes db i = None \<Longrightarrow> mute_author r = i \<Longrightarrow>
     find_mutes (db\<lparr>mute_lists := mute_lists db @ [r]\<rparr>) a = (if a = i then Some r else find_mutes db a)"
  by (auto simp: find_mutes_def find_append split: option.split)

text \<open>A change of the mute lists that only concerns the author with id \<open>i\<close>.\<close>

lemma set_mute_row:
  assumes db: "db_wf db" and k: "db_id db k = Some i"
    and find: "\<And>a. find_mutes (db\<lparr>mute_lists := ms\<rparr>) a = (if a = i then Some r else find_mutes db a)"
    and keys: "distinct (map mute_author ms)" "set (map mute_author ms) = insert i (mute_author ` set (mute_lists db))"
  shows "changed db True k (row_created_at r, row_event_id r) (db_targets True db k) (db\<lparr>mute_lists := ms\<rparr>)"
proof -
  let ?d = "db\<lparr>mute_lists := ms\<rparr>"
  have ids: "db_id ?d = db_id db" "find_node ?d = find_node db" by (simp_all add: fun_eq_iff db_id_def find_node_def)
  have "i \<in> node_id ` set (nodes db)" using ran_db_id [OF db] k by (metis ranI)
  then have wf: "db_wf ?d" using db keys by (auto simp: db_wf_def)
  have "db_targets b ?d = db_targets b db" for b
    by (simp add: fun_eq_iff db_targets_def ids edge_table_def split: option.split)
  moreover have "db_meta False ?d = db_meta False db" by (simp add: fun_eq_iff db_meta_def ids split: option.split)
  moreover have "db_meta True ?d a = (if a = k then (row_created_at r, row_event_id r) else db_meta True db a)" for a
  proof (cases "find_node db a")
    case (Some n)
    then have "db_id db a = Some (node_id n)" by (simp add: db_id_def)
    then have "node_id n = i \<longleftrightarrow> a = k" using k db_id_inj [OF db] by fastforce
    then show ?thesis using Some by (auto simp: db_meta_def ids find)
  qed (use k in \<open>auto simp: db_meta_def ids db_id_def\<close>)
  moreover have "db_known ?d a = ((db_known db)(k := True)) a" for a
  proof (cases "db_id db a")
    case (Some j)
    then have "j = i \<longleftrightarrow> a = k" using k db_id_inj [OF db] by fastforce
    then show ?thesis using Some by (auto simp: db_known_def ids find)
  qed (use k in \<open>auto simp: db_known_def ids\<close>)
  ultimately show ?thesis using wf k by (simp add: changed_def ids fun_eq_iff)
qed

lemma upsert_mutes_ok:
  assumes db: "db_wf db" and k: "db_id db (fu_pubkey u) = Some i"
  shows "\<exists>d. upsert_mute_list env u now db = Ok ((), d) \<and>
    changed db True (fu_pubkey u) (fu_created_at u, fu_event_id u) (db_targets True db (fu_pubkey u)) d"
proof -
  obtain n where n: "find_node db (fu_pubkey u) = Some n" "node_id n = i" using k by (auto simp: db_id_def)
  have i: "i \<in> node_id ` set (nodes db)" using ran_db_id [OF db] k by (metis ranI)
  have dist: "distinct (map mute_author (mute_lists db))" using db by (simp add: db_wf_def)
  show ?thesis
  proof (cases "find_mutes db i")
    case None
    let ?r = "\<lparr>mute_author = i, row_event_id = fu_event_id u, row_created_at = fu_created_at u, row_updated_at = now\<rparr>"
    have "i \<notin> mute_author ` set (mute_lists db)" using None by (simp add: find_mutes_def find_None)
    then show ?thesis
      using set_mute_row [OF db k find_mutes_row [OF None, of ?r]] dist n i None by (auto simp: upsert_mute_list_def)
  next
    case (Some m)
    let ?g = "\<lambda>r. if mute_author r = i
      then r\<lparr>row_event_id := fu_event_id u, row_created_at := fu_created_at u, row_updated_at := now\<rparr> else r"
    have keys: "map mute_author (map ?g (mute_lists db)) = map mute_author (mute_lists db)" by simp
    have m: "m \<in> set (mute_lists db)" "mute_author m = i"
      using Some find_distinct [OF dist] by (simp_all add: find_mutes_def)
    have find: "find_mutes (db\<lparr>mute_lists := map ?g (mute_lists db)\<rparr>) a = (if a = i then Some (?g m) else find_mutes db a)" for a
    proof -
      have "find_mutes (db\<lparr>mute_lists := map ?g (mute_lists db)\<rparr>) a = map_option ?g (find_mutes db a)"
        by (simp add: find_mutes_def find_map_key)
      moreover have "mute_author r = a" if "find_mutes db a = Some r" for r
        using that find_distinct [OF dist] by (simp add: find_mutes_def)
      ultimately show ?thesis using Some by (cases "find_mutes db a") auto
    qed
    have "set (map mute_author (map ?g (mute_lists db))) = insert i (mute_author ` set (mute_lists db))"
      unfolding keys using m by auto
    then have "changed db True (fu_pubkey u) (fu_created_at u, fu_event_id u) (db_targets True db (fu_pubkey u))
        (db\<lparr>mute_lists := map ?g (mute_lists db)\<rparr>)"
      using set_mute_row [OF db k find] dist m(2) unfolding keys by simp
    then show ?thesis using n i Some by (simp add: upsert_mute_list_def)
  qed
qed

lemma upsert_follows_ok:
  assumes db: "db_wf db" and env: "env_ok env"
  shows "\<exists>d. upsert_follow_list env u now db = Ok ((), d) \<and>
    changed db False (fu_pubkey u) (fu_created_at u, fu_event_id u) (db_targets False db (fu_pubkey u)) d"
proof (cases "find_node db (fu_pubkey u)")
  case None
  let ?r = "\<lparr>node_id = fresh_rowid env (map node_id (nodes db)), node_pubkey = fu_pubkey u,
             node_event_id = fu_event_id u, node_created_at = fu_created_at u, node_updated_at = now\<rparr>"
  have nid: "db_id db (fu_pubkey u) = None" using None by (simp add: db_id_def)
  have meta: "db_meta True db (fu_pubkey u) = (None, None)" using None by (simp add: db_meta_def)
  note row = add_row [OF db, of ?r, simplified, OF None fresh_unused [OF env, of db, simplified]]
  have "changed db False (fu_pubkey u) (fu_created_at u, fu_event_id u) (db_targets False db (fu_pubkey u))
      (db\<lparr>nodes := nodes db @ [?r]\<rparr>)"
    unfolding changed_def row using row(1) meta nid
    by (auto simp: map_le_def fun_upd_idem)
  then show ?thesis using None by (simp add: upsert_follow_list_def)
next
  case (Some n)
  let ?g = "\<lambda>r. if node_pubkey r = fu_pubkey u
      then r\<lparr>node_event_id := fu_event_id u, node_created_at := fu_created_at u, node_updated_at := now\<rparr> else r"
  have g: "node_id (?g r) = node_id r \<and> node_pubkey (?g r) = node_pubkey r" for r by simp
  note rows = map_rows [OF db, of ?g, OF g]
  have name: "node_pubkey r = a" if "find_node db a = Some r" for a r
    using that find_distinct [of node_pubkey "nodes db"] db by (simp add: find_node_def db_wf_def)
  have "db_meta b (db\<lparr>nodes := map ?g (nodes db)\<rparr>) a =
      (if a = fu_pubkey u \<and> \<not> b then (fu_created_at u, fu_event_id u) else db_meta b db a)" for a b
    unfolding db_meta_def rows using Some by (cases "find_node db a") (auto dest: name)
  then have "changed db False (fu_pubkey u) (fu_created_at u, fu_event_id u) (db_targets False db (fu_pubkey u))
      (db\<lparr>nodes := map ?g (nodes db)\<rparr>)"
    unfolding changed_def rows using rows(1) Some by (auto simp: db_id_def)
  then show ?thesis using Some by (simp add: upsert_follow_list_def)
qed

lemma set_edge_table_fields [simp]:
  "nodes (set_edge_table mute es db) = nodes db" "mute_lists (set_edge_table mute es db) = mute_lists db"
  "sync_states (set_edge_table mute es db) = sync_states db"
  "edge_table b (set_edge_table mute es db) = (if b = mute then es else edge_table b db)"
  by (auto simp: set_edge_table_def edge_table_def)

text \<open>Editing the edges of the author whose list is being written.\<close>

lemma edit_edges:
  assumes c: "changed db mute k m T d" and i: "db_id d k = Some i"
    and es: "distinct es" "set es \<subseteq> set (edge_table mute d) \<union> {i} \<times> node_id ` set (nodes d)"
    and others: "\<And>f t. f \<noteq> i \<Longrightarrow> (f, t) \<in> set (edge_table mute d) \<Longrightarrow> (f, t) \<in> set es"
  shows "changed db mute k m {b. \<exists>j. db_id d b = Some j \<and> (i, j) \<in> set es} (set_edge_table mute es d)"
proof -
  let ?d = "set_edge_table mute es d"
  have d: "db_wf d" using c by (simp add: changed_def)
  have ids: "db_id ?d = db_id d" "find_node ?d = find_node d" "find_mutes ?d = find_mutes d"
    by (simp_all add: fun_eq_iff db_id_def find_node_def find_mutes_def)
  have i_node: "i \<in> node_id ` set (nodes d)" using ran_db_id [OF d] i by (metis ranI)
  have "mute \<Longrightarrow> db_known d k" using c by (simp add: changed_def)
  then have "mute \<Longrightarrow> i \<in> mute_author ` set (mute_lists d)"
    using i by (simp add: db_known_def find_mutes_def find_None)
  then have wf: "db_wf ?d"
    using d es i_node by (cases mute) (auto simp: db_wf_def edge_table_def set_edge_table_def)
  have "db_meta b ?d = db_meta b d" "db_known ?d = db_known d" for b
    by (simp_all add: fun_eq_iff db_meta_def db_known_def ids split: option.split)
  moreover have "db_targets (\<not> mute) ?d = db_targets (\<not> mute) d"
    by (simp add: fun_eq_iff db_targets_def ids split: option.split)
  moreover have "x \<in> db_targets mute ?d a \<longleftrightarrow>
      x \<in> ((db_targets mute d)(k := {b. \<exists>j. db_id d b = Some j \<and> (i, j) \<in> set es})) a" for x a
  proof (cases "a = k")
    case True
    then show ?thesis using i by (auto simp: db_targets_iff [OF wf] ids)
  next
    case False
    then have "db_id d a \<noteq> Some i" using db_id_inj [OF d i] by auto
    then show ?thesis
      using False es(2) others by (fastforce simp: db_targets_iff [OF wf] db_targets_iff [OF d] ids)
  qed
  ultimately show ?thesis
    using c wf by (auto simp: changed_def ids fun_eq_iff)
qed

lemma changed_targets:
  assumes c: "changed db mute k m T d" and i: "db_id d k = Some i"
  shows "b \<in> T \<longleftrightarrow> (\<exists>j. db_id d b = Some j \<and> (i, j) \<in> set (edge_table mute d))"
proof -
  have "db_targets mute d k = T" "db_wf d" using c by (simp_all add: changed_def)
  then show ?thesis using i db_targets_iff [of d b mute k] by simp
qed

lemma delete_edge_ok:
  assumes c: "changed db mute k m T d" and i: "db_id d k = Some i" and j: "db_id d b = Some j"
  shows "\<exists>d'. delete_edge mute i j d = Ok ((), d') \<and> changed db mute k m (T - {b}) d' \<and> db_id d' = db_id d"
proof -
  let ?es = "filter (\<lambda>e. e \<noteq> (i, j)) (edge_table mute d)"
  have d: "db_wf d" using c by (simp add: changed_def)
  then have "distinct ?es" by (simp add: db_wf_def edge_table_def)
  then have "changed db mute k m {b. \<exists>j. db_id d b = Some j \<and> (i, j) \<in> set ?es} (set_edge_table mute ?es d)"
    by (intro edit_edges [OF c i]) auto
  moreover have "{b. \<exists>j. db_id d b = Some j \<and> (i, j) \<in> set ?es} = T - {b}"
  proof (rule set_eqI)
    fix x
    have "x = b \<longleftrightarrow> db_id d x = Some j" using db_id_inj [OF d j, of x] j by blast
    then show "x \<in> {b. \<exists>j. db_id d b = Some j \<and> (i, j) \<in> set ?es} \<longleftrightarrow> x \<in> T - {b}"
      using changed_targets [OF c i, of x] by (cases "db_id d x") auto
  qed
  ultimately show ?thesis by (simp add: delete_edge_def fun_eq_iff db_id_def find_node_def)
qed

lemma insert_edge_ok:
  assumes c: "changed db mute k m T d" and i: "db_id d k = Some i" and j: "db_id d b = Some j" and new: "b \<notin> T"
  shows "\<exists>d'. insert_edge env mute i j d = Ok ((), d') \<and> changed db mute k m (insert b T) d' \<and> db_id d' = db_id d"
proof -
  let ?es = "edge_table mute d @ [(i, j)]"
  have d: "db_wf d" using c by (simp add: changed_def)
  have n: "(i, j) \<notin> set (edge_table mute d)" using new j by (simp add: changed_targets [OF c i])
  have ends: "i \<in> node_id ` set (nodes d)" "j \<in> node_id ` set (nodes d)"
    using ran_db_id [OF d] i j by (metis ranI)+
  have "distinct ?es" using d n by (simp add: db_wf_def edge_table_def)
  then have "changed db mute k m {b. \<exists>j. db_id d b = Some j \<and> (i, j) \<in> set ?es} (set_edge_table mute ?es d)"
    using ends by (intro edit_edges [OF c i]) auto
  moreover have "{b. \<exists>j. db_id d b = Some j \<and> (i, j) \<in> set ?es} = insert b T"
  proof (rule set_eqI)
    fix x
    have "x = b \<longleftrightarrow> db_id d x = Some j" using db_id_inj [OF d j, of x] j by blast
    then show "x \<in> {b. \<exists>j. db_id d b = Some j \<and> (i, j) \<in> set ?es} \<longleftrightarrow> x \<in> insert b T"
      using changed_targets [OF c i, of x] by (cases "db_id d x") auto
  qed
  ultimately show ?thesis using n ends by (simp add: insert_edge_def fun_eq_iff db_id_def find_node_def)
qed

section \<open>Replacing a list\<close>

lemma grows_changed: "grows db d \<Longrightarrow> changed d mute k m T d' \<Longrightarrow> changed db mute k m T d'"
  unfolding changed_def grows_def by (cases mute) (auto intro: map_le_trans)

lemma grows_trans: "grows db d \<Longrightarrow> grows d d' \<Longrightarrow> grows db d'"
  unfolding grows_def by (auto intro: map_le_trans)

lemma hash_collect_rows:
  "distinct (map fst (hash_collect found)) \<and> fst ` set (hash_collect found) = fst ` set found \<and>
   set (hash_collect found) \<subseteq> set found"
proof (induction found rule: rev_induct)
  case Nil
  then show ?case by (simp add: hash_collect_def)
next
  case (snoc p found)
  obtain k v where p: "p = (k, v)" by (cases p)
  have step: "hash_collect (found @ [p]) = AList.update k v (hash_collect found)"
    by (simp add: hash_collect_def p)
  have dist: "distinct (map fst (AList.update k v (hash_collect found)))"
    using snoc by (simp add: distinct_update)
  have "set (AList.update k v (hash_collect found)) \<subseteq> insert (k, v) (set (hash_collect found))"
  proof
    fix q assume "q \<in> set (AList.update k v (hash_collect found))"
    then have "map_of (AList.update k v (hash_collect found)) (fst q) = Some (snd q)"
      using dist by (simp add: map_of_eq_Some_iff)
    then show "q \<in> insert (k, v) (set (hash_collect found))"
      using snoc by (auto simp: update_conv' map_of_eq_Some_iff split: if_splits)
  qed
  moreover have "fst ` set (AList.update k v (hash_collect found)) = insert k (fst ` set found)"
    using snoc by (simp add: dom_update)
  ultimately show ?case unfolding step using snoc dist by (auto simp: p)
qed

lemma old_edges_ok:
  assumes d: "db_wf d" and i: "db_id d k = Some i"
  shows "\<exists>found. old_edges mute i d = Ok (found, d) \<and>
    (\<forall>b j. (b, j) \<in> set found \<longleftrightarrow> db_id d b = Some j \<and> (i, j) \<in> set (edge_table mute d))"
proof -
  let ?found = "concat (map (\<lambda>(f, t). if f = i then map (\<lambda>n. (node_pubkey n, t)) (filter (\<lambda>n. node_id n = t) (nodes d)) else [])
           (edge_table mute d))"
  have "(b, j) \<in> set ?found \<longleftrightarrow> db_id d b = Some j \<and> (i, j) \<in> set (edge_table mute d)" for b j
    unfolding db_id_node [OF d] by (force split: if_splits)
  then show ?thesis by (simp add: old_edges_def)
qed

lemma get_id_ok: "db_id d pk = Some i \<Longrightarrow> get_id mute pk d = Ok (i, d)"
  by (auto simp: get_id_def get_node_def db_id_def split: option.split)

lemma drop_targets_ok:
  assumes c: "changed db mute k m T d" and i: "db_id d k = Some i"
    and ps: "\<And>b j. (b, j) \<in> set ps \<Longrightarrow> db_id d b = Some j"
  shows "runs (faulty env) (\<lambda>_ d'. changed db mute k m (T - (fst ` set ps - set desired)) d' \<and> db_id d' = db_id d)
    (sql_for (drop_target env mute i desired) ps ()) (n, d)"
proof (rule runs_for)
  show "changed db mute k m (T - (fst ` set [] - set desired)) d \<and> db_id d = db_id d" using c by simp
next
  fix done' x acc n d'
  assume I: "changed db mute k m (T - (fst ` set done' - set desired)) d' \<and> db_id d' = db_id d"
    and "\<exists>rest. ps = done' @ x # rest"
  then have x: "db_id d' (fst x) = Some (snd x)" using ps [of "fst x" "snd x"] by auto
  show "runs (faulty env) (\<lambda>acc' d''. changed db mute k m (T - (fst ` set (done' @ [x]) - set desired)) d'' \<and> db_id d'' = db_id d)
      (drop_target env mute i desired x acc) (n, d')"
  proof (cases "fst x \<in> set desired")
    case True
    then have "fst ` set (done' @ [x]) - set desired = fst ` set done' - set desired" by auto
    then show ?thesis using True I by (simp add: drop_target_def)
  next
    case False
    obtain d'' where d'': "delete_edge mute i (snd x) d' = Ok ((), d'')"
      "changed db mute k m (T - (fst ` set done' - set desired) - {fst x}) d''" "db_id d'' = db_id d'"
      using delete_edge_ok [OF conjunct1 [OF I] _ x] I i by auto
    have "T - (fst ` set (done' @ [x]) - set desired) = T - (fst ` set done' - set desired) - {fst x}"
      using False by auto
    from this [symmetric] have "runs (faulty env) (\<lambda>acc' d''. changed db mute k m (T - (fst ` set (done' @ [x]) - set desired)) d'' \<and> db_id d'' = db_id d)
        (exec env (delete_edge mute i (snd x))) (n, d')"
      using d'' I by - (rule runs_exec, assumption, simp)
    then show ?thesis using False by (simp add: drop_target_def)
  qed
qed

lemma add_target_ok:
  assumes c: "changed db mute k m T d" and i: "db_id d k = Some i" and env: "env_ok env"
    and ids: "ids \<subseteq>\<^sub>m db_id d" and new: "map_of previous pk = None \<Longrightarrow> pk \<notin> T"
    and old: "map_of previous pk \<noteq> None \<Longrightarrow> pk \<in> T"
  shows "runs (faulty env) (\<lambda>ids' d'. changed db mute k m (insert pk T) d' \<and> ids' \<subseteq>\<^sub>m db_id d' \<and> db_id d' k = Some i)
    (add_target env mute now i previous pk ids) (n, d)"
proof (cases "map_of previous pk")
  case (Some j)
  then have "insert pk T = T" using old by auto
  then show ?thesis using Some c ids i by (simp add: add_target_def)
next
  case None
  have get: "runs (faulty env) (\<lambda>(j, ids') d'. changed db mute k m T d' \<and> ids' \<subseteq>\<^sub>m db_id d' \<and> db_id d' k = Some i \<and> db_id d' pk = Some j)
      (case ids pk of
             Some i \<Rightarrow> sql_return (i, ids)
           | None \<Rightarrow>
               sql_bind (exec env (insert_node env pk now)) (\<lambda>_.
               sql_bind (exec env (get_id mute pk)) (\<lambda>i.
               sql_return (i, ids(pk \<mapsto> i))))) (n, d)"
  proof (cases "ids pk")
    case (Some j)
    then have "db_id d pk = Some j" using ids by (metis domI map_le_def)
    then show ?thesis using Some c ids i by simp
  next
    case None
    have d: "db_wf d" using c by (simp add: changed_def)
    obtain d1 j where d1: "insert_node env pk now d = Ok ((), d1)" "grows d d1" "db_id d1 pk = Some j"
      using insert_node_ok [OF d env] by blast
    have le: "db_id d \<subseteq>\<^sub>m db_id d1" using d1(2) by (simp add: grows_def)
    have "ids(pk \<mapsto> j) \<subseteq>\<^sub>m db_id d1" using map_le_trans [OF ids le] d1(3) by (auto simp: map_le_def)
    moreover have "db_id d1 k = Some i" using le i by (metis domI map_le_def)
    ultimately show ?thesis
      unfolding None option.case using changed_grows [OF c d1(2)] d1(3)
      by (intro runs_step) (rule d1(1), rule get_id_ok [OF d1(3)], auto)
  qed
  have put: "runs (faulty env) (\<lambda>ids' d'. changed db mute k m (insert pk T) d' \<and> ids' \<subseteq>\<^sub>m db_id d' \<and> db_id d' k = Some i)
      (case x of (followed_id, ids1) \<Rightarrow> sql_bind (exec env (insert_edge env mute i followed_id)) (\<lambda>_. sql_return ids1)) (n', d')"
    if got: "case x of (j, ids') \<Rightarrow> changed db mute k m T d' \<and> ids' \<subseteq>\<^sub>m db_id d' \<and> db_id d' k = Some i \<and> db_id d' pk = Some j"
    for x n' d'
  proof -
    obtain j ids' where x: "x = (j, ids')" "changed db mute k m T d'" "ids' \<subseteq>\<^sub>m db_id d'" "db_id d' k = Some i"
      "db_id d' pk = Some j"
      using got by (cases x) auto
    obtain d'' where d'': "insert_edge env mute i j d' = Ok ((), d'')" "changed db mute k m (insert pk T) d''" "db_id d'' = db_id d'"
      using insert_edge_ok [OF x(2,4,5) new [OF None]] by blast
    show ?thesis
      unfolding x(1) prod.case by (rule runs_step, rule d''(1)) (use x d'' in simp)
  qed
  show ?thesis
    unfolding add_target_def using None by (simp, intro runs_bind [OF get]) (rule put, auto split: prod.splits)
qed

lemma add_targets_ok:
  assumes c: "changed db mute k m T d" and i: "db_id d k = Some i" and env: "env_ok env"
    and ids: "ids \<subseteq>\<^sub>m db_id d" and previous: "\<And>pk. pk \<in> set desired \<Longrightarrow> map_of previous pk \<noteq> None \<longleftrightarrow> pk \<in> T"
    and dist: "distinct desired"
  shows "runs (faulty env) (\<lambda>ids' d'. changed db mute k m (T \<union> set desired) d' \<and> ids' \<subseteq>\<^sub>m db_id d')
    (sql_for (add_target env mute now i previous) desired ids) (n, d)"
proof -
  let ?I = "\<lambda>done' ids' d'. changed db mute k m (T \<union> set done') d' \<and> ids' \<subseteq>\<^sub>m db_id d' \<and> db_id d' k = Some i"
  have "runs (faulty env) (?I desired) (sql_for (add_target env mute now i previous) desired ids) (n, d)"
  proof (rule runs_for)
    show "?I [] ids d" using c ids i by simp
  next
    fix done' x ids' n d'
    assume I: "?I done' ids' d'" and "\<exists>rest. desired = done' @ x # rest"
    then have x: "x \<notin> set done'" "x \<in> set desired" using dist by auto
    have "runs (faulty env) (\<lambda>ids' d'. changed db mute k m (insert x (T \<union> set done')) d' \<and> ids' \<subseteq>\<^sub>m db_id d' \<and> db_id d' k = Some i)
        (add_target env mute now i previous x ids') (n, d')"
      using I previous [OF x(2)] x(1) by (intro add_target_ok [OF _ _ env]) auto
    then show "runs (faulty env) (?I (done' @ [x])) (add_target env mute now i previous x ids') (n, d')"
      by (rule runs_mono) simp
  qed
  then show ?thesis by (rule runs_mono) simp
qed

lemma replace_list_ok:
  assumes db: "db_wf db" and env: "env_ok env" and ids: "ids \<subseteq>\<^sub>m db_id db"
  shows "runs (faulty env)
    (\<lambda>ids' d. changed db mute (fu_pubkey u) (fu_created_at u, fu_event_id u) (set (fu_follows u)) d \<and> ids' \<subseteq>\<^sub>m db_id d)
    (replace_list env mute now u ids) (n, db)"
proof -
  let ?k = "fu_pubkey u" and ?m = "(fu_created_at u, fu_event_id u)" and ?T = "db_targets mute db (fu_pubkey u)"
  have start: "runs (faulty env) (\<lambda>_ d. grows db d \<and> (mute \<longrightarrow> db_id d ?k \<noteq> None))
      (if mute then exec env (insert_node env ?k now) else sql_return ()) (n, db)" for n
  proof (cases mute)
    case True
    obtain d where d: "insert_node env ?k now db = Ok ((), d)" "grows db d" "db_id d ?k \<noteq> None"
      using insert_node_ok [OF db env] by blast
    then show ?thesis using True by (simp, intro runs_exec) auto
  qed (simp add: grows_refl [OF db])
  have upsert: "\<exists>d'. upsert_list env mute u now d = Ok ((), d') \<and> changed db mute ?k ?m ?T d'"
    if "grows db d \<and> (mute \<longrightarrow> db_id d ?k \<noteq> None)" for d
  proof -
    have d: "db_wf d" "db_targets mute d = db_targets mute db" using that by (cases mute; simp add: grows_def)+
    have "\<exists>d'. upsert_list env mute u now d = Ok ((), d') \<and> changed d mute ?k ?m (db_targets mute d ?k) d'"
      using upsert_mutes_ok [OF d(1)] upsert_follows_ok [OF d(1) env] that by (cases mute) (auto simp: upsert_list_def)
    then show ?thesis using grows_changed that d(2) by fastforce
  qed
  show ?thesis
    unfolding replace_list_def Let_def
  proof (rule runs_bind [OF start])
    fix x n1 d1
    assume "grows db d1 \<and> (mute \<longrightarrow> db_id d1 ?k \<noteq> None)"
    then obtain d where d: "upsert_list env mute u now d1 = Ok ((), d)" "changed db mute ?k ?m ?T d"
      using upsert by blast
    then obtain i where i: "db_id d ?k = Some i" and wf: "db_wf d" and le: "db_id db \<subseteq>\<^sub>m db_id d"
      by (auto simp: changed_def)
    obtain found where found: "old_edges mute i d = Ok (found, d)"
      "\<And>b j. (b, j) \<in> set found \<longleftrightarrow> db_id d b = Some j \<and> (i, j) \<in> set (edge_table mute d)"
      using old_edges_ok [OF wf i] by blast
    let ?prev = "hash_collect found" and ?desired = "remdups (fu_follows u)"
    have prev: "(b, j) \<in> set ?prev \<Longrightarrow> db_id d b = Some j" "fst ` set ?prev = ?T" "map_of ?prev b \<noteq> None \<longleftrightarrow> b \<in> ?T" for b j
    proof -
      show "(b, j) \<in> set ?prev \<Longrightarrow> db_id d b = Some j" using hash_collect_rows [of found] found(2) by blast
      show fst: "fst ` set ?prev = ?T"
      proof (rule set_eqI)
        fix b
        have "b \<in> fst ` set ?prev \<longleftrightarrow> (\<exists>j. (b, j) \<in> set found)"
          using hash_collect_rows [of found] by force
        then show "b \<in> fst ` set ?prev \<longleftrightarrow> b \<in> ?T"
          unfolding found(2) changed_targets [OF d(2) i] .
      qed
      show "map_of ?prev b \<noteq> None \<longleftrightarrow> b \<in> ?T" by (simp add: map_of_eq_None_iff fst)
    qed
    have drop: "runs (faulty env) (\<lambda>_ d'. changed db mute ?k ?m (?T \<inter> set ?desired) d' \<and> db_id d' = db_id d)
        (sql_for (drop_target env mute i ?desired) (order_previous env ?prev) ()) (n', d)" for n'
    proof -
      have "?T - (fst ` set (order_previous env ?prev) - set ?desired) = ?T \<inter> set ?desired"
        using prev(2) env_order(2) [OF env] by auto
      then show ?thesis
        using drop_targets_ok [OF d(2) i, of "order_previous env ?prev" env ?desired n'] prev(1) env_order(2) [OF env] by simp
    qed
    have add: "runs (faulty env) (\<lambda>ids' d'. changed db mute ?k ?m (set (fu_follows u)) d' \<and> ids' \<subseteq>\<^sub>m db_id d')
        (sql_for (add_target env mute now i ?prev) (order_desired env ?desired) (ids(?k \<mapsto> i))) (n', d')"
      if "changed db mute ?k ?m (?T \<inter> set ?desired) d' \<and> db_id d' = db_id d" for n' d'
    proof -
      have "ids(?k \<mapsto> i) \<subseteq>\<^sub>m db_id d" using map_le_trans [OF ids le] i by (auto simp: map_le_def)
      then have "runs (faulty env) (\<lambda>ids' d'. changed db mute ?k ?m (?T \<inter> set ?desired \<union> set (order_desired env ?desired)) d' \<and> ids' \<subseteq>\<^sub>m db_id d')
        (sql_for (add_target env mute now i ?prev) (order_desired env ?desired) (ids(?k \<mapsto> i))) (n', d')"
        using that i prev(3) env_order(3,4) [OF env] by (intro add_targets_ok [OF _ _ env]) auto
      then show ?thesis using env_order(3) [OF env] by (elim runs_mono) (simp add: Un_absorb1)
    qed
    show "runs (faulty env) (\<lambda>ids' d. changed db mute ?k ?m (set (fu_follows u)) d \<and> ids' \<subseteq>\<^sub>m db_id d)
      (sql_bind (exec env (upsert_list env mute u now)) (\<lambda>_.
       sql_bind (exec env (get_id mute ?k)) (\<lambda>follower_id.
       sql_bind (exec env (old_edges mute follower_id)) (\<lambda>found.
         sql_bind (sql_for (drop_target env mute follower_id ?desired) (order_previous env (hash_collect found)) ()) (\<lambda>_.
          sql_for (add_target env mute now follower_id (hash_collect found)) (order_desired env ?desired)
            (ids(?k \<mapsto> follower_id))))))) (n1, d1)"
      by (rule runs_step, rule d(1), rule runs_step, rule get_id_ok [OF i], rule runs_step, rule found(1),
          rule runs_bind [OF drop add])
  qed
qed

end
