(* ===== verification/DatabaseBatch.thy ===== *)
theory DatabaseBatch
  imports DatabaseSpec
begin

text \<open>
  The batch operation \<open>update_lists_batch\<close>: it fails only where a statement faults, then the
  tables are the old ones, and a batch that commits stores what its updates would store one after
  another, in whatever order the hash tables hand out the winners. Under an environment without
  faults the database is a \<open>lww_store\<close> for each of its two kinds of list. The single-statement
  operations follow.
\<close>

section \<open>Batches\<close>

text \<open>What one update does to the cells of its table.\<close>

type_synonym cells = "string \<Rightarrow> meta \<times> string set"

definition update_meta :: "follow_update_batch \<Rightarrow> meta" where
  "update_meta u = (fu_created_at u, fu_event_id u)"

text \<open>\<open>wrap\<close> is what a list shows: its set, or \<open>Some\<close> of it where a list can be unknown.\<close>

definition pick_update :: "(string list \<Rightarrow> 'c) \<Rightarrow> follow_update_batch \<Rightarrow> meta \<times> 'c \<Rightarrow> meta \<times> 'c" where
  "pick_update wrap u c = (if accepts (fst c) (update_meta u) then (update_meta u, wrap (fu_follows u)) else c)"

definition put_update :: "(string list \<Rightarrow> 'c) \<Rightarrow> follow_update_batch \<Rightarrow> (string \<Rightarrow> meta \<times> 'c) \<Rightarrow> string \<Rightarrow> meta \<times> 'c" where
  "put_update wrap u c = c(fu_pubkey u := pick_update wrap u (c (fu_pubkey u)))"

definition stored :: "bool \<Rightarrow> database \<Rightarrow> cells" where
  "stored mute db a = (db_meta mute db a, db_targets mute db a)"

lemma fold_put_at: "fold (put_update wrap) us c a = fold (pick_update wrap) (filter (\<lambda>u. fu_pubkey u = a) us) (c a)"
  by (induction us arbitrary: c) (auto simp: put_update_def)

text \<open>The order of acceptance is transitive, and so is its complement.\<close>

lemma accepts_trans: "accepts a b \<Longrightarrow> accepts b c \<Longrightarrow> accepts a c"
  by (auto simp: accepts_event_def split: option.splits)

lemma rejects_trans: "\<not> accepts a b \<Longrightarrow> \<not> accepts b c \<Longrightarrow> \<not> accepts a c"
  by (auto simp: accepts_event_def split: option.splits)

lemma pick_update_pick:
  "pick_update wrap u (pick_update wrap w c) =
     (if accepts (update_meta w) (update_meta u) then pick_update wrap u c else pick_update wrap w c)"
  using accepts_trans [of "fst c" "update_meta w" "update_meta u"] rejects_trans [of "fst c" "update_meta w" "update_meta u"]
  by (auto simp: pick_update_def)

definition best_of :: "follow_update_batch list \<Rightarrow> follow_update_batch option" where
  "best_of us = fold (\<lambda>u b. case b of None \<Rightarrow> Some u
       | Some w \<Rightarrow> if accepts (update_meta w) (update_meta u) then Some u else Some w) us None"

lemma best_of_snoc:
  "best_of (us @ [u]) = (case best_of us of None \<Rightarrow> Some u
     | Some w \<Rightarrow> if accepts (update_meta w) (update_meta u) then Some u else Some w)"
  by (simp add: best_of_def)

lemma fold_pick_best: "fold (pick_update wrap) us c = (case best_of us of None \<Rightarrow> c | Some w \<Rightarrow> pick_update wrap w c)"
proof (induction us rule: rev_induct)
  case Nil
  then show ?case by (simp add: best_of_def)
next
  case (snoc u us)
  then show ?case by (auto simp: best_of_snoc pick_update_pick split: option.split)
qed

lemma winners_of_snoc: "winners_of (us @ [u]) = add_winner u (winners_of us)"
  by (simp add: winners_of_def)

lemma winners_of_best: "map_of (winners_of us) a = best_of (filter (\<lambda>u. fu_pubkey u = a) us)"
proof (induction us rule: rev_induct)
  case Nil
  then show ?case by (simp add: winners_of_def best_of_def)
next
  case (snoc u us)
  have wins: "event_wins (fu_created_at u) (fu_event_id u) (fu_created_at w) (fu_event_id w) =
      accepts (update_meta w) (update_meta u)" for w
    by (simp add: event_wins_accepts update_meta_def)
  show ?case
  proof (cases "fu_pubkey u = a")
    case True
    then show ?thesis
      using snoc by (auto simp: winners_of_snoc add_winner_def best_of_snoc wins update_conv' split: option.split)
  next
    case False
    then show ?thesis
      using snoc by (auto simp: winners_of_snoc add_winner_def update_conv' split: option.split)
  qed
qed

lemma winners_of_keys:
  "distinct (map fst (winners_of us)) \<and> (\<forall>(a, w) \<in> set (winners_of us). fu_pubkey w = a \<and> w \<in> set us)"
proof (induction us rule: rev_induct)
  case Nil
  then show ?case by (simp add: winners_of_def)
next
  case (snoc u us)
  have "distinct (map fst (AList.update (fu_pubkey u) u (winners_of us)))"
    using snoc by (simp add: distinct_update)
  moreover have "fu_pubkey w = a \<and> w \<in> set (us @ [u])"
    if "(a, w) \<in> set (AList.update (fu_pubkey u) u (winners_of us))" for a w
  proof -
    have "map_of (AList.update (fu_pubkey u) u (winners_of us)) a = Some w"
      using that calculation by simp
    then show ?thesis using snoc by (auto simp: update_conv' split: if_splits dest!: map_of_SomeD)
  qed
  ultimately show ?case
    using snoc by (auto simp: winners_of_snoc add_winner_def split: option.split)
qed

lemma winners_authors:
  "map fu_pubkey (map snd (winners_of us)) = map fst (winners_of us)"
  "distinct (map fu_pubkey (map snd (winners_of us)))"
proof -
  show keys: "map fu_pubkey (map snd (winners_of us)) = map fst (winners_of us)"
    using winners_of_keys [of us] by (auto intro!: map_cong)
  then show "distinct (map fu_pubkey (map snd (winners_of us)))"
    using winners_of_keys [of us] by (metis)
qed

text \<open>Writing the winners, in any order, is writing all updates one after another.\<close>

lemma filter_single:
  "distinct (map f ws) \<Longrightarrow> w \<in> set ws \<Longrightarrow> filter (\<lambda>u. f u = f w) ws = [w]"
proof (induction ws)
  case (Cons u ws)
  show ?case
  proof (cases "u = w")
    case True
    then have "\<forall>x \<in> set ws. f x \<noteq> f w" using Cons.prems by (metis distinct.simps(2) image_eqI list.set_map list.simps(9))
    then show ?thesis using True by (simp add: filter_empty_conv)
  next
    case False
    then have "w \<in> set ws" "f u \<noteq> f w" using Cons.prems by auto
    then show ?thesis using Cons by simp
  qed
qed simp

lemma fold_winners:
  assumes "env_ok env"
  shows "fold (put_update wrap) (order_winners env (map snd (winners_of us))) c = fold (put_update wrap) us c"
proof (rule ext)
  fix a
  let ?ws = "order_winners env (map snd (winners_of us))"
  have set: "set ?ws = snd ` set (winners_of us)" using env_order(1) [OF assms] by simp
  have dist: "distinct (map fu_pubkey ?ws)"
    using env_order(5) [OF assms] winners_authors(2) by blast
  have "fold (pick_update wrap) (filter (\<lambda>u. fu_pubkey u = a) ?ws) (c a) =
      (case map_of (winners_of us) a of None \<Rightarrow> c a | Some w \<Rightarrow> pick_update wrap w (c a))"
  proof (cases "map_of (winners_of us) a")
    case None
    then have "a \<notin> fst ` set (winners_of us)" by (simp add: map_of_eq_None_iff)
    then have "filter (\<lambda>u. fu_pubkey u = a) ?ws = []"
      using winners_of_keys [of us] by (force simp: filter_empty_conv set)
    then show ?thesis by (simp only: None fold.simps id_apply option.case)
  next
    case (Some w)
    then have w: "w \<in> set ?ws" "fu_pubkey w = a"
      using winners_of_keys [of us] set by (auto dest!: map_of_SomeD intro: rev_image_eqI)
    have "filter (\<lambda>u. fu_pubkey u = a) ?ws = [w]"
      using filter_single [OF dist w(1)] unfolding w(2) .
    then show ?thesis using Some by simp
  qed
  then show "fold (put_update wrap) ?ws c a = fold (put_update wrap) us c a"
    by (simp add: fold_put_at winners_of_best fold_pick_best)
qed

text \<open>\<open>wrote db mute us d\<close>: \<open>d\<close> is \<open>db\<close> after the updates \<open>us\<close> of one table.\<close>

definition wrote :: "database \<Rightarrow> bool \<Rightarrow> follow_update_batch list \<Rightarrow> database \<Rightarrow> bool" where
  "wrote db mute us d \<longleftrightarrow>
     db_wf d \<and> db_id db \<subseteq>\<^sub>m db_id d \<and> stored mute d = fold (put_update set) us (stored mute db) \<and>
     stored (\<not> mute) d = stored (\<not> mute) db \<and>
     db_known d = (\<lambda>a. db_known db a \<or> mute \<and> a \<in> fu_pubkey ` set us) \<and> sync_states d = sync_states db"

lemma wrote_refl: "db_wf db \<Longrightarrow> wrote db mute [] db"
  by (simp add: wrote_def)

lemma wrote_changed:
  assumes w: "wrote db mute us d" and acc: "accepts (db_meta mute d (fu_pubkey u)) (update_meta u)"
    and c: "changed d mute (fu_pubkey u) (update_meta u) (set (fu_follows u)) d'"
  shows "wrote db mute (us @ [u]) d'"
proof -
  have "stored mute d' = put_update set u (stored mute d)"
    using c acc by (auto simp: changed_def stored_def put_update_def pick_update_def fun_eq_iff)
  moreover have "stored (\<not> mute) d' = stored (\<not> mute) d"
    using c by (auto simp: changed_def stored_def fun_eq_iff)
  moreover have "db_known d' = (\<lambda>a. db_known d a \<or> mute \<and> a = fu_pubkey u)"
    using c by (auto simp: changed_def fun_eq_iff)
  moreover have "db_wf d'" "db_id d \<subseteq>\<^sub>m db_id d'" "sync_states d' = sync_states d"
    using c by (simp_all add: changed_def)
  ultimately show ?thesis
    using w map_le_trans [of "db_id db" "db_id d" "db_id d'"] by (auto simp: wrote_def)
qed

lemma wrote_rejected:
  assumes w: "wrote db mute us d" and rej: "\<not> accepts (db_meta mute d (fu_pubkey u)) (update_meta u)"
  shows "wrote db mute (us @ [u]) d"
proof -
  have "put_update set u (stored mute d) = stored mute d"
    using rej by (simp add: put_update_def pick_update_def stored_def fun_upd_idem_iff)
  moreover have "mute \<Longrightarrow> db_known d (fu_pubkey u)"
    using rej db_known_meta [of d "fu_pubkey u"] by (cases "db_known d (fu_pubkey u)") auto
  ultimately show ?thesis using w by (auto simp: wrote_def)
qed

lemma get_node_ok:
  "\<exists>existing. get_node mute (fu_pubkey u) d = Ok (existing, d) \<and>
    (case existing of Some (_, eid, ts) \<Rightarrow> \<not> event_wins (fu_created_at u) (fu_event_id u) ts eid | None \<Rightarrow> False) =
    (\<not> accepts (db_meta mute d (fu_pubkey u)) (update_meta u))"
  by (simp add: get_node_def db_meta_def update_meta_def event_wins_accepts split: option.split)

definition accepted_by :: "cells \<Rightarrow> follow_update_batch \<Rightarrow> bool" where
  "accepted_by c u \<longleftrightarrow> accepts (fst (c (fu_pubkey u))) (update_meta u)"

lemma write_update_ok:
  assumes w: "wrote db mute us d" and env: "env_ok env" and ids: "ids \<subseteq>\<^sub>m db_id d"
    and new: "fu_pubkey u \<notin> fu_pubkey ` set us"
  shows "runs (faulty env)
    (\<lambda>(ids', n) d'. wrote db mute (us @ [u]) d' \<and> ids' \<subseteq>\<^sub>m db_id d' \<and>
       n = accepted + (if accepted_by (stored mute db) u then 1 else 0))
    (write_update env mute now u (ids, accepted)) (i, d)"
proof -
  have d: "db_wf d" using w by (simp add: wrote_def)
  have "filter (\<lambda>v. fu_pubkey v = fu_pubkey u) us = []"
    using new by (auto simp: filter_empty_conv image_iff)
  then have "stored mute d (fu_pubkey u) = stored mute db (fu_pubkey u)"
    using w by (simp add: wrote_def fold_put_at)
  then have acc_eq: "accepted_by (stored mute db) u = accepts (db_meta mute d (fu_pubkey u)) (update_meta u)"
    by (simp add: accepted_by_def stored_def)
  obtain existing where ex: "get_node mute (fu_pubkey u) d = Ok (existing, d)"
    "(case existing of Some (_, eid, ts) \<Rightarrow> \<not> event_wins (fu_created_at u) (fu_event_id u) ts eid | None \<Rightarrow> False) =
      (\<not> accepted_by (stored mute db) u)"
    using get_node_ok [of mute u d] unfolding acc_eq by blast
  have replace: "runs (faulty env) (\<lambda>ids' d'. changed d mute (fu_pubkey u) (update_meta u) (set (fu_follows u)) d' \<and> ids' \<subseteq>\<^sub>m db_id d')
      (replace_list env mute now u ids) (i', d)" for i'
    using replace_list_ok [OF d env ids] by (simp add: update_meta_def)
  show ?thesis
    unfolding write_update_def prod.case
    by (rule runs_step, rule ex(1), unfold ex(2), cases "accepted_by (stored mute db) u")
      (use acc_eq ids wrote_rejected [OF w] wrote_changed [OF w] in \<open>auto intro!: runs_bind [OF replace]\<close>)
qed

lemma batch_transaction_ok:
  assumes db: "db_wf db" and env: "env_ok env"
  shows "runs (faulty env)
    (\<lambda>n d. wrote db mute us d \<and> n = length (filter (accepted_by (stored mute db)) (map snd (winners_of us))))
    (batch_transaction env now mute us) (0, db)"
proof -
  let ?ws = "order_winners env (map snd (winners_of us))"
  let ?I = "\<lambda>done' (ids, n) d. wrote db mute done' d \<and> ids \<subseteq>\<^sub>m db_id d \<and>
    n = length (filter (accepted_by (stored mute db)) done')"
  have dist: "distinct (map fu_pubkey ?ws)"
    using env_order(5) [OF env] winners_authors(2) by blast
  have loop: "runs (faulty env) (?I ?ws) (sql_for (write_update env mute now) ?ws (Map.empty, 0)) (i, db)" for i
  proof (rule runs_for)
    show "?I [] (Map.empty, 0) db" using wrote_refl [OF db] by simp
  next
    fix done' x acc i d
    assume I: "?I done' acc d" and xs: "\<exists>rest. ?ws = done' @ x # rest"
    obtain ids n where acc: "acc = (ids, n)" by (cases acc)
    have new: "fu_pubkey x \<notin> fu_pubkey ` set done'" using xs dist by auto
    show "runs (faulty env) (?I (done' @ [x])) (write_update env mute now x acc) (i, d)"
      using write_update_ok [OF _ env _ new, of db mute d ids n now i] I
      by (auto simp: acc elim!: runs_mono)
  qed
  have end': "wrote db mute us d \<and> n = length (filter (accepted_by (stored mute db)) (map snd (winners_of us)))"
    if "?I ?ws (ids, n) d" for ids n d
  proof -
    have "mset (filter P ?ws) = mset (filter P (map snd (winners_of us)))" for P
      using env by (simp add: env_ok_def)
    then have len: "length (filter P ?ws) = length (filter P (map snd (winners_of us)))" for P
      by (rule mset_eq_length)
    have "fu_pubkey ` set ?ws = fst ` set (winners_of us)"
      using winners_authors(1) [of us] env_order(1) [OF env] by (metis list.set_map)
    moreover have "a \<in> fst ` set (winners_of us) \<longleftrightarrow> a \<in> fu_pubkey ` set us" for a
    proof -
      have "best_of vs = None \<longleftrightarrow> vs = []" for vs
        by (induction vs rule: rev_induct) (auto simp: best_of_snoc best_of_def split: option.split)
      then have "map_of (winners_of us) a = None \<longleftrightarrow> a \<notin> fu_pubkey ` set us"
        by (auto simp: winners_of_best filter_empty_conv)
      then show ?thesis by (simp add: map_of_eq_None_iff)
    qed
    ultimately have "fu_pubkey ` set ?ws = fu_pubkey ` set us" by blast
    then show ?thesis using that len by (simp add: wrote_def fold_winners [OF env])
  qed
  show ?thesis
    unfolding batch_transaction_def
  proof (intro runs_step)
    show "plain_stmt db = Ok ((), db)" "plain_stmt db = Ok ((), db)" by (simp_all add: plain_stmt_def)
    fix n n'
    show "runs (faulty env)
       (\<lambda>n d. wrote db mute us d \<and> n = length (filter (accepted_by (stored mute db)) (map snd (winners_of us))))
       (sql_bind (sql_for (write_update env mute now) ?ws (Map.empty, 0))
         (\<lambda>(_, accepted). sql_bind (exec env plain_stmt) (\<lambda>_. sql_return accepted))) (n', db)"
    proof (rule runs_bind [OF loop])
      fix x i d
      assume I: "?I ?ws x d"
      then show "runs (faulty env)
          (\<lambda>n d. wrote db mute us d \<and> n = length (filter (accepted_by (stored mute db)) (map snd (winners_of us))))
          (case x of (_, accepted) \<Rightarrow> sql_bind (exec env plain_stmt) (\<lambda>_. sql_return accepted)) (i, d)"
        using end' by (cases x) (auto intro!: runs_step simp: plain_stmt_def)
    qed
  qed
qed

text \<open>The operation: an error only where a statement faulted, and then the tables are the old ones.\<close>

theorem update_lists_batch_ok:
  assumes db: "db_wf db" and env: "env_ok env"
  shows "case update_lists_batch env now us mute db of
    (Err _, d) \<Rightarrow> faulty env \<and> d = db
  | (Ok n, d) \<Rightarrow> wrote db mute us d \<and> n = length (filter (accepted_by (stored mute db)) (map snd (winners_of us)))"
proof (cases "us = []")
  case True
  then show ?thesis using wrote_refl [OF db] by (simp add: update_lists_batch_def winners_of_def)
next
  case False
  then show ?thesis
    using batch_transaction_ok [OF db env, of mute us now]
    by (cases "batch_transaction env now mute us (0, db)") (auto simp: update_lists_batch_def runs_def)
qed

section \<open>The database as a store of replaceable lists\<close>

definition put_row :: "db_env \<Rightarrow> int \<Rightarrow> bool \<Rightarrow> string \<Rightarrow> meta \<Rightarrow> string list \<Rightarrow> database \<Rightarrow> database" where
  "put_row env now mute k m l db =
     snd (update_lists_batch env now
       [\<lparr>fu_pubkey = k, fu_follows = l, fu_event_id = snd m, fu_created_at = fst m\<rparr>] mute db)"

locale sqlite_store =
  fixes env :: db_env and now :: int
  assumes env_ok: "env_ok env" and no_fault: "\<not> faulty env"
begin

lemma put_row_wrote:
  "db_wf db \<Longrightarrow> wrote db mute [\<lparr>fu_pubkey = k, fu_follows = l, fu_event_id = snd m, fu_created_at = fst m\<rparr>] (put_row env now mute k m l db)"
  using update_lists_batch_ok [OF _ env_ok, where us = "[\<lparr>fu_pubkey = k, fu_follows = l, fu_event_id = snd m, fu_created_at = fst m\<rparr>]"
      and mute = mute and db = db and now = now]
    no_fault by (auto simp: put_row_def split: prod.splits result.splits)

end

sublocale sqlite_store \<subseteq> rows: lww_store db_wf "\<lambda>_. True" "put_row env now mute" "stored mute" set for mute
proof
  fix db k m l a
  assume db: "db_wf db"
  show "db_wf (put_row env now mute k m l db)"
    using put_row_wrote [OF db, of mute k l m] by (simp add: wrote_def)
  show "stored mute (put_row env now mute k m l db) a =
      (if a = k \<and> accepts (fst (stored mute db k)) m then (m, set l) else stored mute db a)"
    using put_row_wrote [OF db, of mute k l m]
    by (simp add: wrote_def put_update_def pick_update_def update_meta_def)
qed simp

text \<open>An environment: no faults, the next rowid, the orders of the lists.\<close>

definition plain_env :: db_env where
  "plain_env =
     \<lparr>fails = (\<lambda>_. False), fresh_rowid = (\<lambda>is. foldr max is 0 + 1), enforce_keys = True,
      order_winners = rev, order_previous = (\<lambda>ps. ps), order_desired = rev\<rparr>"

lemma plain_env_ok [simp]: "env_ok plain_env" "\<not> faulty plain_env"
proof -
  have "i \<le> foldr max is 0" if "i \<in> set is" for i :: int and "is"
    using that by (induction "is") auto
  then have "foldr max is 0 + 1 \<notin> set is" for "is" :: "int list" by force
  then show "env_ok plain_env" by (simp add: env_ok_def plain_env_def)
qed (simp add: faulty_def plain_env_def)

interpretation plain: sqlite_store plain_env 0
  by unfold_locales simp_all

section \<open>Single statements outside a transaction\<close>

lemma upsert_node_ok:
  assumes db: "db_wf db" and env: "env_ok env" and up: "upsert_node env now pk eid ts db = (r, d)"
  shows "db_wf d \<and> db_id db \<subseteq>\<^sub>m db_id d \<and> stored True d = stored True db \<and>
    (\<forall>a. a \<noteq> pk \<longrightarrow> stored False d a = stored False db a) \<and>
    (case r of Err e \<Rightarrow> faulty env
     | Ok i \<Rightarrow> db_id d pk = Some i \<and> stored False d pk =
         ((coalesce ts (fst (db_meta False db pk)), coalesce eid (snd (db_meta False db pk))), db_targets False db pk))"
proof (cases "fails env 0")
  case True
  then show ?thesis using up db by (auto simp: upsert_node_def faulty_def)
next
  case False
  let ?g = "\<lambda>r. if node_pubkey r = pk then r\<lparr>node_event_id := coalesce eid (node_event_id r),
      node_created_at := coalesce ts (node_created_at r), node_updated_at := now\<rparr> else r"
  let ?r = "\<lparr>node_id = fresh_rowid env (map node_id (nodes db)), node_pubkey = pk,
      node_event_id = eid, node_created_at = ts, node_updated_at = now\<rparr>"
  have co: "coalesce x None = x" for x :: "'b option" by (simp add: coalesce_def split: option.split)
  define d1 where "d1 = (if find_node db pk \<noteq> None then db\<lparr>nodes := map ?g (nodes db)\<rparr> else db\<lparr>nodes := nodes db @ [?r]\<rparr>)"
  have d1: "db_wf d1 \<and> db_id db \<subseteq>\<^sub>m db_id d1 \<and> stored True d1 = stored True db \<and>
      (\<forall>a. a \<noteq> pk \<longrightarrow> stored False d1 a = stored False db a) \<and> find_node d1 pk \<noteq> None \<and> stored False d1 pk =
        ((coalesce ts (fst (db_meta False db pk)), coalesce eid (snd (db_meta False db pk))), db_targets False db pk)"
  proof (cases "find_node db pk")
    case None
    have nid: "db_id db pk = None" using None by (simp add: db_id_def)
    have meta: "db_meta b db pk = (None, None)" for b using None by (simp add: db_meta_def)
    note row = add_row [OF db, of ?r, simplified, OF None fresh_unused [OF env, of db, simplified]]
    have d1: "d1 = db\<lparr>nodes := nodes db @ [?r]\<rparr>" using None by (simp add: d1_def)
    have "find_node d1 pk \<noteq> None" using None by (simp add: d1 find_node_row)
    moreover have "db_id db \<subseteq>\<^sub>m db_id d1" using nid by (auto simp: d1 row(2) map_le_def)
    ultimately show ?thesis
      using row meta unfolding d1 stored_def fun_eq_iff by (simp add: co)
  next
    case (Some n)
    have g: "node_id (?g r) = node_id r \<and> node_pubkey (?g r) = node_pubkey r" for r by simp
    note rows = map_rows [OF db, of ?g, OF g]
    have name: "node_pubkey r = a" if "find_node db a = Some r" for a r
      using that find_distinct [of node_pubkey "nodes db"] db by (simp add: find_node_def db_wf_def)
    have "db_meta b (db\<lparr>nodes := map ?g (nodes db)\<rparr>) a = (if a = pk \<and> \<not> b
        then (coalesce ts (fst (db_meta False db pk)), coalesce eid (snd (db_meta False db pk))) else db_meta b db a)" for a b
      unfolding db_meta_def rows using Some by (cases "find_node db a") (auto dest: name)
    moreover have d1: "d1 = db\<lparr>nodes := map ?g (nodes db)\<rparr>" using Some by (simp add: d1_def)
    moreover have "db_id d1 = db_id db" "find_node d1 pk \<noteq> None" "db_wf d1" "db_targets b d1 = db_targets b db" for b
      unfolding d1 rows(2,3,5) using rows(1) Some by simp_all
    moreover from this have "db_id db \<subseteq>\<^sub>m db_id d1" by simp
    ultimately show ?thesis by (auto simp only: stored_def fun_eq_iff if_True if_False simp_thms)
  qed
  have "upsert_node env now pk eid ts db =
      (if fails env 1 then (Err SqlFault, d1) else case find_node d1 pk of None \<Rightarrow> (Err NoRows, d1) | Some n \<Rightarrow> (Ok (node_id n), d1))"
    unfolding upsert_node_def Let_def d1_def [symmetric] using False by simp
  then show ?thesis
    using up d1 by (auto simp: faulty_def db_id_def split: if_splits option.splits)
qed

text \<open>The synchronisation state is a map from relays to times.\<close>

lemma sync_state_roundtrip:
  assumes "\<not> faulty env" "\<not> faulty env'"
  shows "get_sync_state env' url' (snd (set_sync_state env now url ts db)) =
    (if url' = url then Ok (Some \<lparr>relay_url = url, last_event_time = ts, last_sync_at = Some now\<rparr>)
     else get_sync_state env' url' db)"
proof -
  let ?g = "\<lambda>r. if relay_url r = url then r\<lparr>last_event_time := ts, last_sync_at := Some now\<rparr> else r"
  have fine: "\<not> fails env n" "\<not> fails env' n" for n using assms by (simp_all add: faulty_def)
  have g: "find (\<lambda>r. relay_url r = a) (map ?g rs) = map_option ?g (find (\<lambda>r. relay_url r = a) rs)" for a rs
    by (rule find_map_key) simp
  have key: "find (\<lambda>r. relay_url r = a) rs = Some r \<Longrightarrow> relay_url r = a" for a rs and r :: sync_row
    by (induction rs) (auto split: if_splits)
  show ?thesis
  proof (cases "find (\<lambda>r. relay_url r = url) (sync_states db)")
    case None
    then show ?thesis by (simp add: get_sync_state_def set_sync_state_def fine find_append split: option.split)
  next
    case (Some r)
    have same: "map_option ?g (find (\<lambda>r. relay_url r = url') (sync_states db)) = find (\<lambda>r. relay_url r = url') (sync_states db)"
      if "url' \<noteq> url"
      using key [of url' "sync_states db"] that by (cases "find (\<lambda>r. relay_url r = url') (sync_states db)") auto
    have "find (\<lambda>r. relay_url r = url') (sync_states (snd (set_sync_state env now url ts db))) =
        (if url' = url then Some (?g r) else find (\<lambda>r. relay_url r = url') (sync_states db))"
      using Some same by (simp add: set_sync_state_def fine g)
    moreover have "?g r = \<lparr>relay_url = url, last_event_time = ts, last_sync_at = Some now\<rparr>"
      using key [OF Some] by (cases r) simp
    ultimately show ?thesis by (simp add: get_sync_state_def fine)
  qed
qed

lemma db_get_stats_ok: "\<not> faulty env \<Longrightarrow> db_get_stats env db = Ok (length (nodes db), length (edges db))"
  by (simp add: db_get_stats_def faulty_def)

end
