(* ===== verification/DatabaseLoad.thy ===== *)
theory DatabaseLoad
  imports DatabaseBatch
begin

text \<open>
  Start-up (\<open>Database::load_graph\<close>): the tables are read into a numeric snapshot, validated
  completely, and only then merged into the live graph by \<open>restore_nodes\<close>. A fault or a row
  that names a missing node is an error that leaves the graph alone; a panic of
  \<open>restore_nodes\<close> would be \<open>None\<close>. Tables the store itself wrote load without error, and
  a fresh graph then shows exactly the lists of the database.
\<close>

section \<open>The code\<close>

text \<open>\<open>ORDER BY follower_id, followed_id\<close>.\<close>

definition order_edges :: "(int \<times> int) list \<Rightarrow> (int \<times> int) list" where
  "order_edges es = sort_key fst (sort_key snd es)"

definition index_nodes :: "node_row list \<Rightarrow> int \<Rightarrow> nat option" where
  "index_nodes ns = fold (\<lambda>(index, n) m. m(node_id n \<mapsto> index)) (enumerate 0 ns) Map.empty"

definition snapshot_of_row :: "node_row \<Rightarrow> snapshot_node" where
  "snapshot_of_row n =
     \<lparr>snap_pubkey = node_pubkey n,
      snap_info = \<lparr>kind3_event_id = node_event_id n, kind3_created_at = node_created_at n\<rparr>,
      snap_follows = [], snap_mutes = None\<rparr>"

text \<open>The indices come from \<open>index_nodes\<close> of the same rows, so they are in range.\<close>

fun load_edges ::
    "(int \<Rightarrow> nat option) \<Rightarrow> (int \<times> int) list \<Rightarrow> snapshot_node list \<Rightarrow> (snapshot_node list, db_error) result" where
  "load_edges idx [] snap = Ok snap"
| "load_edges idx ((from, to) # rest) snap =
     (case (idx from, idx to) of
        (Some i, Some j) \<Rightarrow>
          load_edges idx rest (snap[i := (snap ! i)\<lparr>snap_follows := snap_follows (snap ! i) @ [as_u32 j]\<rparr>])
      | _ \<Rightarrow> Err (Bail ''Database contains an edge referencing a missing node''))"

fun load_mute_lists ::
    "(int \<Rightarrow> nat option) \<Rightarrow> mute_row list \<Rightarrow> snapshot_node list \<Rightarrow> (snapshot_node list, db_error) result" where
  "load_mute_lists idx [] snap = Ok snap"
| "load_mute_lists idx (r # rest) snap =
     (case idx (mute_author r) of
        Some i \<Rightarrow>
          load_mute_lists idx rest (snap[i := (snap ! i)\<lparr>snap_mutes := Some
            \<lparr>snap_mute_ids = [], snap_mute_event_id = row_event_id r, snap_mute_created_at = row_created_at r\<rparr>\<rparr>])
      | None \<Rightarrow> Err (Bail ''Database contains invalid mute metadata''))"

fun load_mute_edges ::
    "(int \<Rightarrow> nat option) \<Rightarrow> (int \<times> int) list \<Rightarrow> snapshot_node list \<Rightarrow> (snapshot_node list, db_error) result" where
  "load_mute_edges idx [] snap = Ok snap"
| "load_mute_edges idx ((from, to) # rest) snap =
     (case (idx from, idx to) of
        (Some i, Some j) \<Rightarrow>
          (case snap_mutes (snap ! i) of
             Some l \<Rightarrow>
               load_mute_edges idx rest (snap[i := (snap ! i)\<lparr>snap_mutes := Some
                 (l\<lparr>snap_mute_ids := snap_mute_ids l @ [as_u32 j]\<rparr>)\<rparr>])
           | None \<Rightarrow> Err (Bail ''Database contains invalid mute edges''))
      | _ \<Rightarrow> Err (Bail ''Database contains invalid mute edges''))"

definition load_snapshot :: "db_env \<Rightarrow> database \<Rightarrow> (snapshot_node list, db_error) result" where
  "load_snapshot env db =
     (if fails env 0 then Err SqlFault
      else
        let ns = sort_key node_id (nodes db); idx = index_nodes ns in
        if 2 ^ 32 - 1 < length ns then Err (Bail ''Database has too many nodes'')
        else if fails env 1 then Err SqlFault
        else case load_edges idx (order_edges (edges db)) (map snapshot_of_row ns) of
               Err e \<Rightarrow> Err e
             | Ok snap1 \<Rightarrow>
                 if fails env 2 then Err SqlFault
                 else case load_mute_lists idx (sort_key mute_author (mute_lists db)) snap1 of
                        Err e \<Rightarrow> Err e
                      | Ok snap2 \<Rightarrow>
                          if fails env 3 then Err SqlFault
                          else load_mute_edges idx (order_edges (mute_edges db)) snap2)"

definition load_graph :: "db_env \<Rightarrow> database \<Rightarrow> wot_graph \<Rightarrow> ((unit, db_error) result \<times> wot_graph) option" where
  "load_graph env db g =
     (case load_snapshot env db of
        Err e \<Rightarrow> Some (Err e, g)
      | Ok snap \<Rightarrow> (case restore_nodes g snap of None \<Rightarrow> None | Some g' \<Rightarrow> Some (Ok (), g')))"

section \<open>Loading valid tables\<close>

lemma set_order_edges [simp]: "set (order_edges es) = set es" and distinct_order_edges [simp]: "distinct (order_edges es) = distinct es"
  by (simp_all add: order_edges_def)

lemma index_nodes_iff:
  "distinct (map node_id ns) \<Longrightarrow> index_nodes ns a = Some i \<longleftrightarrow> i < length ns \<and> node_id (ns ! i) = a"
proof (induction ns rule: rev_induct)
  case Nil
  then show ?case by (simp add: index_nodes_def)
next
  case (snoc n ns)
  have step: "index_nodes (ns @ [n]) = (index_nodes ns)(node_id n \<mapsto> length ns)"
    by (simp add: index_nodes_def enumerate_append_eq)
  have "node_id (ns ! i) \<noteq> node_id n" if "i < length ns" for i
    using snoc.prems nth_mem [OF that] by (auto simp: image_iff)
  then show ?case using snoc by (auto simp: step nth_append less_Suc_eq)
qed

text \<open>
  The three loops append rows to the lists of a node. \<open>pushed idx es i\<close>: what the edges
  \<open>es\<close> append to the list of node \<open>i\<close>.
\<close>

definition pushed :: "(int \<Rightarrow> nat option) \<Rightarrow> (int \<times> int) list \<Rightarrow> nat \<Rightarrow> nat list" where
  "pushed idx es i = map (\<lambda>(_, t). the (idx t)) (filter (\<lambda>(f, _). idx f = Some i) es)"

definition idx_small :: "(int \<Rightarrow> nat option) \<Rightarrow> nat \<Rightarrow> bool" where
  "idx_small idx n \<longleftrightarrow> n \<le> 2 ^ 32 \<and> (\<forall>a i. idx a = Some i \<longrightarrow> i < n)"

lemma idx_small_u32: "idx_small idx n \<Longrightarrow> idx a = Some j \<Longrightarrow> as_u32 j = j"
  unfolding idx_small_def by (intro as_u32_id) (meson less_le_trans)

lemma load_edges_ok:
  assumes "idx_small idx (length snap)" "\<forall>(f, t) \<in> set es. idx f \<noteq> None \<and> idx t \<noteq> None"
  shows "load_edges idx es snap =
    Ok (map (\<lambda>i. (snap ! i)\<lparr>snap_follows := snap_follows (snap ! i) @ pushed idx es i\<rparr>) [0..<length snap])"
  using assms
proof (induction idx es snap rule: load_edges.induct)
  case (1 idx snap)
  show ?case by (simp add: pushed_def map_nth)
next
  case (2 idx f t es snap)
  obtain i j where ij: "idx f = Some i" "idx t = Some j" using "2.prems"(2) by auto
  then have i: "i < length snap" and j: "as_u32 j = j"
    using "2.prems"(1) idx_small_u32 by (auto simp: idx_small_def)
  let ?snap = "snap[i := (snap ! i)\<lparr>snap_follows := snap_follows (snap ! i) @ [j]\<rparr>]"
  have "load_edges idx ((f, t) # es) snap = load_edges idx es ?snap" by (simp add: ij j)
  also have "\<dots> = Ok (map (\<lambda>k. (?snap ! k)\<lparr>snap_follows := snap_follows (?snap ! k) @ pushed idx es k\<rparr>) [0..<length ?snap])"
    using "2.IH" [OF _ ij] "2.prems" j by simp
  also have "map (\<lambda>k. (?snap ! k)\<lparr>snap_follows := snap_follows (?snap ! k) @ pushed idx es k\<rparr>) [0..<length ?snap] =
      map (\<lambda>k. (snap ! k)\<lparr>snap_follows := snap_follows (snap ! k) @ pushed idx ((f, t) # es) k\<rparr>) [0..<length snap]"
    using i ij by (auto simp: pushed_def nth_list_update)
  finally show ?case .
qed

text \<open>\<open>last_row idx rs i\<close>: the row of \<open>rs\<close> that ends up at node \<open>i\<close>.\<close>

definition last_row :: "(int \<Rightarrow> nat option) \<Rightarrow> mute_row list \<Rightarrow> nat \<Rightarrow> mute_row option" where
  "last_row idx rs i = find (\<lambda>r. idx (mute_author r) = Some i) (rev rs)"

definition open_list :: "mute_row \<Rightarrow> snapshot_mute_list" where
  "open_list r = \<lparr>snap_mute_ids = [], snap_mute_event_id = row_event_id r, snap_mute_created_at = row_created_at r\<rparr>"

lemma load_mute_lists_ok:
  assumes "idx_small idx (length snap)" "\<forall>r \<in> set rs. idx (mute_author r) \<noteq> None"
  shows "load_mute_lists idx rs snap =
    Ok (map (\<lambda>i. case last_row idx rs i of None \<Rightarrow> snap ! i | Some r \<Rightarrow> (snap ! i)\<lparr>snap_mutes := Some (open_list r)\<rparr>)
          [0..<length snap])"
  using assms
proof (induction idx rs snap rule: load_mute_lists.induct)
  case (1 idx snap)
  show ?case by (simp add: last_row_def map_nth)
next
  case (2 idx r rs snap)
  obtain i where i: "idx (mute_author r) = Some i" "i < length snap"
    using "2.prems" by (auto simp: idx_small_def)
  let ?snap = "snap[i := (snap ! i)\<lparr>snap_mutes := Some (open_list r)\<rparr>]"
  have "load_mute_lists idx (r # rs) snap = load_mute_lists idx rs ?snap" by (simp add: i open_list_def)
  also have "\<dots> = Ok (map (\<lambda>k. case last_row idx rs k of None \<Rightarrow> ?snap ! k
      | Some r \<Rightarrow> (?snap ! k)\<lparr>snap_mutes := Some (open_list r)\<rparr>) [0..<length ?snap])"
    using "2.IH" [OF i(1), folded open_list_def] "2.prems" by simp
  also have "map (\<lambda>k. case last_row idx rs k of None \<Rightarrow> ?snap ! k
      | Some r \<Rightarrow> (?snap ! k)\<lparr>snap_mutes := Some (open_list r)\<rparr>) [0..<length ?snap] =
    map (\<lambda>k. case last_row idx (r # rs) k of None \<Rightarrow> snap ! k
      | Some r \<Rightarrow> (snap ! k)\<lparr>snap_mutes := Some (open_list r)\<rparr>) [0..<length snap]"
    using i by (auto simp: last_row_def find_append nth_list_update split: option.split)
  finally show ?case .
qed

lemma load_mute_edges_ok:
  assumes "idx_small idx (length snap)"
    "\<forall>(f, t) \<in> set es. idx t \<noteq> None \<and> (\<exists>i. idx f = Some i \<and> snap_mutes (snap ! i) \<noteq> None)"
  shows "load_mute_edges idx es snap =
    Ok (map (\<lambda>i. (snap ! i)\<lparr>snap_mutes := map_option (\<lambda>l. l\<lparr>snap_mute_ids := snap_mute_ids l @ pushed idx es i\<rparr>)
          (snap_mutes (snap ! i))\<rparr>) [0..<length snap])"
  using assms
proof (induction idx es snap rule: load_mute_edges.induct)
  case (1 idx snap)
  have "map_option (\<lambda>l. l\<lparr>snap_mute_ids := snap_mute_ids l @ pushed idx [] i\<rparr>) m = m"
    for i and m :: "snapshot_mute_list option"
    by (cases m) (simp_all add: pushed_def)
  then show ?case by (auto intro!: nth_equalityI)
next
  case (2 idx f t es snap)
  obtain i j l where ij: "idx f = Some i" "idx t = Some j" "snap_mutes (snap ! i) = Some l"
    using "2.prems"(2) by auto
  then have i: "i < length snap" and j: "as_u32 j = j"
    using "2.prems"(1) idx_small_u32 by (auto simp: idx_small_def)
  let ?snap = "snap[i := (snap ! i)\<lparr>snap_mutes := Some (l\<lparr>snap_mute_ids := snap_mute_ids l @ [j]\<rparr>)\<rparr>]"
  let ?push = "\<lambda>snap es k. (snap ! k)\<lparr>snap_mutes := map_option
      (\<lambda>l. l\<lparr>snap_mute_ids := snap_mute_ids l @ pushed idx es k\<rparr>) (snap_mutes (snap ! k))\<rparr>"
  have "snap_mutes (?snap ! k) \<noteq> None" if "snap_mutes (snap ! k) \<noteq> None" for k
    using i that by (cases "k = i") simp_all
  then have prem: "\<forall>(f, t) \<in> set es. idx t \<noteq> None \<and> (\<exists>i. idx f = Some i \<and> snap_mutes (?snap ! i) \<noteq> None)"
    using "2.prems"(2) by (fastforce)
  have "load_mute_edges idx ((f, t) # es) snap = load_mute_edges idx es ?snap" by (simp add: ij j)
  also have "\<dots> = Ok (map (?push ?snap es) [0..<length ?snap])"
    using "2.IH" [OF _ ij] "2.prems"(1) j prem by simp
  also have "map (?push ?snap es) [0..<length ?snap] = map (?push snap ((f, t) # es)) [0..<length snap]"
    using i ij by (auto simp: pushed_def nth_list_update)
  finally show ?case .
qed

section \<open>The snapshot shows the lists of the tables\<close>

definition shows_lists :: "database \<Rightarrow> snapshot_node list \<Rightarrow> snapshot_node \<Rightarrow> bool" where
  "shows_lists db snap node \<longleftrightarrow>
     (let a = snap_pubkey node in
      snap_meta node = db_meta False db a \<and> snap_names snap (snap_follows node) = db_targets False db a \<and>
      (case snap_mutes node of
         None \<Rightarrow> \<not> db_known db a
       | Some l \<Rightarrow> db_known db a \<and> db_meta True db a = (snap_mute_created_at l, snap_mute_event_id l) \<and>
           snap_names snap (snap_mute_ids l) = db_targets True db a))"

definition shows_tables :: "database \<Rightarrow> snapshot_node list \<Rightarrow> bool" where
  "shows_tables db snap \<longleftrightarrow>
     length snap = length (nodes db) \<and> distinct (map snap_pubkey snap) \<and> snapshot_valid snap \<and>
     (\<forall>a. a \<in> set (map snap_pubkey snap) \<longleftrightarrow> db_id db a \<noteq> None) \<and> (\<forall>node \<in> set snap. shows_lists db snap node)"

text \<open>The rows in id order, and the index of their ids.\<close>

lemma sorted_rows:
  assumes db: "db_wf db"
  defines "ns \<equiv> sort_key node_id (nodes db)"
  shows "distinct (map node_id ns)" "distinct (map node_pubkey ns)" "set ns = set (nodes db)" "length ns = length (nodes db)"
    and "index_nodes ns a = Some i \<longleftrightarrow> i < length ns \<and> node_id (ns ! i) = a"
    and "a \<in> node_id ` set (nodes db) \<Longrightarrow> index_nodes ns a \<noteq> None"
    and "i < length ns \<Longrightarrow> db_id db (node_pubkey (ns ! i)) = Some (node_id (ns ! i))"
proof -
  have ns: "mset ns = mset (nodes db)" by (simp add: ns_def)
  then show set: "set ns = set (nodes db)" and len: "length ns = length (nodes db)"
    by (metis set_mset_mset, metis size_mset)
  show dist: "distinct (map node_id ns)" "distinct (map node_pubkey ns)"
    using db ns unfolding db_wf_def by (metis mset_eq_imp_distinct_iff mset_map)+
  show idx: "index_nodes ns a = Some i \<longleftrightarrow> i < length ns \<and> node_id (ns ! i) = a" for a i
    using index_nodes_iff [OF dist(1)] .
  show "a \<in> node_id ` set (nodes db) \<Longrightarrow> index_nodes ns a \<noteq> None"
  proof -
    assume "a \<in> node_id ` set (nodes db)"
    then obtain n where "n \<in> set ns" "node_id n = a" using set by blast
    then obtain i where "i < length ns" "node_id (ns ! i) = a" by (auto simp: in_set_conv_nth)
    then have "index_nodes ns a = Some i" using idx by blast
    then show "index_nodes ns a \<noteq> None" by simp
  qed
  show "i < length ns \<Longrightarrow> db_id db (node_pubkey (ns ! i)) = Some (node_id (ns ! i))"
    using db_id_node [OF db] set nth_mem by blast
qed

lemma bex_nth: "(\<exists>n \<in> set xs. P n) \<longleftrightarrow> (\<exists>j<length xs. P (xs ! j))"
  by (metis in_set_conv_nth)

lemma pushed_names:
  assumes db: "db_wf db" and i: "i < length (nodes db)" and es: "es = order_edges (edge_table mute db)"
  defines "ns \<equiv> sort_key node_id (nodes db)"
  shows "(\<lambda>t. node_pubkey (ns ! t)) ` set (pushed (index_nodes ns) es i) = db_targets mute db (node_pubkey (ns ! i))"
    "set (pushed (index_nodes ns) es i) \<subseteq> {..<length (nodes db)}"
proof -
  note rows = sorted_rows [OF db, folded ns_def]
  have edge: "f \<in> node_id ` set (nodes db) \<and> t \<in> node_id ` set (nodes db)" if "(f, t) \<in> set es" for f t
    using that edge_ends [OF db, of f t mute] by (simp add: es)
  have pushed: "j \<in> set (pushed (index_nodes ns) es i) \<longleftrightarrow>
      j < length ns \<and> (node_id (ns ! i), node_id (ns ! j)) \<in> set (edge_table mute db)" for j
  proof -
    have "j \<in> set (pushed (index_nodes ns) es i) \<longleftrightarrow>
        (\<exists>f t. (f, t) \<in> set es \<and> index_nodes ns f = Some i \<and> j = the (index_nodes ns t))"
      by (force simp: pushed_def)
    also have "\<dots> \<longleftrightarrow> (\<exists>f t. (f, t) \<in> set es \<and> index_nodes ns f = Some i \<and> index_nodes ns t = Some j)"
      using edge rows(6) by (metis option.collapse option.sel)
    also have "\<dots> \<longleftrightarrow> j < length ns \<and> (node_id (ns ! i), node_id (ns ! j)) \<in> set (edge_table mute db)"
      using i by (auto simp: rows(4,5) es)
    finally show ?thesis .
  qed
  then show "set (pushed (index_nodes ns) es i) \<subseteq> {..<length (nodes db)}"
    by (auto simp: rows(4))
  show "(\<lambda>t. node_pubkey (ns ! t)) ` set (pushed (index_nodes ns) es i) = db_targets mute db (node_pubkey (ns ! i))"
  proof (rule set_eqI)
    fix b
    have "b \<in> (\<lambda>t. node_pubkey (ns ! t)) ` set (pushed (index_nodes ns) es i) \<longleftrightarrow>
        (\<exists>j<length ns. node_pubkey (ns ! j) = b \<and> (node_id (ns ! i), node_id (ns ! j)) \<in> set (edge_table mute db))"
      using pushed by auto
    also have "\<dots> \<longleftrightarrow> (\<exists>n \<in> set (nodes db). node_pubkey n = b \<and> (node_id (ns ! i), node_id n) \<in> set (edge_table mute db))"
      unfolding rows(3) [symmetric] bex_nth ..
    also have "\<dots> \<longleftrightarrow> (\<exists>j. db_id db b = Some j \<and> (node_id (ns ! i), j) \<in> set (edge_table mute db))"
      using db_id_node [OF db] by auto
    also have "\<dots> \<longleftrightarrow> b \<in> db_targets mute db (node_pubkey (ns ! i))"
      using rows(7) [of i] i by (simp add: db_targets_iff [OF db] rows(4))
    finally show "b \<in> (\<lambda>t. node_pubkey (ns ! t)) ` set (pushed (index_nodes ns) es i) \<longleftrightarrow>
        b \<in> db_targets mute db (node_pubkey (ns ! i))" .
  qed
qed

text \<open>The row of an author's mute list.\<close>

lemma last_row_find:
  assumes db: "db_wf db" and i: "i < length (nodes db)"
  defines "ns \<equiv> sort_key node_id (nodes db)"
  shows "last_row (index_nodes ns) (sort_key mute_author (mute_lists db)) i = find_mutes db (node_id (ns ! i))"
proof -
  note rows = sorted_rows [OF db, folded ns_def]
  let ?rs = "rev (sort_key mute_author (mute_lists db))"
  have dist: "distinct (map mute_author (mute_lists db))" using db by (simp add: db_wf_def)
  have "mset (map mute_author ?rs) = mset (map mute_author (mute_lists db))" by simp
  then have dist': "distinct (map mute_author ?rs)" using dist mset_eq_imp_distinct_iff by blast
  have "find (\<lambda>r. index_nodes ns (mute_author r) = Some i) ?rs = find (\<lambda>r. mute_author r = node_id (ns ! i)) ?rs"
    using i by (intro arg_cong2 [where f = find]) (auto simp: rows(4,5) fun_eq_iff)
  moreover have "find (\<lambda>r. mute_author r = node_id (ns ! i)) ?rs = find_mutes db (node_id (ns ! i))"
  proof (cases "find_mutes db (node_id (ns ! i))")
    case None
    moreover from this have "find (\<lambda>r. mute_author r = node_id (ns ! i)) ?rs = None"
      by (simp add: find_mutes_def find_None)
    ultimately show ?thesis by simp
  next
    case (Some r)
    then have "r \<in> set ?rs \<and> mute_author r = node_id (ns ! i)" using find_distinct [OF dist] by (simp add: find_mutes_def)
    then have "find (\<lambda>r. mute_author r = node_id (ns ! i)) ?rs = Some r" using find_distinct [OF dist'] by blast
    then show ?thesis using Some by simp
  qed
  ultimately show ?thesis by (simp add: last_row_def)
qed

theorem load_snapshot_ok:
  assumes db: "db_wf db" and count: "length (nodes db) \<le> 2 ^ 32 - 1"
  shows "outcome (faulty env) (shows_tables db) (load_snapshot env db)"
proof -
  define ns where "ns = sort_key node_id (nodes db)"
  define idx where "idx = index_nodes ns"
  note rows = sorted_rows [OF db, folded ns_def, folded idx_def]
  have small: "idx_small idx (length ns)"
    using count rows(4) by (auto simp: idx_small_def rows(5))
  have edges: "\<forall>(f, t) \<in> set (order_edges (edge_table mute db)). idx f \<noteq> None \<and> idx t \<noteq> None" for mute
    using edge_ends [OF db, of _ _ mute] rows(6) by auto
  have mutes: "\<forall>r \<in> set (sort_key mute_author (mute_lists db)). idx (mute_author r) \<noteq> None"
    using db rows(6) by (auto simp: db_wf_def)
  let ?e = "order_edges (edge_table False db)" and ?m = "order_edges (edge_table True db)"
  let ?rs = "sort_key mute_author (mute_lists db)"
  define snap1 where "snap1 = map (\<lambda>i. (snapshot_of_row (ns ! i))\<lparr>snap_follows := pushed idx ?e i\<rparr>) [0..<length ns]"
  define snap2 where "snap2 = map (\<lambda>i. case find_mutes db (node_id (ns ! i)) of None \<Rightarrow> snap1 ! i
      | Some r \<Rightarrow> (snap1 ! i)\<lparr>snap_mutes := Some (open_list r)\<rparr>) [0..<length ns]"
  define snap3 where "snap3 = map (\<lambda>i. (snap2 ! i)\<lparr>snap_mutes := map_option
      (\<lambda>l. l\<lparr>snap_mute_ids := snap_mute_ids l @ pushed idx ?m i\<rparr>) (snap_mutes (snap2 ! i))\<rparr>) [0..<length ns]"
  have len: "length snap1 = length ns" "length snap2 = length ns" "length snap3 = length ns"
    by (simp_all add: snap1_def snap2_def snap3_def)
  have 1: "load_edges idx ?e (map snapshot_of_row ns) = Ok snap1"
    using load_edges_ok [of idx "map snapshot_of_row ns" ?e] small edges
    by (auto simp: snap1_def snapshot_of_row_def)
  have 2: "load_mute_lists idx ?rs snap1 = Ok snap2"
    using load_mute_lists_ok [of idx snap1 ?rs] small mutes len
      last_row_find [OF db, folded ns_def, folded idx_def] rows(4)
    by (simp add: snap2_def cong: map_cong)
  have mute2: "snap_mutes (snap2 ! i) = map_option open_list (find_mutes db (node_id (ns ! i)))" if "i < length ns" for i
    using that by (simp add: snap2_def snap1_def snapshot_of_row_def split: option.split)
  have "\<exists>i. idx f = Some i \<and> snap_mutes (snap2 ! i) \<noteq> None" if "(f, t) \<in> set ?m" for f t
  proof -
    have "idx f \<noteq> None" using edges [of True] that by blast
    then obtain i where i: "idx f = Some i" by blast
    then have "i < length ns" "node_id (ns ! i) = f" using rows(5) by blast+
    note i = i this
    have "f \<in> mute_author ` set (mute_lists db)" using that db by (auto simp: db_wf_def edge_table_def)
    then have "find_mutes db f \<noteq> None" by (simp only: find_mutes_def find_None not_not)
    then show ?thesis using i mute2 by auto
  qed
  then have 3: "load_mute_edges idx ?m snap2 = Ok snap3"
    using load_mute_edges_ok [of idx snap2 ?m] small edges [of True] len by (fastforce simp: snap3_def)
  have node: "snap3 ! i = \<lparr>snap_pubkey = node_pubkey (ns ! i),
      snap_info = \<lparr>kind3_event_id = node_event_id (ns ! i), kind3_created_at = node_created_at (ns ! i)\<rparr>,
      snap_follows = pushed idx ?e i,
      snap_mutes = map_option (\<lambda>r. \<lparr>snap_mute_ids = pushed idx ?m i, snap_mute_event_id = row_event_id r,
        snap_mute_created_at = row_created_at r\<rparr>) (find_mutes db (node_id (ns ! i)))\<rparr>" if "i < length ns" for i
    using that mute2 [OF that] by (cases "find_mutes db (node_id (ns ! i))")
      (simp_all add: snap3_def snap2_def snap1_def snapshot_of_row_def open_list_def)
  have "shows_tables db snap3"
    unfolding shows_tables_def
  proof (intro conjI)
    have pk: "map snap_pubkey snap3 = map node_pubkey ns"
      using node len by (auto intro!: nth_equalityI)
    show "length snap3 = length (nodes db)" by (simp add: len rows(4))
    show "distinct (map snap_pubkey snap3)" unfolding pk by (rule rows(2))
    show "\<forall>a. a \<in> set (map snap_pubkey snap3) \<longleftrightarrow> db_id db a \<noteq> None"
      unfolding pk using rows(3) db_id_node [OF db] by auto
    have i: "\<exists>i<length ns. node = snap3 ! i" if "node \<in> set snap3" for node
      using that len by (auto simp: in_set_conv_nth)
    have sub: "set (pushed idx (order_edges (edge_table mute db)) i) \<subseteq> {..<length ns}" if "i < length ns" for i mute
      using pushed_names(2) [OF db _ refl, of i mute] that rows(4) by (simp add: ns_def idx_def)
    show "snapshot_valid snap3"
      unfolding snapshot_valid_def len using i node sub by fastforce
    have names: "snap_names snap3 (pushed idx (order_edges (edge_table mute db)) i) = db_targets mute db (node_pubkey (ns ! i))"
      if "i < length ns" for i mute
    proof -
      have "snap_names snap3 (pushed idx (order_edges (edge_table mute db)) i) =
          (\<lambda>t. node_pubkey (ns ! t)) ` set (pushed idx (order_edges (edge_table mute db)) i)"
        unfolding snap_names_def
      proof (rule image_cong [OF refl])
        fix x assume "x \<in> set (pushed idx (order_edges (edge_table mute db)) i)"
        then have "x < length ns" using sub [OF that] by blast
        then show "snap_pubkey (snap3 ! x) = node_pubkey (ns ! x)" by (simp add: node)
      qed
      then show ?thesis using pushed_names(1) [OF db _ refl, of i mute] that rows(4) by (simp add: ns_def idx_def)
    qed
    show "\<forall>node \<in> set snap3. shows_lists db snap3 node"
    proof
      fix n assume "n \<in> set snap3"
      then obtain i where n: "n = snap3 ! i" "i < length ns" using i by blast
      have row: "find_node db (node_pubkey (ns ! i)) = Some (ns ! i)" "db_id db (node_pubkey (ns ! i)) = Some (node_id (ns ! i))"
        using find_distinct [of node_pubkey "nodes db"] db rows(3,7) n(2) nth_mem [OF n(2)]
        by (auto simp: find_node_def db_wf_def)
      show "shows_lists db snap3 n"
        unfolding n(1) shows_lists_def node [OF n(2)] using names [OF n(2)] row
        by (simp add: snap_meta_def db_meta_def db_known_def split: option.split)
    qed
  qed
  moreover have "load_snapshot env db = Ok snap3 \<or> faulty env \<and> (\<exists>e. load_snapshot env db = Err e)"
    using 1 2 3 count rows(4)
    by (auto simp: load_snapshot_def faulty_def Let_def edge_table_def simp flip: ns_def idx_def)
  ultimately show ?thesis by auto
qed

section \<open>Merging the tables into the live graph\<close>

definition db_mute_cell :: "database \<Rightarrow> string \<Rightarrow> meta \<times> string set option" where
  "db_mute_cell db a = (db_meta True db a, if db_known db a then Some (db_targets True db a) else None)"

text \<open>The lists after a start: the newer of the database's and the live one.\<close>

definition merged_follows :: "database \<Rightarrow> wot_graph \<Rightarrow> string \<Rightarrow> meta \<times> string set" where
  "merged_follows db g a =
     (if db_id db a \<noteq> None \<and> accepts (fst (follow_cell g a)) (db_meta False db a)
      then stored False db a else follow_cell g a)"

definition merged_mutes :: "database \<Rightarrow> wot_graph \<Rightarrow> string \<Rightarrow> meta \<times> string set option" where
  "merged_mutes db g a =
     (if db_known db a \<and> accepts (fst (mute_cell g a)) (db_meta True db a)
      then db_mute_cell db a else mute_cell g a)"

lemma fold_merge_other:
  "a \<notin> snap_pubkey ` set ns \<Longrightarrow> fold (merge_follow snap) ns fc a = fc a"
  "a \<notin> snap_pubkey ` set ns \<Longrightarrow> fold (merge_mute snap) ns mc a = mc a"
  by (induction ns arbitrary: fc mc) (auto simp: merge_follow_def merge_mute_def split: option.split)

lemma fold_merge_mem:
  assumes "distinct (map snap_pubkey ns)" "n \<in> set ns" "snap_pubkey n = a"
  shows "fold (merge_follow snap) ns fc a = merge_follow snap n fc a"
    "fold (merge_mute snap) ns mc a = merge_mute snap n mc a"
proof -
  obtain xs ys where ns: "ns = xs @ n # ys" using assms(2) by (meson split_list)
  then have "a \<notin> snap_pubkey ` set xs" "a \<notin> snap_pubkey ` set ys" using assms(1,3) by auto
  then show "fold (merge_follow snap) ns fc a = merge_follow snap n fc a"
    "fold (merge_mute snap) ns mc a = merge_mute snap n mc a"
    using assms(3) by (simp_all add: ns fold_merge_other merge_follow_def merge_mute_def split: option.split)
qed

lemma merges_tables:
  assumes db: "db_wf db" and snap: "shows_tables db snap"
  shows "fold (merge_follow snap) snap (follow_cell g) = merged_follows db g"
    "fold (merge_mute snap) snap (mute_cell g) = merged_mutes db g"
proof -
  have dist: "distinct (map snap_pubkey snap)" using snap by (simp add: shows_tables_def)
  have "fold (merge_follow snap) snap (follow_cell g) a = merged_follows db g a \<and>
      fold (merge_mute snap) snap (mute_cell g) a = merged_mutes db g a" for a
  proof (cases "db_id db a")
    case None
    then have "a \<notin> snap_pubkey ` set snap" using snap by (auto simp: shows_tables_def)
    then show ?thesis using None by (simp add: fold_merge_other merged_follows_def merged_mutes_def db_known_def)
  next
    case (Some i)
    then have "a \<in> snap_pubkey ` set snap" using snap by (auto simp: shows_tables_def)
    then obtain n where n: "n \<in> set snap" "snap_pubkey n = a" by blast
    have "shows_lists db snap n" using snap n(1) by (simp add: shows_tables_def)
    then show ?thesis
      unfolding fold_merge_mem [OF dist n] using Some n(2)
      by (auto simp: shows_lists_def Let_def merge_follow_def merge_mute_def merged_follows_def merged_mutes_def
          stored_def db_mute_cell_def split: option.splits)
  qed
  then show "fold (merge_follow snap) snap (follow_cell g) = merged_follows db g"
    "fold (merge_mute snap) snap (mute_cell g) = merged_mutes db g" by blast+
qed

theorem load_graph_ok:
  assumes db: "db_wf db" and g: "graph_wf g" and count: "node_count g + length (nodes db) < 2 ^ 32"
  shows "\<exists>r g'. load_graph env db g = Some (r, g') \<and>
    (case r of
       Err _ \<Rightarrow> faulty env \<and> g' = g
     | Ok _ \<Rightarrow> graph_wf g' \<and> node_count g' \<le> node_count g + length (nodes db) \<and>
         follow_cell g' = merged_follows db g \<and> mute_cell g' = merged_mutes db g)"
proof -
  have out: "outcome (faulty env) (shows_tables db) (load_snapshot env db)"
    using count by (intro load_snapshot_ok [OF db]) simp
  show ?thesis
  proof (cases "load_snapshot env db")
    case (Ok snap)
    then have snap: "shows_tables db snap" using out by simp
    then obtain g' where "restore_nodes g snap = Some g'" "graph_wf g'" "node_count g' \<le> node_count g + length snap"
      "follow_cell g' = fold (merge_follow snap) snap (follow_cell g)"
      "mute_cell g' = fold (merge_mute snap) snap (mute_cell g)"
      using restore_nodes_spec [OF g, of snap] count by (auto simp: shows_tables_def)
    then show ?thesis using Ok snap merges_tables [OF db snap] by (simp add: load_graph_def shows_tables_def)
  next
    case (Err e)
    then show ?thesis using out by (simp add: load_graph_def)
  qed
qed

text \<open>A fresh graph has nothing to keep.\<close>

lemma merged_fresh:
  "merged_follows db graph_new = stored False db" "merged_mutes db graph_new = db_mute_cell db"
proof -
  have "follow_cell graph_new a = ((None, None), {})" "mute_cell graph_new a = ((None, None), None)" for a
    by (simp_all add: follow_cell_def mute_cell_def graph_new_def)
  moreover have "db_id db a = None \<Longrightarrow> stored False db a = ((None, None), {})" for a
    by (simp add: stored_def db_meta_def db_targets_def db_id_def)
  moreover have "\<not> db_known db a \<Longrightarrow> db_mute_cell db a = ((None, None), None)" for a
    using db_known_meta by (simp add: db_mute_cell_def)
  ultimately show "merged_follows db graph_new = stored False db" "merged_mutes db graph_new = db_mute_cell db"
    by (auto simp: merged_follows_def merged_mutes_def fun_eq_iff)
qed

section \<open>Corrupt tables\<close>

text \<open>
  A row that names a node that is not there, or a mute edge of an author without a mute list,
  is an error and leaves the graph alone, whatever else the tables hold.
\<close>

definition dangling :: "database \<Rightarrow> bool" where
  "dangling db \<longleftrightarrow>
     (\<exists>(f, t) \<in> set (edges db). f \<notin> node_id ` set (nodes db) \<or> t \<notin> node_id ` set (nodes db)) \<or>
     (\<exists>r \<in> set (mute_lists db). mute_author r \<notin> node_id ` set (nodes db)) \<or>
     (\<exists>(f, t) \<in> set (mute_edges db). f \<notin> mute_author ` set (mute_lists db) \<or> t \<notin> node_id ` set (nodes db))"

lemma index_nodes_dom: "index_nodes ns a \<noteq> None \<longleftrightarrow> a \<in> node_id ` set ns"
proof (induction ns rule: rev_induct)
  case Nil
  then show ?case by (simp add: index_nodes_def)
next
  case (snoc n ns)
  have "index_nodes (ns @ [n]) = (index_nodes ns)(node_id n \<mapsto> length ns)"
    by (simp add: index_nodes_def enumerate_append_eq)
  then show ?case using snoc by auto
qed

lemma index_nodes_sound: "index_nodes ns a = Some i \<Longrightarrow> i < length ns \<and> node_id (ns ! i) = a"
proof (induction ns arbitrary: i rule: rev_induct)
  case Nil
  then show ?case by (simp add: index_nodes_def)
next
  case (snoc n ns)
  have "index_nodes (ns @ [n]) = (index_nodes ns)(node_id n \<mapsto> length ns)"
    by (simp add: index_nodes_def enumerate_append_eq)
  then show ?case using snoc by (auto simp: nth_append less_Suc_eq split: if_splits)
qed

lemma map_update_same: "(map f xs)[i := f (xs ! i)] = map f xs"
  by (metis length_map list_update_beyond list_update_id not_le nth_map)

lemma load_edges_valid:
  "load_edges idx es snap = Ok snap' \<Longrightarrow> (\<forall>(f, t) \<in> set es. idx f \<noteq> None \<and> idx t \<noteq> None) \<and>
     map snap_mutes snap' = map snap_mutes snap"
  by (induction idx es snap rule: load_edges.induct)
    (auto split: option.splits simp: map_update map_update_same)

lemma load_mute_lists_valid:
  "load_mute_lists idx rs snap = Ok snap' \<Longrightarrow> (\<forall>r \<in> set rs. idx (mute_author r) \<noteq> None) \<and>
     (\<forall>i. i < length snap \<longrightarrow> snap_mutes (snap ! i) = None \<longrightarrow> (\<forall>r \<in> set rs. idx (mute_author r) \<noteq> Some i) \<longrightarrow>
        snap_mutes (snap' ! i) = None) \<and> length snap' = length snap"
  by (induction idx rs snap rule: load_mute_lists.induct) (auto split: option.splits simp: nth_list_update)

lemma load_mute_edges_valid:
  "load_mute_edges idx es snap = Ok snap' \<Longrightarrow> \<forall>(f, t) \<in> set es. idx t \<noteq> None \<and>
     (\<exists>i. idx f = Some i \<and> (i < length snap \<longrightarrow> snap_mutes (snap ! i) \<noteq> None))"
proof (induction idx es snap rule: load_mute_edges.induct)
  case (2 idx f t es snap)
  obtain i j l where ij: "idx f = Some i" "idx t = Some j" "snap_mutes (snap ! i) = Some l"
    using "2.prems" by (auto split: option.splits)
  let ?snap = "snap[i := (snap ! i)\<lparr>snap_mutes := Some (l\<lparr>snap_mute_ids := snap_mute_ids l @ [as_u32 j]\<rparr>)\<rparr>]"
  have IH: "\<forall>(f, t) \<in> set es. idx t \<noteq> None \<and> (\<exists>i. idx f = Some i \<and> (i < length ?snap \<longrightarrow> snap_mutes (?snap ! i) \<noteq> None))"
    using "2.IH" [OF _ ij] "2.prems" ij by simp
  have kept: "snap_mutes (snap ! k) \<noteq> None" if "k < length ?snap \<longrightarrow> snap_mutes (?snap ! k) \<noteq> None" "k < length snap" for k
    using that ij by (cases "k = i") simp_all
  have "idx t' \<noteq> None \<and> (\<exists>i. idx f' = Some i \<and> (i < length snap \<longrightarrow> snap_mutes (snap ! i) \<noteq> None))"
    if "(f', t') \<in> set es" for f' t'
    using bspec [OF IH that] kept by blast
  then show ?case using ij by auto
qed simp

theorem load_graph_dangling:
  assumes "dangling db"
  shows "\<exists>e. load_graph env db g = Some (Err e, g)"
proof -
  let ?idx = "index_nodes (sort_key node_id (nodes db))"
  have dom: "?idx a \<noteq> None \<longleftrightarrow> a \<in> node_id ` set (nodes db)" for a
    using index_nodes_dom [of "sort_key node_id (nodes db)" a] by simp
  have "load_snapshot env db \<noteq> Ok snap" for snap
  proof
    assume ok: "load_snapshot env db = Ok snap"
    then obtain snap1 snap2 where
      1: "load_edges ?idx (order_edges (edges db)) (map snapshot_of_row (sort_key node_id (nodes db))) = Ok snap1" and
      2: "load_mute_lists ?idx (sort_key mute_author (mute_lists db)) snap1 = Ok snap2" and
      3: "load_mute_edges ?idx (order_edges (mute_edges db)) snap2 = Ok snap"
      by (auto simp: load_snapshot_def Let_def split: if_splits result.splits)
    have e: "\<forall>(f, t) \<in> set (edges db). ?idx f \<noteq> None \<and> ?idx t \<noteq> None"
      and empty: "map snap_mutes snap1 = map (\<lambda>_. None) (nodes db)"
      using load_edges_valid [OF 1] by (simp_all add: snapshot_of_row_def o_def map_replicate_const)
    have len: "length snap1 = length (nodes db)" using empty by (metis length_map)
    have none: "snap_mutes (snap1 ! i) = None" if "i < length (nodes db)" for i
      using arg_cong [OF empty, of "\<lambda>l. l ! i"] that len by simp
    have rows: "\<forall>r \<in> set (mute_lists db). ?idx (mute_author r) \<noteq> None"
      and kept: "\<And>i. i < length (nodes db) \<Longrightarrow> \<forall>r \<in> set (mute_lists db). ?idx (mute_author r) \<noteq> Some i \<Longrightarrow>
        snap_mutes (snap2 ! i) = None" and len2: "length snap2 = length (nodes db)"
      using load_mute_lists_valid [OF 2] none by (simp_all add: len)
    have m: "?idx t \<noteq> None \<and> f \<in> mute_author ` set (mute_lists db)" if ft: "(f, t) \<in> set (mute_edges db)" for f t
    proof -
      have "?idx t \<noteq> None \<and> (\<exists>i. ?idx f = Some i \<and> (i < length snap2 \<longrightarrow> snap_mutes (snap2 ! i) \<noteq> None))"
        using load_mute_edges_valid [OF 3] ft by fastforce
      then obtain i where t: "?idx t \<noteq> None" and i: "?idx f = Some i" "i < length snap2 \<longrightarrow> snap_mutes (snap2 ! i) \<noteq> None"
        by blast
      have at: "i < length (nodes db)" "node_id (sort_key node_id (nodes db) ! i) = f"
        using index_nodes_sound [OF i(1)] by simp_all
      then obtain r where "r \<in> set (mute_lists db)" "?idx (mute_author r) = Some i"
        using kept [OF at(1)] i(2) len2 by auto
      then show ?thesis using t index_nodes_sound at(2) by blast
    qed
    show False
      using assms e rows m unfolding dangling_def dom by fastforce
  qed
  then obtain e where "load_snapshot env db = Err e" by (cases "load_snapshot env db") auto
  then show ?thesis by (simp add: load_graph_def)
qed

end
