(* ===== verification/Ingestion.thy ===== *)
theory Ingestion
  imports DatabaseLoad
begin

text \<open>
  Ingestion of list events (\<open>sync/ingestion.rs\<close>): received events are filtered, parsed, checked
  against a cache of seen versions, batched, and flushed to the database and then to the graph.
  Keys and event ids of the Nostr library are their lower-case hex strings, whose order is the
  order of the bytes. Time is read by the program at each use and is an argument; what a flush
  meets (the two database environments, a lost blocking task) is an argument as well, one per
  attempt. The LRU cache of the \<open>lru\<close> crate and the relay client are parameters.
\<close>

section \<open>Status\<close>

record sync_status =
  running :: bool
  failed :: bool
  last_event_received_at :: int
  last_persisted_at :: int
  persisted_events :: u64
  lagged_notifications :: u64
  persistence_errors :: u64

definition sync_status_new :: sync_status where
  "sync_status_new =
     \<lparr>running = False, failed = False, last_event_received_at = 0, last_persisted_at = 0,
      persisted_events = 0, lagged_notifications = 0, persistence_errors = 0\<rparr>"

record sync_snapshot =
  ss_running :: bool
  ss_ready :: bool
  ss_last_event_received_at :: int
  ss_last_persisted_at :: int
  ss_persisted_events :: u64
  ss_lagged_notifications :: u64
  ss_persistence_errors :: u64
  ss_coverage :: string

text \<open>\<open>i64::saturating_sub\<close>.\<close>

definition sat_sub_i64 :: "int \<Rightarrow> int \<Rightarrow> int" where
  "sat_sub_i64 a b = max (- (2 ^ 63)) (min (2 ^ 63 - 1) (a - b))"

definition sync_ready :: "int \<Rightarrow> sync_status \<Rightarrow> bool" where
  "sync_ready now s =
     (let last = last_event_received_at s in
      running s \<and> \<not> failed s \<and> 0 < last \<and> sat_sub_i64 now last \<le> 300)"

definition sync_snapshot_of :: "int \<Rightarrow> sync_status \<Rightarrow> sync_snapshot" where
  "sync_snapshot_of now s =
     \<lparr>ss_running = running s, ss_ready = sync_ready now s,
      ss_last_event_received_at = last_event_received_at s, ss_last_persisted_at = last_persisted_at s,
      ss_persisted_events = persisted_events s, ss_lagged_notifications = lagged_notifications s,
      ss_persistence_errors = persistence_errors s, ss_coverage = ''configured_relays_only''\<rparr>"

section \<open>Events and updates\<close>

definition mute_kind :: nat where
  "mute_kind = 10000"

definition batch_size :: nat where
  "batch_size = 100"

record nostr_event =
  ev_kind :: nat
  ev_pubkey :: string
  ev_id :: string
  ev_created_at :: u64
  ev_tags :: "string list list"

record seen_event =
  seen_created_at :: u64
  seen_id :: string

definition dominates :: "seen_event \<Rightarrow> nostr_event \<Rightarrow> bool" where
  "dominates s e \<longleftrightarrow>
     ev_created_at e < seen_created_at s \<or> (seen_created_at s = ev_created_at e \<and> seen_id s \<le> ev_id e)"

record list_update =
  lu_kind :: nat
  lu_pubkey :: string
  lu_follows :: "string list"
  lu_event_id :: string
  lu_created_at :: int

definition is_hexdigit :: "char \<Rightarrow> bool" where
  "is_hexdigit c = (let n = of_char c :: nat in (48 \<le> n \<and> n \<le> 57) \<or> (97 \<le> n \<and> n \<le> 102) \<or> (65 \<le> n \<and> n \<le> 70))"

definition to_lower :: "char \<Rightarrow> char" where
  "to_lower c = (let n = of_char c :: nat in if 65 \<le> n \<and> n \<le> 90 then char_of (n + 32) else c)"

definition p_tag :: "string list \<Rightarrow> string option" where
  "p_tag values =
     (if 2 \<le> length values \<and> values ! 0 = ''p'' then
        let pk = values ! 1 in
        if length pk = 64 \<and> list_all is_hexdigit pk then Some (map to_lower pk) else None
      else None)"

definition i64_of_u64 :: "u64 \<Rightarrow> int" where
  "i64_of_u64 t = (if uint t < 2 ^ 63 then uint t else 2 ^ 63 - 1)"

definition process_event :: "nostr_event \<Rightarrow> list_update option" where
  "process_event e =
     (if ev_kind e \<noteq> 3 \<and> ev_kind e \<noteq> mute_kind then None
      else Some
        \<lparr>lu_kind = ev_kind e, lu_pubkey = ev_pubkey e,
         lu_follows = remdups_adj (sort (List.map_filter p_tag (ev_tags e))),
         lu_event_id = ev_id e, lu_created_at = i64_of_u64 (ev_created_at e)\<rparr>)"

section \<open>Persisting and publishing\<close>

definition batch_item :: "list_update \<Rightarrow> follow_update_batch" where
  "batch_item u =
     \<lparr>fu_pubkey = lu_pubkey u, fu_follows = lu_follows u, fu_event_id = Some (lu_event_id u),
      fu_created_at = Some (lu_created_at u)\<rparr>"

type_synonym slots = "((nat \<times> string) \<times> nat) list"

definition choose_slot :: "list_update list \<Rightarrow> nat \<times> list_update \<Rightarrow> slots \<Rightarrow> slots" where
  "choose_slot updates p winners =
     (case p of (i, update) \<Rightarrow>
        let key = (lu_kind update, lu_pubkey update);
            (slot, winners1) = (case map_of winners key of
                                  Some old \<Rightarrow> (old, winners)
                                | None \<Rightarrow> (i, AList.update key i winners));
            previous = updates ! slot
        in if lu_created_at previous < lu_created_at update \<or>
              (lu_created_at update = lu_created_at previous \<and> lu_event_id update < lu_event_id previous)
           then AList.update key i winners1 else winners1)"

definition select_updates :: "list_update list \<Rightarrow> list_update list" where
  "select_updates updates =
     (let winners = fold (choose_slot updates) (enumerate 0 updates) []
      in map ((!) updates) (sort (map snd winners)))"

definition apply_to_graph :: "list_update \<Rightarrow> wot_graph \<Rightarrow> wot_graph" where
  "apply_to_graph u g =
     (if lu_kind u = mute_kind
      then snd (update_mutes g (lu_pubkey u) (lu_follows u) (Some (lu_event_id u)) (Some (lu_created_at u)))
      else snd (update_follows g (lu_pubkey u) (lu_follows u) (Some (lu_event_id u)) (Some (lu_created_at u))))"

text \<open>What an attempt to persist a batch meets.\<close>

record attempt =
  task_lost :: bool
  env_follows :: db_env
  env_mutes :: db_env
  attempt_now :: int

definition persist_and_apply ::
    "attempt \<Rightarrow> list_update list \<Rightarrow> database \<Rightarrow> wot_graph \<Rightarrow> (nat, db_error) result \<times> database \<times> wot_graph" where
  "persist_and_apply a updates db g =
     (let selected = select_updates updates;
          items = (\<lambda>kind. map batch_item (filter (\<lambda>u. lu_kind u = kind) selected))
      in case update_follows_batch (env_follows a) (attempt_now a) (items 3) db of
           (Err e, db1) \<Rightarrow> (Err e, db1, g)
         | (Ok n, db1) \<Rightarrow>
             (case update_mutes_batch (env_mutes a) (attempt_now a) (items mute_kind) db1 of
                (Err e, db2) \<Rightarrow> (Err e, db2, g)
              | (Ok m, db2) \<Rightarrow> (Ok (n + m), db2, fold apply_to_graph selected g)))"

datatype ingest_error = Persisting db_error | TaskFailed | NoRelays | ChannelClosed | ClientFailed | Unreachable

record stores =
  st_db :: database
  st_graph :: wot_graph
  st_status :: sync_status

fun flush_attempts :: "(nat \<Rightarrow> attempt) \<Rightarrow> nat list \<Rightarrow> list_update list \<Rightarrow> stores \<Rightarrow> (unit, ingest_error) result \<times> stores" where
  "flush_attempts att [] updates s = (Err Unreachable, s)"
| "flush_attempts att (n # ns) updates s =
     (if task_lost (att n) then (Err TaskFailed, s)
      else
        case persist_and_apply (att n) updates (st_db s) (st_graph s) of
          (Ok accepted, db, g) \<Rightarrow>
            (Ok (), s\<lparr>st_db := db, st_graph := g, st_status := (st_status s)\<lparr>
                 persisted_events := persisted_events (st_status s) + of_nat accepted,
                 last_persisted_at := attempt_now (att n), failed := False\<rparr>\<rparr>)
        | (Err e, db, g) \<Rightarrow>
            let s1 = s\<lparr>st_db := db, st_graph := g, st_status := (st_status s)\<lparr>
                  persistence_errors := persistence_errors (st_status s) + 1, failed := True\<rparr>\<rparr>
            in if n = 2 then (Err (Persisting e), s1) else flush_attempts att ns updates s1)"

text \<open>The batch is taken first, so it is empty afterwards in every case.\<close>

definition flush :: "(nat \<Rightarrow> attempt) \<Rightarrow> list_update list \<Rightarrow> stores \<Rightarrow> (unit, ingest_error) result \<times> list_update list \<times> stores" where
  "flush att batch s =
     (if batch = [] then (Ok (), [], s)
      else case flush_attempts att [0..<3] batch s of (r, s1) \<Rightarrow> (r, [], s1))"

section \<open>The service loop\<close>

type_synonym seen_key = "string \<times> nat"

record 'c lru_ops =
  lru_new :: 'c
  lru_get :: "'c \<Rightarrow> seen_key \<Rightarrow> seen_event option \<times> 'c"
  lru_put :: "'c \<Rightarrow> seen_key \<Rightarrow> seen_event \<Rightarrow> 'c"
  lru_clear :: "'c \<Rightarrow> 'c"

record 'c loop_state =
  seen :: 'c
  batch :: "list_update list"
  stores :: stores

text \<open>What \<open>select!\<close> delivers next, with what the handling of it meets.\<close>

datatype loop_input =
    ShutdownChanged bool bool
  | TimerTick "nat \<Rightarrow> attempt"
  | EventReceived nostr_event int "nat \<Rightarrow> attempt"
  | OtherNotification
  | Lagged u64 "nat \<Rightarrow> attempt" bool
  | NotificationsClosed "nat \<Rightarrow> attempt"

datatype 'c loop_outcome = Continue "'c loop_state" | Break "'c loop_state" | Fail ingest_error "'c loop_state"

definition set_status :: "(sync_status \<Rightarrow> sync_status) \<Rightarrow> stores \<Rightarrow> stores" where
  "set_status f s = s\<lparr>st_status := f (st_status s)\<rparr>"

text \<open>\<open>self.flush(&mut batch).await?\<close>, then \<open>k\<close>.\<close>

definition flush_then :: "(nat \<Rightarrow> attempt) \<Rightarrow> 'c loop_state \<Rightarrow> ('c loop_state \<Rightarrow> 'c loop_outcome) \<Rightarrow> 'c loop_outcome" where
  "flush_then att st k =
     (case flush att (batch st) (stores st) of
        (Ok _, b, s) \<Rightarrow> k (st\<lparr>batch := b, stores := s\<rparr>)
      | (Err e, b, s) \<Rightarrow> Fail e (st\<lparr>batch := b, stores := s\<rparr>))"

definition receive_event :: "'c lru_ops \<Rightarrow> nostr_event \<Rightarrow> int \<Rightarrow> (nat \<Rightarrow> attempt) \<Rightarrow> 'c loop_state \<Rightarrow> 'c loop_outcome" where
  "receive_event ops e now att st =
     (if ev_kind e \<noteq> 3 \<and> ev_kind e \<noteq> mute_kind then Continue st
      else if word_of_int now + 600 < ev_created_at e then Continue st
      else
        let st1 = st\<lparr>stores := set_status (\<lambda>s. s\<lparr>last_event_received_at := now\<rparr>) (stores st)\<rparr>;
            key = (ev_pubkey e, ev_kind e);
            (entry, c) = lru_get ops (seen st1) key;
            st2 = st1\<lparr>seen := c\<rparr>
        in if (case entry of Some s \<Rightarrow> dominates s e | None \<Rightarrow> False) then Continue st2
           else case process_event e of
                  None \<Rightarrow> Continue st2
                | Some update \<Rightarrow>
                    let st3 = st2\<lparr>seen := lru_put ops (seen st2) key \<lparr>seen_created_at = ev_created_at e, seen_id = ev_id e\<rparr>,
                                  batch := batch st2 @ [update]\<rparr>
                    in if batch_size \<le> length (batch st3) then flush_then att st3 Continue else Continue st3)"

definition run_step :: "'c lru_ops \<Rightarrow> loop_input \<Rightarrow> 'c loop_state \<Rightarrow> 'c loop_outcome" where
  "run_step ops input st =
     (case input of
        ShutdownChanged changed_err value \<Rightarrow> if changed_err \<or> value then Break st else Continue st
      | TimerTick att \<Rightarrow> flush_then att st Continue
      | EventReceived e now att \<Rightarrow> receive_event ops e now att st
      | OtherNotification \<Rightarrow> Continue st
      | Lagged skipped att restarted \<Rightarrow>
          let st1 = st\<lparr>stores := set_status (\<lambda>s. s\<lparr>lagged_notifications := lagged_notifications s + skipped\<rparr>) (stores st)\<rparr>
          in flush_then att st1 (\<lambda>st2.
               let st3 = st2\<lparr>seen := lru_clear ops (seen st2)\<rparr>
               in if restarted then Continue st3 else Fail ClientFailed st3)
      | NotificationsClosed att \<Rightarrow> flush_then att st (\<lambda>st1. Fail ChannelClosed st1))"

text \<open>\<open>Continue\<close> after the last input: the service is still waiting.\<close>

fun run_loop :: "'c lru_ops \<Rightarrow> loop_input list \<Rightarrow> 'c loop_state \<Rightarrow> 'c loop_outcome" where
  "run_loop ops [] st = Continue st"
| "run_loop ops (i # is) st =
     (case run_step ops i st of Continue st1 \<Rightarrow> run_loop ops is st1 | r \<Rightarrow> r)"

text \<open>\<open>None\<close>: still running.\<close>

definition run_ingestion ::
    "'c lru_ops \<Rightarrow> string list \<Rightarrow> bool \<Rightarrow> loop_input list \<Rightarrow> (nat \<Rightarrow> attempt) \<Rightarrow> bool \<Rightarrow> stores \<Rightarrow>
     ((unit, ingest_error) result \<times> stores) option" where
  "run_ingestion ops relay_urls connected inputs att disconnected s =
     (if relay_urls = [] then Some (Err NoRelays, s)
      else if \<not> connected then Some (Err ClientFailed, s)
      else
        let s1 = set_status (\<lambda>s. s\<lparr>running := True\<rparr>) s
        in case run_loop ops inputs \<lparr>seen = lru_new ops, batch = [], stores = s1\<rparr> of
             Continue _ \<Rightarrow> None
           | Fail e st \<Rightarrow> Some (Err e, stores st)
           | Break st \<Rightarrow>
               (case flush att (batch st) (stores st) of
                  (Err e, _, s2) \<Rightarrow> Some (Err e, s2)
                | (Ok _, _, s2) \<Rightarrow> Some (if disconnected then Ok () else Err ClientFailed, s2)))"

definition start_ingestion ::
    "'c lru_ops \<Rightarrow> string list \<Rightarrow> bool \<Rightarrow> loop_input list \<Rightarrow> (nat \<Rightarrow> attempt) \<Rightarrow> bool \<Rightarrow> stores \<Rightarrow>
     ((unit, ingest_error) result \<times> stores) option" where
  "start_ingestion ops relay_urls connected inputs att disconnected s =
     (case run_ingestion ops relay_urls connected inputs att disconnected s of
        None \<Rightarrow> None
      | Some (r, s1) \<Rightarrow>
          let s2 = set_status (\<lambda>s. s\<lparr>running := False\<rparr>) s1
          in Some (r, if is_ok r then s2 else set_status (\<lambda>s. s\<lparr>failed := True\<rparr>) s2))"

end
