(* ===== verification/HttpApi.thy ===== *)
theory HttpApi
  imports QueryCache PathSpec LockMetrics OracleConfig Ingestion
begin

text \<open>
  The HTTP handlers (\<open>api/http.rs\<close>). A handler runs beside the ingestion and other handlers, so
  each of its reads of the graph happens at a moment of its own: \<open>graph_at env i\<close> is the graph at
  its \<open>i\<close>-th read. What the other tasks have done to the shared cache when the handler uses it at
  its \<open>i\<close>-th moment is \<open>cache_moves env i\<close>, the query permits free at its \<open>i\<close>-th request are \<open>free_slots env i\<close>,
  and \<open>task_dropped env i\<close> says that its \<open>i\<close>-th blocking task was cancelled before it started. A
  panic of a blocking task is an error of the await, a panic of the handler itself is \<open>None\<close>.
  Strings are byte strings. JSON, routing, CORS and the server are \<open>axum\<close>'s.
\<close>

section \<open>Requests and responses\<close>

record distance_params =
  dp_from :: string
  dp_to :: string
  dp_max_hops :: "8 word"
  dp_include_bridges :: bool
  dp_bypass_cache :: bool

record follows_params =
  fp_pubkey :: string
  fp_limit :: nat
  fp_offset :: nat

record common_params =
  cp_from :: string
  cp_to :: string

record path_params =
  pp_from :: string
  pp_to :: string
  pp_max_hops :: "8 word"

record batch_request =
  br_from :: string
  br_targets :: "string list"
  br_max_hops :: "8 word"
  br_include_bridges :: bool
  br_bypass_cache :: bool

record follows_response =
  fr_pubkey :: string
  fr_follows :: "string list"
  fr_total :: nat

record common_response =
  cr_from :: string
  cr_to :: string
  cr_common_follows :: "string list"

record path_response =
  pre_from :: string
  pre_to :: string
  pre_path :: "string list option"

record batch_response =
  bre_from :: string
  bre_results :: "distance_result list"

record mutes_response =
  mr_pubkey :: string
  mr_mutes :: "string list"
  mr_total :: nat
  mr_public_list_known :: bool

record trust_response =
  tr_follow_distance :: distance_result
  tr_public_mute_evidence :: mute_evidence

record stats_response =
  st_node_count :: nat
  st_edge_count :: nat
  st_nodes_with_follows :: nat
  st_mute_edge_count :: nat
  st_nodes_with_mute_lists :: nat
  st_sync :: sync_snapshot
  st_cache :: cache_stats
  st_locks :: lock_metrics_snapshot

record health_response =
  hr_status :: string
  hr_version :: string

record error_response =
  err_error :: string
  err_code :: string

text \<open>The \<open>serde\<close> defaults of absent fields.\<close>

definition default_max_hops :: "8 word" where "default_max_hops = max_hops_default"

definition default_follows_limit :: nat where "default_follows_limit = 500"

definition internal_error :: "string \<Rightarrow> error_response" where
  "internal_error msg = \<lparr>err_error = msg, err_code = ''INTERNAL_ERROR''\<rparr>"

definition error_status :: "error_response \<Rightarrow> nat" where
  "error_status e =
     (if err_code e = ''INTERNAL_ERROR'' then 500 else if err_code e = ''QUERY_BUSY'' then 503 else 400)"

section \<open>Guards\<close>

type_synonym 'a response = "('a, error_response) result"

definition query_permit :: "nat \<Rightarrow> unit response" where
  "query_permit free =
     (if free = 0 then Err \<lparr>err_error = ''Query capacity exhausted; retry later'', err_code = ''QUERY_BUSY''\<rparr>
      else Ok ())"

definition validate_pubkey :: "string \<Rightarrow> unit response" where
  "validate_pubkey pubkey =
     (if length pubkey \<noteq> 64 then Err \<lparr>err_error = ''Invalid pubkey format'', err_code = ''INVALID_PUBKEY''\<rparr>
      else if \<not> list_all is_hexdigit pubkey then Err \<lparr>err_error = ''Invalid pubkey format'', err_code = ''INVALID_PUBKEY''\<rparr>
      else Ok ())"

definition validate_max_hops :: "8 word \<Rightarrow> unit response" where
  "validate_max_hops hops_limit =
     (if \<not> (1 \<le> hops_limit \<and> hops_limit \<le> max_hops_limit)
      then Err \<lparr>err_error = ''max_hops must be between 1 and '' @ decimal (unat max_hops_limit), err_code = ''INVALID_MAX_HOPS''\<rparr>
      else Ok ())"

text \<open>The first guard that fails, as the \<open>?\<close> operator returns it.\<close>

fun first_error :: "unit response list \<Rightarrow> unit response" where
  "first_error [] = Ok ()"
| "first_error (r # rs) = (case r of Ok _ \<Rightarrow> first_error rs | Err e \<Rightarrow> Err e)"

text \<open>\<open>spawn_blocking(..).await.map_err(..)\<close>: a lost or panicking task is an internal error.\<close>

definition joined :: "bool \<Rightarrow> 'a option \<Rightarrow> 'a response" where
  "joined dropped value =
     (if dropped then Err (internal_error ''Internal computation error'')
      else case value of None \<Rightarrow> Err (internal_error ''Internal computation error'') | Some a \<Rightarrow> Ok a)"

section \<open>The surroundings of a request\<close>

record 'c cache_ops =
  c_get :: "'c \<Rightarrow> cache_key \<Rightarrow> cached_distance option"
  c_put :: "'c \<Rightarrow> cache_key \<Rightarrow> cached_distance \<Rightarrow> 'c"

record 'c request_env =
  graph_at :: "nat \<Rightarrow> wot_graph"
  cache_moves :: "nat \<Rightarrow> 'c \<Rightarrow> 'c"
  free_slots :: "nat \<Rightarrow> nat"
  task_dropped :: "nat \<Rightarrow> bool"
  scratch_at :: "nat \<Rightarrow> bfs_state"

definition key_of_ids :: "nat option \<Rightarrow> nat option \<Rightarrow> 8 word \<Rightarrow> bool \<Rightarrow> cache_key option" where
  "key_of_ids from_id to_id hops_limit include_bridges =
     (case (from_id, to_id) of (Some f, Some t) \<Rightarrow> Some (cache_key_new f t hops_limit include_bridges) | _ \<Rightarrow> None)"

definition or_else :: "'a option \<Rightarrow> 'a option \<Rightarrow> 'a option" where
  "or_else a b = (case a of Some x \<Rightarrow> Some x | None \<Rightarrow> b)"

text \<open>The look-up at three moments from \<open>m\<close> on; without a key there is none.\<close>

definition try_cache :: "'c cache_ops \<Rightarrow> 'c request_env \<Rightarrow> bool \<Rightarrow> 'c \<Rightarrow> cache_key option \<Rightarrow> nat \<Rightarrow> distance_result option" where
  "try_cache ops env bypass c key m =
     (if bypass then None
      else case key of
             None \<Rightarrow> None
           | Some k \<Rightarrow> cache_get (c_get ops) c k (graph_at env m) (graph_at env (m + 1)) (graph_at env (m + 2)))"

definition try_insert :: "'c cache_ops \<Rightarrow> 'c request_env \<Rightarrow> 'c \<Rightarrow> cache_key option \<Rightarrow> distance_result \<Rightarrow> u64 \<Rightarrow> nat \<Rightarrow> 'c" where
  "try_insert ops env c key result stamp m =
     (case key of
        None \<Rightarrow> c
      | Some k \<Rightarrow> cache_insert (c_put ops) c k result (graph_at env m) (graph_at env (m + 1)) stamp)"

section \<open>Distances\<close>

definition distance_guards :: "distance_params \<Rightarrow> unit response" where
  "distance_guards p =
     first_error [validate_pubkey (dp_from p), validate_pubkey (dp_to p), validate_max_hops (dp_max_hops p)]"

definition query_of_params :: "distance_params \<Rightarrow> distance_query" where
  "query_of_params p =
     \<lparr>dq_from = dp_from p, dq_to = dp_to p, dq_max_hops = dp_max_hops p, dq_include_bridges = dp_include_bridges p\<rparr>"

definition get_distance ::
    "'c cache_ops \<Rightarrow> 'c request_env \<Rightarrow> distance_params \<Rightarrow> 'c \<Rightarrow> distance_result response \<times> 'c" where
  "get_distance ops env p c =
     (case distance_guards p of
        Err e \<Rightarrow> (Err e, c)
      | Ok _ \<Rightarrow>
          let from_id = get_node_id (graph_at env 0) (dp_from p);
              to_id = get_node_id (graph_at env 1) (dp_to p);
              c1 = cache_moves env 2 c
          in case try_cache ops env (dp_bypass_cache p) c1
                    (key_of_ids from_id to_id (dp_max_hops p) (dp_include_bridges p)) 2 of
               Some cached_result \<Rightarrow> (Ok cached_result, c1)
             | None \<Rightarrow>
                 (case query_permit (free_slots env 0) of
                    Err e \<Rightarrow> (Err e, c1)
                  | Ok _ \<Rightarrow>
                      let stamp = revision (graph_at env 5) in
                      (case joined (task_dropped env 0)
                              (compute_distance (graph_at env 6) (scratch_at env 0) (query_of_params p)) of
                         Err e \<Rightarrow> (Err e, c1)
                       | Ok (result, _) \<Rightarrow>
                           let from_id2 = or_else from_id (get_node_id (graph_at env 7) (dp_from p));
                               to_id2 = or_else to_id (get_node_id (graph_at env 8) (dp_to p));
                               key = key_of_ids from_id2 to_id2 (dp_max_hops p) (dp_include_bridges p)
                           in (Ok result, try_insert ops env (cache_moves env 9 c1) key result stamp 9))))"

section \<open>Batches\<close>

text \<open>Each distinct target once, and for each request position the place of its target.\<close>

definition index_target ::
    "string \<Rightarrow> string list \<times> (string \<Rightarrow> nat option) \<times> nat list \<Rightarrow> string list \<times> (string \<Rightarrow> nat option) \<times> nat list" where
  "index_target target acc =
     (case acc of (uniques, indices, order) \<Rightarrow>
        (case indices target of
           Some i \<Rightarrow> (uniques, indices, order @ [i])
         | None \<Rightarrow> (uniques @ [target], indices(target \<mapsto> length uniques), order @ [length uniques])))"

definition index_targets :: "string list \<Rightarrow> string list \<times> (string \<Rightarrow> nat option) \<times> nat list" where
  "index_targets targets = fold index_target targets ([], Map.empty, [])"

text \<open>
  The cache is asked for target \<open>i\<close> from moment \<open>4 * i + 1\<close> on: its id, then the look-up.
\<close>

fun look_up_targets ::
    "'c cache_ops \<Rightarrow> 'c request_env \<Rightarrow> batch_request \<Rightarrow> nat option \<Rightarrow> (nat \<times> string) list \<Rightarrow> 'c \<Rightarrow>
     distance_result option list \<Rightarrow> (nat \<times> string) list \<Rightarrow> distance_result option list \<times> (nat \<times> string) list \<times> 'c" where
  "look_up_targets ops env req from_id [] c computed misses = (computed, misses, c)"
| "look_up_targets ops env req from_id ((i, target) # rest) c computed misses =
     (let c1 = cache_moves env (4 * i + 2) c;
          key = key_of_ids from_id (get_node_id (graph_at env (4 * i + 1)) target) (br_max_hops req) (br_include_bridges req)
      in case try_cache ops env (br_bypass_cache req) c1 key (4 * i + 2) of
           Some hit \<Rightarrow> look_up_targets ops env req from_id rest c1 (computed[i := Some hit]) misses
         | None \<Rightarrow> look_up_targets ops env req from_id rest c1 computed (misses @ [(i, target)]))"

definition batch_query :: "batch_request \<Rightarrow> string \<Rightarrow> distance_query" where
  "batch_query req target =
     \<lparr>dq_from = br_from req, dq_to = target, dq_max_hops = br_max_hops req, dq_include_bridges = br_include_bridges req\<rparr>"

text \<open>
  The blocking task, one miss after another; the \<open>j\<close>-th search starts at moment \<open>m + 6 * j\<close>. A
  panic keeps what was cached before it.
\<close>

fun compute_misses ::
    "'c cache_ops \<Rightarrow> 'c request_env \<Rightarrow> batch_request \<Rightarrow> nat \<Rightarrow> nat \<Rightarrow> (nat \<times> string) list \<Rightarrow> 'c \<Rightarrow>
     (nat \<times> distance_result) list \<Rightarrow> (nat \<times> distance_result) list option \<times> 'c" where
  "compute_misses ops env req m j [] c done_so_far = (Some done_so_far, c)"
| "compute_misses ops env req m j ((i, target) # rest) c done_so_far =
     (let stamp = revision (graph_at env (m + 6 * j)) in
      case compute_distance (graph_at env (m + 6 * j + 1)) (scratch_at env j) (batch_query req target) of
        None \<Rightarrow> (None, c)
      | Some (result, _) \<Rightarrow>
          let key = key_of_ids (get_node_id (graph_at env (m + 6 * j + 2)) (br_from req))
                      (get_node_id (graph_at env (m + 6 * j + 3)) target) (br_max_hops req) (br_include_bridges req);
              c1 = try_insert ops env (cache_moves env (m + 6 * j + 4) c) key result stamp (m + 6 * j + 4)
          in compute_misses ops env req m (j + 1) rest c1 (done_so_far @ [(i, result)]))"

definition batch_guards :: "batch_request \<Rightarrow> unit response" where
  "batch_guards req =
     (case first_error [validate_pubkey (br_from req), validate_max_hops (br_max_hops req)] of
        Err e \<Rightarrow> Err e
      | Ok _ \<Rightarrow>
          if 100 < length (br_targets req)
          then Err \<lparr>err_error = ''Maximum 100 targets allowed per batch'', err_code = ''TOO_MANY_TARGETS''\<rparr>
          else first_error (map validate_pubkey (br_targets req)))"

text \<open>
  \<open>computed[index].as_ref().expect(..)\<close> for each position of the request: \<open>None\<close> if one is
  missing, which is a panic.
\<close>

definition batch_results :: "distance_result option list \<Rightarrow> nat list \<Rightarrow> distance_result list option" where
  "batch_results computed order = collect_all (\<lambda>i. Option.bind (index computed i) (\<lambda>r. r)) order"

definition batch_reply :: "batch_request \<Rightarrow> distance_result option list \<Rightarrow> nat list \<Rightarrow> batch_response response option" where
  "batch_reply req computed order =
     map_option (\<lambda>rs. Ok \<lparr>bre_from = br_from req, bre_results = rs\<rparr>) (batch_results computed order)"

definition batch_distance ::
    "'c cache_ops \<Rightarrow> 'c request_env \<Rightarrow> batch_request \<Rightarrow> 'c \<Rightarrow> batch_response response option \<times> 'c" where
  "batch_distance ops env req c =
     (case batch_guards req of
        Err e \<Rightarrow> (Some (Err e), c)
      | Ok _ \<Rightarrow>
          let (uniques, _, order) = index_targets (br_targets req);
              from_id = get_node_id (graph_at env 0) (br_from req);
              (computed, misses, c1) =
                look_up_targets ops env req from_id (enumerate 0 uniques) c (replicate (length uniques) None) []
          in if misses = [] then (batch_reply req computed order, c1)
             else
               case query_permit (free_slots env 0) of
                 Err e \<Rightarrow> (Some (Err e), c1)
               | Ok _ \<Rightarrow>
                   if task_dropped env 0 then (Some (Err (internal_error ''Internal computation error'')), c1)
                   else
                     case compute_misses ops env req (4 * length uniques + 1) 0 misses c1 [] of
                       (None, c2) \<Rightarrow> (Some (Err (internal_error ''Internal computation error'')), c2)
                     | (Some results, c2) \<Rightarrow>
                         (batch_reply req (fold (\<lambda>(i, r) xs. xs[i := Some r]) results computed) order, c2))"

section \<open>Lists, paths and trust\<close>

definition unwrap_page :: "(string list \<times> nat) option \<Rightarrow> string list \<times> nat" where
  "unwrap_page page = (case page of Some p \<Rightarrow> p | None \<Rightarrow> ([], 0))"

text \<open>\<open>get_follows\<close> and \<open>get_mutes\<close> read the graph on the handler itself: a panic there is \<open>None\<close>.\<close>

definition handle_follows :: "'c request_env \<Rightarrow> follows_params \<Rightarrow> follows_response response option" where
  "handle_follows env p =
     (case validate_pubkey (fp_pubkey p) of
        Err e \<Rightarrow> Some (Err e)
      | Ok _ \<Rightarrow>
          map_option
            (\<lambda>page. case unwrap_page page of (fs, n) \<Rightarrow> Ok \<lparr>fr_pubkey = fp_pubkey p, fr_follows = fs, fr_total = n\<rparr>)
            (get_follows_page (graph_at env 0) (fp_pubkey p) (fp_offset p) (min (fp_limit p) 5000)))"

definition handle_mutes :: "'c request_env \<Rightarrow> follows_params \<Rightarrow> mutes_response response option" where
  "handle_mutes env p =
     (case validate_pubkey (fp_pubkey p) of
        Err e \<Rightarrow> Some (Err e)
      | Ok _ \<Rightarrow>
          map_option
            (\<lambda>page. case unwrap_page page of (ms, n) \<Rightarrow>
               Ok \<lparr>mr_pubkey = fp_pubkey p, mr_mutes = ms, mr_total = n, mr_public_list_known = (page \<noteq> None)\<rparr>)
            (get_mutes_page (graph_at env 0) (fp_pubkey p) (fp_offset p) (min (fp_limit p) 5000)))"

definition handle_common_follows :: "'c request_env \<Rightarrow> common_params \<Rightarrow> common_response response" where
  "handle_common_follows env p =
     (case first_error [validate_pubkey (cp_from p), validate_pubkey (cp_to p), query_permit (free_slots env 0)] of
        Err e \<Rightarrow> Err e
      | Ok _ \<Rightarrow>
          (case joined (task_dropped env 0) (common_follows (graph_at env 0) (cp_from p) (cp_to p)) of
             Err e \<Rightarrow> Err e
           | Ok names \<Rightarrow> Ok \<lparr>cr_from = cp_from p, cr_to = cp_to p, cr_common_follows = names\<rparr>))"

definition handle_path :: "'c request_env \<Rightarrow> path_params \<Rightarrow> path_response response" where
  "handle_path env p =
     (case first_error [validate_pubkey (pp_from p), validate_pubkey (pp_to p), validate_max_hops (pp_max_hops p),
                        query_permit (free_slots env 0)] of
        Err e \<Rightarrow> Err e
      | Ok _ \<Rightarrow>
          (case joined (task_dropped env 0)
                  (compute_path (graph_at env 0) \<lparr>pq_from = pp_from p, pq_to = pp_to p, pq_max_hops = pp_max_hops p\<rparr>) of
             Err e \<Rightarrow> Err e
           | Ok r \<Rightarrow> Ok \<lparr>pre_from = pp_from p, pre_to = pp_to p, pre_path = pr_path r\<rparr>))"

text \<open>The mute evidence is read after the distance, at moment 11, under a second permit.\<close>

definition handle_trust :: "'c cache_ops \<Rightarrow> 'c request_env \<Rightarrow> distance_params \<Rightarrow> 'c \<Rightarrow> trust_response response \<times> 'c" where
  "handle_trust ops env p c =
     (case get_distance ops env p c of
        (Err e, c1) \<Rightarrow> (Err e, c1)
      | (Ok distance, c1) \<Rightarrow>
          (case query_permit (free_slots env 1) of
             Err e \<Rightarrow> (Err e, c1)
           | Ok _ \<Rightarrow>
               (case joined (task_dropped env 1) (mute_evidence_of (graph_at env 11) (dp_from p) (dp_to p)) of
                  Err e \<Rightarrow> (Err e, c1)
                | Ok evidence \<Rightarrow>
                    (Ok \<lparr>tr_follow_distance = distance, tr_public_mute_evidence = evidence\<rparr>, c1))))"

section \<open>Health and statistics\<close>

text \<open>Both read the clock and the counters for themselves.\<close>

definition handle_ready :: "int \<Rightarrow> int \<Rightarrow> sync_status \<Rightarrow> sync_status \<Rightarrow> nat \<times> sync_snapshot" where
  "handle_ready now1 now2 status1 status2 =
     (if sync_ready now1 status1 then 200 else 503, sync_snapshot_of now2 status2)"

definition handle_stats ::
    "('c \<Rightarrow> u64) \<Rightarrow> ('c \<Rightarrow> u64 option) \<Rightarrow> wot_graph \<Rightarrow> 'c query_cache \<Rightarrow> lock_metrics \<Rightarrow> int \<Rightarrow> sync_status \<Rightarrow> stats_response" where
  "handle_stats mcount mcapacity g qc m now status =
     (let s = stats g in
      \<lparr>st_node_count = stat_node_count s, st_edge_count = stat_edge_count s,
       st_nodes_with_follows = stat_nodes_with_follows s, st_mute_edge_count = stat_mute_edge_count s,
       st_nodes_with_mute_lists = stat_nodes_with_mute_lists s, st_sync = sync_snapshot_of now status,
       st_cache = cache_stats_of mcount mcapacity qc, st_locks = metrics_snapshot m\<rparr>)"

definition handle_health :: "string \<Rightarrow> health_response" where
  "handle_health version = \<lparr>hr_status = ''healthy'', hr_version = version\<rparr>"

section \<open>Routes\<close>

datatype endpoint = Mutes | Trust | Stats | Distance | DistanceBatch | Follows | CommonFollows | Path | ServiceInfo | Health | Ready

datatype http_method = GET | POST

text \<open>The routes behind the rate limit, the body limit and CORS, and those without them.\<close>

definition limited_routes :: "(string \<times> http_method \<times> endpoint) list" where
  "limited_routes =
     [(''/mutes'', GET, Mutes), (''/trust'', GET, Trust), (''/stats'', GET, Stats), (''/distance'', GET, Distance),
      (''/distance/batch'', POST, DistanceBatch), (''/follows'', GET, Follows),
      (''/common-follows'', GET, CommonFollows), (''/path'', GET, Path)]"

definition open_routes :: "(string \<times> http_method \<times> endpoint) list" where
  "open_routes = [(''/'', GET, ServiceInfo), (''/health'', GET, Health), (''/ready'', GET, Ready)]"

definition advertised_endpoints :: "string list" where
  "advertised_endpoints =
     [''/health'', ''/ready'', ''/stats'', ''/distance'', ''/distance/batch'', ''/path'', ''/follows'',
      ''/common-follows'', ''/mutes'', ''/trust'']"

definition burst_size :: "32 word \<Rightarrow> 32 word" where
  "burst_size rate_limit = max 5 (rate_limit div 6)"

text \<open>\<open>service_info\<close> advertises exactly the routed paths but its own, each once.\<close>

lemma advertised_routed:
  "set advertised_endpoints = set (map fst (limited_routes @ open_routes)) - {''/''}"
  "distinct (map fst (limited_routes @ open_routes))"
  by code_simp+

end
