(* ===== verification/HttpSpec.thy ===== *)
theory HttpSpec
  imports HttpApi
begin

text \<open>
  What the distance handlers answer while the graph and the cache change under them. The graph
  runs through a timeline of writes; the handler's reads happen at increasing points of it. An
  answer is exact for the graph of some moment within the request, and the cache stays sound.
\<close>

section \<open>Requests on a timeline\<close>

definition timeline :: "(nat \<Rightarrow> wot_graph) \<Rightarrow> bool" where
  "timeline T \<longleftrightarrow> graph_wf (T 0) \<and> (\<forall>i. later 1 (T i) (T (Suc i)) \<and> graph_small (T i))"

definition sound_at :: "'c cache_ops \<Rightarrow> (nat \<Rightarrow> wot_graph) \<Rightarrow> nat \<Rightarrow> 'c \<Rightarrow> bool" where
  "sound_at ops T i c \<longleftrightarrow> cache_sound i (c_get ops) c (T i)"

text \<open>
  \<open>at i\<close> is the point of the timeline where the request reads for the \<open>i\<close>-th time. The other tasks
  keep the cache sound. Between its reading of the revision and its use of the map they may have
  inserted more, so what it finds is sound for the moment of its next reading but one.
\<close>

definition request_ok :: "'c cache_ops \<Rightarrow> (nat \<Rightarrow> wot_graph) \<Rightarrow> (nat \<Rightarrow> nat) \<Rightarrow> 'c request_env \<Rightarrow> bool" where
  "request_ok ops T at env \<longleftrightarrow>
     timeline T \<and> lossy (c_get ops) (c_put ops) \<and> mono at \<and> (\<forall>i. at i < 2 ^ 63) \<and>
     (\<forall>i. graph_at env i = T (at i)) \<and>
     (\<forall>i c. sound_at ops T (at i) c \<longrightarrow> sound_at ops T (at (i + 2)) (cache_moves env i c))"

definition answered :: "(nat \<Rightarrow> wot_graph) \<Rightarrow> (nat \<Rightarrow> nat) \<Rightarrow> nat \<Rightarrow> distance_query \<Rightarrow> distance_result \<Rightarrow> bool" where
  "answered T at n q r \<longleftrightarrow> (\<exists>i\<le>n. distance_ok (T (at i)) q r)"

lemma answered_mono: "answered T at n q r \<Longrightarrow> n \<le> m \<Longrightarrow> answered T at m q r"
  unfolding answered_def by (meson le_trans)

lemma timeline_later:
  assumes "timeline T"
  shows "i \<le> j \<Longrightarrow> later (j - i) (T i) (T j)"
proof (induction j)
  case (Suc j)
  show ?case
  proof (cases "i = Suc j")
    case False
    then have "later (j - i + 1) (T i) (T (Suc j))"
      using Suc assms by (intro later_trans [of _ _ "T j"]) (auto simp: timeline_def)
    then show ?thesis using False Suc.prems by (simp add: Suc_diff_le)
  qed simp
qed simp

lemma timeline_wf: "timeline T \<Longrightarrow> graph_wf (T i)"
  using timeline_later [of T 0 i] later_wf [of "T 0" i "T i"] by (simp add: timeline_def)

lemma timeline_small: "timeline T \<Longrightarrow> graph_small (T i)"
  by (simp add: timeline_def)

lemma timeline_ids:
  "timeline T \<Longrightarrow> i \<le> j \<Longrightarrow> pubkey_to_id (T i) a = Some n \<Longrightarrow> pubkey_to_id (T j) a = Some n"
  using later_ids [of "T i" "j - i" "T j" a n] timeline_wf [of T i] timeline_later [of T i j] timeline_small [of T j] by simp

lemma sound_at_mono: "timeline T \<Longrightarrow> i \<le> j \<Longrightarrow> sound_at ops T i c \<Longrightarrow> sound_at ops T j c"
  using cache_sound_later [of i "c_get ops" c "T i" "j - i" "T j"] timeline_later [of T i j]
  by (simp add: sound_at_def)

section \<open>One look-up, one insertion\<close>


lemma request_facts:
  assumes "request_ok ops T at env"
  shows "timeline T" "lossy (c_get ops) (c_put ops)" "i \<le> j \<Longrightarrow> at i \<le> at j" "at i < 2 ^ 63"
    "graph_at env i = T (at i)" "graph_wf (T (at i))" "graph_small (T (at i))"
  using assms timeline_wf timeline_small by (auto simp: request_ok_def mono_def)

lemma request_moves:
  assumes "request_ok ops T at env" "sound_at ops T (at j) c" "j \<le> i"
  shows "sound_at ops T (at (i + 2)) (cache_moves env i c)"
  using assms sound_at_mono [of T "at j" "at i" ops c] request_facts(1,3) [OF assms(1)]
  unfolding request_ok_def by blast

definition pair_query :: "string \<Rightarrow> string \<Rightarrow> 8 word \<Rightarrow> bool \<Rightarrow> distance_query" where
  "pair_query a b h br = \<lparr>dq_from = a, dq_to = b, dq_max_hops = h, dq_include_bridges = br\<rparr>"

lemma key_of_ids_Some:
  "key_of_ids i j h br = Some k \<longleftrightarrow> i = Some (key_from k) \<and> j = Some (key_to k) \<and> key_max_hops k = h \<and> key_bridges k = br"
  by (cases k) (auto simp: key_of_ids_def cache_key_new_def split: option.splits)

lemma computed_answer:
  assumes "request_ok ops T at env" "compute_distance (graph_at env i) s q = Some (r, st)" "i \<le> n"
  shows "answered T at n q r"
proof -
  have "distance_ok (T (at i)) q r"
    using compute_distance_ok [OF request_facts(6) [OF assms(1)], of i s q] assms(2) request_facts(5) [OF assms(1)] by simp
  then show ?thesis using assms(3) unfolding answered_def by blast
qed

lemma compute_total: "request_ok ops T at env \<Longrightarrow> \<exists>r st. compute_distance (graph_at env i) s q = Some (r, st)"
  using compute_distance_ok [of "graph_at env i" s q] request_facts(5,6) by metis

lemma try_cache_answer:
  assumes ok: "request_ok ops T at env" and sound: "sound_at ops T (at (m + 2)) c"
    and hit: "try_cache ops env bypass c (key_of_ids (get_node_id (graph_at env i) a) (get_node_id (graph_at env j) b) h br) m = Some r"
    and before: "i \<le> m" "j \<le> m" and n: "m + 2 \<le> n"
  shows "\<not> bypass \<and> answered T at n (pair_query a b h br) r"
proof -
  note f = request_facts [OF ok]
  let ?key = "key_of_ids (get_node_id (graph_at env i) a) (get_node_id (graph_at env j) b) h br"
  obtain k where k: "?key = Some k" "\<not> bypass"
    "cache_get (c_get ops) c k (T (at m)) (T (at (m + 1))) (T (at (m + 2))) = Some r"
    using hit by (auto simp: try_cache_def f(5) split: option.splits if_splits)
  have ids: "pubkey_to_id (T (at i)) a = Some (key_from k)" "pubkey_to_id (T (at j)) b = Some (key_to k)"
    "key_max_hops k = h" "key_bridges k = br"
    using k(1) by (simp_all add: key_of_ids_Some get_node_id_def f(5))
  have le: "at m \<le> at (m + 1)" "at (m + 1) \<le> at (m + 2)" "at i \<le> at (m + 2)" "at j \<le> at (m + 2)"
    using f(3) before by simp_all
  have bounds: "at (m + 2) < 2 ^ 64 - 2 ^ 32" "(at (m + 1) - at m) + (at (m + 2) - at (m + 1)) < 2 ^ 64 - 2 ^ 32"
    using le f(4) [of "m + 2"] by simp_all
  have "map_option fst (compute_distance (T (at (m + 2))) bfs_state_new (key_query a b k)) = Some r"
    by (rule cache_get_current [OF sound [unfolded sound_at_def] f(6) timeline_later [OF f(1) le(1)] timeline_later [OF f(1) le(2)]
          f(7) bounds k(3) timeline_ids [OF f(1) le(3) ids(1)] timeline_ids [OF f(1) le(4) ids(2)]])
  moreover have "key_query a b k = pair_query a b h br" using ids(3,4) by (simp add: key_query_def pair_query_def)
  ultimately obtain st where "compute_distance (T (at (m + 2))) bfs_state_new (pair_query a b h br) = Some (r, st)"
    by auto
  then show ?thesis using computed_answer [OF ok, of "m + 2"] n k(2) by (simp add: f(5))
qed

lemma try_insert_sound:
  assumes ok: "request_ok ops T at env" and sound: "sound_at ops T (at (m + 2)) c"
    and run: "compute_distance (graph_at env j) s (pair_query a b h br) = Some (r, st)" and moments: "i \<le> j" "j \<le> m"
    and key: "\<And>k. key = Some k \<Longrightarrow> pubkey_to_id (T (at m)) a = Some (key_from k) \<and> pubkey_to_id (T (at m)) b = Some (key_to k) \<and>
      key_max_hops k = h \<and> key_bridges k = br"
  shows "sound_at ops T (at (m + 2)) (try_insert ops env c key r (revision (graph_at env i)) m)"
proof -
  note f = request_facts [OF ok]
  have le: "at i \<le> at j" "at j \<le> at m" "at m \<le> at (m + 1)" "at (m + 1) \<le> at (m + 2)" using f(3) moments by simp_all
  show ?thesis
  proof (cases key)
    case (Some k)
    note ids = key [OF Some]
    have "sound_at ops T (at (m + 2)) (cache_insert (c_put ops) c k r (T (at m)) (T (at (m + 1))) (revision (T (at i))))"
    proof (cases "revision (T (at m)) = revision (T (at i))")
      case True
      have "at m - at i < 2 ^ 64 - 2 ^ 32" using f(4) [of m] by simp
      then have "same_view (T (at i)) (T (at m))"
        using later_view [OF f(6) timeline_later [OF f(1)] f(7)] le True by simp
      then have known: "pubkey_to_id (T (at i)) a \<noteq> None" "pubkey_to_id (T (at i)) b \<noteq> None"
        using ids by (simp_all add: same_view_def)
      have q: "pair_query a b h br = key_query a b k" using ids by (simp add: key_query_def pair_query_def)
      have "entry_sound (at (m + 1)) (T (at (m + 1))) k (from_result r (T (at (m + 1))) (revision (T (at i))))"
        by (rule inserted_entry_sound [OF f(6) timeline_later [OF f(1) le(1)] timeline_later [OF f(1) le(2)]
              timeline_later [OF f(1) le(3)] f(7) _ _ run [unfolded f(5) q] _ _ known True])
          (use f(4) [of m] le timeline_ids [OF f(1) le(3)] ids in auto)
      then have "entry_sound (at (m + 2)) (T (at (m + 2))) k (from_result r (T (at (m + 1))) (revision (T (at i))))"
        using entry_sound_later timeline_later [OF f(1) le(4)] le(4) by (metis le_add_diff_inverse)
      then show ?thesis
        using cache_put_sound [OF f(2) sound [unfolded sound_at_def]] True by (simp add: sound_at_def cache_insert_def)
    next
      case False
      then show ?thesis using sound by (simp add: cache_insert_def)
    qed
    then show ?thesis using Some by (simp add: try_insert_def f(5))
  qed (use sound in \<open>simp add: try_insert_def\<close>)
qed

section \<open>Guards\<close>

definition pubkey_ok :: "string \<Rightarrow> bool" where
  "pubkey_ok a \<longleftrightarrow> length a = 64 \<and> list_all is_hexdigit a"

definition hops_ok :: "8 word \<Rightarrow> bool" where
  "hops_ok h \<longleftrightarrow> 1 \<le> h \<and> h \<le> max_hops_limit"

lemma guard_cases:
  "validate_pubkey a = Ok () \<longleftrightarrow> pubkey_ok a" "validate_pubkey a = Err e \<Longrightarrow> error_status e = 400 \<and> \<not> pubkey_ok a"
  "validate_max_hops h = Ok () \<longleftrightarrow> hops_ok h" "validate_max_hops h = Err e \<Longrightarrow> error_status e = 400 \<and> \<not> hops_ok h"
  "query_permit n = Ok () \<longleftrightarrow> 0 < n" "query_permit n = Err e \<Longrightarrow> error_status e = 503 \<and> n = 0"
  by (auto simp: validate_pubkey_def validate_max_hops_def query_permit_def pubkey_ok_def hops_ok_def error_status_def
      split: if_splits)

lemma joined_cases:
  "joined dropped (Some a) = Ok b \<longleftrightarrow> \<not> dropped \<and> b = a"
  "joined dropped (Some a) = Err e \<longleftrightarrow> dropped \<and> e = internal_error ''Internal computation error''"
  by (auto simp: joined_def)

lemma internal_status [simp]: "error_status (internal_error msg) = 500"
  by (simp add: internal_error_def error_status_def)

lemma distance_guards_cases:
  "distance_guards p = Ok () \<longleftrightarrow> pubkey_ok (dp_from p) \<and> pubkey_ok (dp_to p) \<and> hops_ok (dp_max_hops p)"
  "distance_guards p = Err e \<Longrightarrow> error_status e = 400 \<and> \<not> (pubkey_ok (dp_from p) \<and> pubkey_ok (dp_to p) \<and> hops_ok (dp_max_hops p))"
  by (auto simp: distance_guards_def guard_cases(1,3) split: result.splits dest: guard_cases(2,4))

section \<open>Single distances\<close>

text \<open>Why a request got an error: it was refused, or no permit was free, or its task was lost.\<close>

definition failure :: "bool \<Rightarrow> bool \<Rightarrow> bool \<Rightarrow> error_response \<Rightarrow> bool" where
  "failure invalid busy lost e \<longleftrightarrow>
     error_status e = 400 \<and> invalid \<or> error_status e = 503 \<and> \<not> invalid \<and> busy \<or> error_status e = 500 \<and> \<not> invalid \<and> lost"

lemma params_query: "query_of_params p = pair_query (dp_from p) (dp_to p) (dp_max_hops p) (dp_include_bridges p)"
  by (simp add: query_of_params_def pair_query_def)

lemma known_later:
  assumes "request_ok ops T at env" "get_node_id (graph_at env i) a = Some n" "i \<le> m"
  shows "pubkey_to_id (T (at m)) a = Some n"
  using assms timeline_ids request_facts(1,3,5) [OF assms(1)] by (metis get_node_id_def)

lemma or_else_known:
  assumes "request_ok ops T at env"
    and "or_else (get_node_id (graph_at env i) a) (get_node_id (graph_at env j) a) = Some n" "i \<le> m" "j \<le> m"
  shows "pubkey_to_id (T (at m)) a = Some n"
  using assms(2) known_later [OF assms(1) _ assms(3)] known_later [OF assms(1) _ assms(4)]
  by (auto simp: or_else_def split: option.splits)

theorem get_distance_ok:
  assumes ok: "request_ok ops T at env" and sound: "sound_at ops T (at 0) c"
    and run: "get_distance ops env p c = (r, c')"
  shows "sound_at ops T (at 11) c' \<and>
    (case r of
       Ok d \<Rightarrow> distance_guards p = Ok () \<and> answered T at 10 (query_of_params p) d
     | Err e \<Rightarrow> failure (distance_guards p \<noteq> Ok ()) (free_slots env 0 = 0) (task_dropped env 0) e)"
proof -
  note f = request_facts [OF ok]
  have keep: "sound_at ops T (at 11) c1" if "sound_at ops T (at i) c1" "i \<le> 11" for c1 i
    using sound_at_mono [OF f(1) f(3) that(1)] that(2) by simp
  show ?thesis
  proof (cases "distance_guards p")
    case (Err e)
    then show ?thesis using run keep [OF sound] distance_guards_cases(2) [OF Err] by (auto simp: get_distance_def failure_def)
  next
    case (Ok u)
    let ?c1 = "cache_moves env 2 c"
    let ?key = "\<lambda>i j. key_of_ids i j (dp_max_hops p) (dp_include_bridges p)"
    let ?from = "get_node_id (graph_at env 0) (dp_from p)" and ?to = "get_node_id (graph_at env 1) (dp_to p)"
    have c1: "sound_at ops T (at (2 + 2)) ?c1" by (rule request_moves [OF ok sound]) simp
    show ?thesis
    proof (cases "try_cache ops env (dp_bypass_cache p) ?c1 (?key ?from ?to) 2")
      case (Some d)
      then have "answered T at 10 (query_of_params p) d"
        using try_cache_answer [OF ok c1 Some] by (simp add: params_query)
      then show ?thesis using run Ok Some keep [OF c1] by (auto simp: get_distance_def Let_def)
    next
      case None
      obtain d st where d: "compute_distance (graph_at env 6) (scratch_at env 0) (query_of_params p) = Some (d, st)"
        using compute_total [OF ok] by blast
      consider (busy) e where "query_permit (free_slots env 0) = Err e"
        | (dropped) "query_permit (free_slots env 0) = Ok ()" "task_dropped env 0"
        | (finished) "query_permit (free_slots env 0) = Ok ()" "\<not> task_dropped env 0"
        by (cases "query_permit (free_slots env 0)") auto
      then show ?thesis
      proof cases
        case busy
        then show ?thesis using run Ok None keep [OF c1] guard_cases(6) [OF busy]
          by (auto simp: get_distance_def Let_def failure_def)
      next
        case dropped
        then show ?thesis using run Ok None keep [OF c1] d
          by (auto simp: get_distance_def Let_def failure_def joined_def)
      next
        case finished
        let ?key2 = "?key (or_else ?from (get_node_id (graph_at env 7) (dp_from p)))
          (or_else ?to (get_node_id (graph_at env 8) (dp_to p)))"
        let ?c3 = "try_insert ops env (cache_moves env 9 ?c1) ?key2 d (revision (graph_at env 5)) 9"
        have "sound_at ops T (at (9 + 2)) ?c3"
          by (rule try_insert_sound [OF ok request_moves [OF ok c1] d [unfolded params_query]])
            (auto simp: key_of_ids_Some intro: or_else_known [OF ok])
        moreover have "answered T at 10 (query_of_params p) d" by (rule computed_answer [OF ok d]) simp
        ultimately show ?thesis using run Ok None d finished by (auto simp: get_distance_def Let_def joined_def)
      qed
    qed
  qed
qed

end
