(* ===== verification/HttpBatch.thy ===== *)
theory HttpBatch
  imports HttpSpec
begin

text \<open>
  The batch handler (\<open>batch_distance\<close> in \<open>api/http.rs\<close>) answers each position of the request as a
  request of its own would be answered: each distinct target is resolved once, from the cache or
  by a search, no position is left open (the \<open>expect\<close> does not panic), and equal targets get one
  answer.
\<close>

section \<open>The distinct targets\<close>

definition indexed :: "string list \<Rightarrow> string list \<times> (string \<Rightarrow> nat option) \<times> nat list \<Rightarrow> bool" where
  "indexed ts acc =
     (case acc of (uniques, indices, order) \<Rightarrow>
        distinct uniques \<and> (\<forall>t i. indices t = Some i \<longleftrightarrow> i < length uniques \<and> uniques ! i = t) \<and>
        length order = length ts \<and> (\<forall>k<length ts. order ! k < length uniques \<and> uniques ! (order ! k) = ts ! k) \<and>
        set uniques = set ts)"

lemma index_target_step:
  assumes "indexed ts acc"
  shows "indexed (ts @ [t]) (index_target t acc)"
proof -
  obtain uniques indices order where acc: "acc = (uniques, indices, order)" by (cases acc)
  note i = assms [unfolded acc indexed_def prod.case]
  show ?thesis
  proof (cases "indices t")
    case None
    have step: "index_target t acc = (uniques @ [t], indices(t \<mapsto> length uniques), order @ [length uniques])"
      using None by (simp add: acc index_target_def)
    have new: "t \<notin> set uniques" using i None by (metis in_set_conv_nth option.distinct(1))
    have "(indices(t \<mapsto> length uniques)) x = Some k \<longleftrightarrow> k < Suc (length uniques) \<and> (uniques @ [t]) ! k = x" for x k
      using i new by (cases "k = length uniques") (auto simp: nth_append)
    moreover have "(order @ [length uniques]) ! k < Suc (length uniques) \<and>
        (uniques @ [t]) ! ((order @ [length uniques]) ! k) = (ts @ [t]) ! k" if "k < Suc (length ts)" for k
      using i that by (cases "k = length ts") (auto simp: nth_append less_Suc_eq)
    ultimately show ?thesis using i new by (simp add: step indexed_def)
  next
    case (Some j)
    have step: "index_target t acc = (uniques, indices, order @ [j])"
      using Some by (simp add: acc index_target_def)
    have j: "j < length uniques" "uniques ! j = t" using i Some by blast+
    then have "t \<in> set ts" using i nth_mem by blast
    moreover have "(order @ [j]) ! k < length uniques \<and> uniques ! ((order @ [j]) ! k) = (ts @ [t]) ! k"
      if "k < Suc (length ts)" for k
      using i j that by (cases "k = length ts") (auto simp: nth_append less_Suc_eq)
    ultimately show ?thesis using i by (auto simp: step indexed_def)
  qed
qed

lemma index_targets_ok: "indexed ts (index_targets ts)"
proof (induction ts rule: rev_induct)
  case Nil
  then show ?case by (simp add: index_targets_def indexed_def)
next
  case (snoc t ts)
  then show ?case using index_target_step by (simp add: index_targets_def)
qed

section \<open>Resolving the targets\<close>

text \<open>The first \<open>n\<close> targets have a good answer or are among the misses.\<close>

definition resolved ::
    "(nat \<Rightarrow> distance_result \<Rightarrow> bool) \<Rightarrow> string list \<Rightarrow> nat \<Rightarrow> distance_result option list \<Rightarrow> (nat \<times> string) list \<Rightarrow> bool" where
  "resolved good uniques n computed misses \<longleftrightarrow>
     length computed = length uniques \<and> length misses \<le> n \<and>
     (\<forall>i<n. (\<exists>r. computed ! i = Some r \<and> good i r) \<or> (i, uniques ! i) \<in> set misses) \<and>
     (\<forall>(i, t) \<in> set misses. i < n \<and> t = uniques ! i)"

lemma resolved_hit:
  assumes "resolved good uniques n computed misses" "n < length uniques" "good n r"
  shows "resolved good uniques (Suc n) (computed[n := Some r]) misses"
  using assms by (auto simp: resolved_def less_Suc_eq nth_list_update)

lemma resolved_miss:
  assumes "resolved good uniques n computed misses" "n < length uniques"
  shows "resolved good uniques (Suc n) computed (misses @ [(n, uniques ! n)])"
  using assms by (auto simp: resolved_def less_Suc_eq)

definition good_answer ::
    "(nat \<Rightarrow> wot_graph) \<Rightarrow> (nat \<Rightarrow> nat) \<Rightarrow> nat \<Rightarrow> batch_request \<Rightarrow> string list \<Rightarrow> nat \<Rightarrow> distance_result \<Rightarrow> bool" where
  "good_answer T at m req uniques i r \<longleftrightarrow> answered T at m (batch_query req (uniques ! i)) r"

lemma batch_query_pair: "batch_query req t = pair_query (br_from req) t (br_max_hops req) (br_include_bridges req)"
  by (simp add: batch_query_def pair_query_def)

lemma look_up_targets_ok:
  assumes ok: "request_ok ops T at env" and m: "4 * length uniques \<le> m"
    and src: "from_id = get_node_id (graph_at env 0) (br_from req)"
  shows "n \<le> length uniques \<Longrightarrow> sound_at ops T (at (4 * n)) c \<Longrightarrow>
    resolved (good_answer T at m req uniques) uniques n computed misses \<Longrightarrow>
    look_up_targets ops env req from_id (enumerate n (drop n uniques)) c computed misses = (computed', misses', c') \<Longrightarrow>
    resolved (good_answer T at m req uniques) uniques (length uniques) computed' misses' \<and>
    sound_at ops T (at (4 * length uniques)) c'"
proof (induction "length uniques - n" arbitrary: n c computed misses)
  case 0
  then show ?case by simp
next
  case (Suc d)
  have n: "n < length uniques" using Suc.hyps(2) by simp
  have rest: "enumerate n (drop n uniques) = (n, uniques ! n) # enumerate (Suc n) (drop (Suc n) uniques)"
    using n by (simp add: Cons_nth_drop_Suc [symmetric])
  let ?c1 = "cache_moves env (4 * n + 2) c"
  let ?key = "key_of_ids from_id (get_node_id (graph_at env (4 * n + 1)) (uniques ! n)) (br_max_hops req) (br_include_bridges req)"
  have c1: "sound_at ops T (at (4 * n + 2 + 2)) ?c1" by (rule request_moves [OF ok Suc.prems(2)]) simp
  have next_n: "4 * n + 2 + 2 = 4 * Suc n" by simp
  have c1': "sound_at ops T (at (4 * Suc n)) ?c1" using c1 by (simp only: next_n)
  note IH = Suc.hyps(1) [of "Suc n", OF _ _ c1']
  show ?case
  proof (cases "try_cache ops env (br_bypass_cache req) ?c1 ?key (4 * n + 2)")
    case None
    then show ?thesis
      using IH [OF _ _ resolved_miss [OF Suc.prems(3) n]] Suc.prems(4) Suc.hyps(2) n
      by (simp add: rest Let_def)
  next
    case (Some r)
    have "answered T at m (batch_query req (uniques ! n)) r"
      using try_cache_answer [OF ok c1 Some [unfolded src]] n m by (simp add: batch_query_pair)
    then have "good_answer T at m req uniques n r" by (simp add: good_answer_def)
    then show ?thesis
      using IH [OF _ _ resolved_hit [OF Suc.prems(3) n]] Suc.prems(4) Suc.hyps(2) n Some
      by (simp add: rest Let_def)
  qed
qed

lemma compute_misses_ok:
  assumes ok: "request_ok ops T at env"
  shows "sound_at ops T (at (m + 6 * j)) c \<Longrightarrow> m + 6 * (j + length rest) \<le> l \<Longrightarrow>
    \<forall>(i, t) \<in> set rest. t = uniques ! i \<Longrightarrow> \<forall>(i, r) \<in> set acc. good_answer T at l req uniques i r \<Longrightarrow>
    \<exists>res c'. compute_misses ops env req m j rest c acc = (Some res, c') \<and> map fst res = map fst acc @ map fst rest \<and>
      (\<forall>(i, r) \<in> set res. good_answer T at l req uniques i r) \<and> sound_at ops T (at l) c'"
proof (induction rest arbitrary: j c acc)
  case Nil
  then show ?case using sound_at_mono [OF request_facts(1) [OF ok] request_facts(3) [OF ok]] by simp
next
  case (Cons p rest)
  obtain i t where p: "p = (i, t)" by (cases p)
  have t: "t = uniques ! i" using Cons.prems(3) p by simp
  obtain r st where r: "compute_distance (graph_at env (m + 6 * j + 1)) (scratch_at env j) (batch_query req t) = Some (r, st)"
    using compute_total [OF ok] by blast
  let ?key = "key_of_ids (get_node_id (graph_at env (m + 6 * j + 2)) (br_from req))
    (get_node_id (graph_at env (m + 6 * j + 3)) t) (br_max_hops req) (br_include_bridges req)"
  let ?c1 = "try_insert ops env (cache_moves env (m + 6 * j + 4) c) ?key r (revision (graph_at env (m + 6 * j))) (m + 6 * j + 4)"
  have "sound_at ops T (at (m + 6 * j + 4 + 2)) ?c1"
    by (rule try_insert_sound [OF ok request_moves [OF ok Cons.prems(1)] r [unfolded batch_query_pair]])
      (auto simp: key_of_ids_Some intro: known_later [OF ok])
  then have c1: "sound_at ops T (at (m + 6 * (j + 1))) ?c1" by (simp add: algebra_simps)
  have "answered T at l (batch_query req t) r" by (rule computed_answer [OF ok r]) (use Cons.prems(2) in simp)
  then have good: "\<forall>(i, r) \<in> set (acc @ [(i, r)]). good_answer T at l req uniques i r"
    using Cons.prems(4) t by (auto simp: good_answer_def)
  have "m + 6 * (j + 1 + length rest) \<le> l" "\<forall>(i, t) \<in> set rest. t = uniques ! i" using Cons.prems(2,3) by simp_all
  note IH = Cons.IH [OF c1 this good]
  have "compute_misses ops env req m j (p # rest) c acc = compute_misses ops env req m (j + 1) rest ?c1 (acc @ [(i, r)])"
    by (simp only: p compute_misses.simps Let_def r option.case prod.case)
  then show ?case using IH by (simp only: p list.map map_append append_assoc append.simps fst_conv)
qed

lemma fold_store_length [simp]: "length (fold (\<lambda>(i, r) xs. xs[i := Some r]) res xs) = length xs"
  by (induction res arbitrary: xs) auto

lemma fold_store:
  "(i \<notin> fst ` set res \<longrightarrow> fold (\<lambda>(i, r) xs. xs[i := Some r]) res xs ! i = xs ! i) \<and>
   (i \<in> fst ` set res \<longrightarrow> i < length xs \<longrightarrow> (\<exists>r. (i, r) \<in> set res \<and> fold (\<lambda>(i, r) xs. xs[i := Some r]) res xs ! i = Some r))"
proof (induction res rule: rev_induct)
  case (snoc p res)
  obtain j r where p: "p = (j, r)" by (cases p)
  show ?case using snoc by (cases "i = j") (auto simp: p nth_list_update)
qed simp

lemma resolved_all:
  assumes "resolved good uniques (length uniques) computed misses"
    and "map fst res = map fst misses" "\<forall>(i, r) \<in> set res. good i r" "i < length uniques"
  shows "\<exists>r. fold (\<lambda>(i, r) xs. xs[i := Some r]) res computed ! i = Some r \<and> good i r"
proof (cases "i \<in> fst ` set res")
  case True
  moreover have "i < length computed" using assms(1,4) by (simp add: resolved_def)
  ultimately obtain r where "(i, r) \<in> set res" "fold (\<lambda>(i, r) xs. xs[i := Some r]) res computed ! i = Some r"
    using fold_store [of i res computed] by blast
  then show ?thesis using assms(3) by blast
next
  case False
  moreover have "fst ` set res = fst ` set misses" using assms(2) by (metis list.set_map)
  ultimately have "(i, uniques ! i) \<notin> set misses" "fold (\<lambda>(i, r) xs. xs[i := Some r]) res computed ! i = computed ! i"
    using fold_store [of i res computed] by force+
  then show ?thesis using assms(1,4) by (auto simp: resolved_def)
qed

section \<open>The reply\<close>

definition batch_ok :: "(nat \<Rightarrow> wot_graph) \<Rightarrow> (nat \<Rightarrow> nat) \<Rightarrow> nat \<Rightarrow> batch_request \<Rightarrow> batch_response \<Rightarrow> bool" where
  "batch_ok T at m req resp \<longleftrightarrow>
     bre_from resp = br_from req \<and> length (bre_results resp) = length (br_targets req) \<and>
     (\<forall>k<length (br_targets req). answered T at m (batch_query req (br_targets req ! k)) (bre_results resp ! k)) \<and>
     (\<forall>k<length (br_targets req). \<forall>l<length (br_targets req).
        br_targets req ! k = br_targets req ! l \<longrightarrow> bre_results resp ! k = bre_results resp ! l)"

lemma batch_reply_ok:
  assumes ix: "indexed (br_targets req) (uniques, indices, order)" and len: "length computed = length uniques"
    and all: "\<And>i. i < length uniques \<Longrightarrow> \<exists>r. computed ! i = Some r \<and> good_answer T at m req uniques i r"
  shows "\<exists>resp. batch_reply req computed order = Some (Ok resp) \<and> batch_ok T at m req resp"
proof -
  note i = ix [unfolded indexed_def prod.case]
  have dist: "distinct uniques" using i by blast
  let ?rs = "map (\<lambda>i. the (computed ! i)) order"
  have bound: "i < length uniques" if "i \<in> set order" for i
    using that i by (metis in_set_conv_nth)
  have results: "batch_results computed order = Some ?rs"
    unfolding batch_results_def
  proof (rule collect_all_map)
    fix i assume "i \<in> set order"
    then show "Option.bind (index computed i) (\<lambda>r. r) = Some (the (computed ! i))"
      using all [of i] bound [of i] len by (auto simp: index_Some)
  qed
  have n: "length order = length (br_targets req)" using i by blast
  have place: "order ! k < length uniques" "uniques ! (order ! k) = br_targets req ! k" if "k < length (br_targets req)" for k
    using i that by blast+
  have ans: "answered T at m (batch_query req (br_targets req ! k)) (the (computed ! (order ! k)))"
    if "k < length (br_targets req)" for k
    using all [OF place(1) [OF that]] place(2) [OF that] by (auto simp: good_answer_def)
  have same: "order ! k = order ! l" if "k < length (br_targets req)" "l < length (br_targets req)"
      "br_targets req ! k = br_targets req ! l" for k l
    using place [OF that(1)] place [OF that(2)] that(3) dist nth_eq_iff_index_eq by metis
  have "batch_ok T at m req \<lparr>bre_from = br_from req, bre_results = ?rs\<rparr>"
    unfolding batch_ok_def batch_response.simps length_map
  proof (intro conjI allI impI)
    fix k assume k: "k < length (br_targets req)"
    show "answered T at m (batch_query req (br_targets req ! k)) (?rs ! k)"
      using ans [OF k] k n by (simp only: nth_map)
    fix l assume "l < length (br_targets req)" "br_targets req ! k = br_targets req ! l"
    then show "?rs ! k = ?rs ! l" using same [OF k] k n by (simp only: nth_map)
  qed (rule refl n)+
  then show ?thesis by (simp add: batch_reply_def results)
qed

section \<open>The handler\<close>

lemma first_error_pubkeys:
  "first_error (map validate_pubkey as) = Ok () \<longleftrightarrow> list_all pubkey_ok as"
  "first_error (map validate_pubkey as) = Err e \<Longrightarrow> error_status e = 400 \<and> \<not> list_all pubkey_ok as"
  by (induction as) (auto simp: guard_cases(1) dest: guard_cases(2) split: result.splits)

definition batch_valid :: "batch_request \<Rightarrow> bool" where
  "batch_valid req \<longleftrightarrow>
     pubkey_ok (br_from req) \<and> hops_ok (br_max_hops req) \<and> length (br_targets req) \<le> 100 \<and> list_all pubkey_ok (br_targets req)"

lemma batch_guards_cases:
  "batch_guards req = Ok () \<longleftrightarrow> batch_valid req"
  "batch_guards req = Err e \<Longrightarrow> error_status e = 400 \<and> \<not> batch_valid req"
  by (auto simp: batch_guards_def batch_valid_def guard_cases(1,3) first_error_pubkeys(1) error_status_def
      split: result.splits if_splits dest: guard_cases(2,4) first_error_pubkeys(2))

text \<open>Four moments for each distinct target, then six for each search; there are at most 100 targets.\<close>

definition batch_moments :: nat where
  "batch_moments = 1001"

theorem batch_distance_ok:
  assumes ok: "request_ok ops T at env" and sound: "sound_at ops T (at 0) c"
    and run: "batch_distance ops env req c = (r, c')"
  shows "sound_at ops T (at batch_moments) c' \<and>
    (case r of
       None \<Rightarrow> False
     | Some (Ok resp) \<Rightarrow> batch_valid req \<and> batch_ok T at batch_moments req resp
     | Some (Err e) \<Rightarrow> failure (\<not> batch_valid req) (free_slots env 0 = 0) (task_dropped env 0) e)"
proof -
  note f = request_facts [OF ok]
  let ?M = batch_moments
  have keep: "sound_at ops T (at ?M) c1" if "sound_at ops T (at i) c1" "i \<le> ?M" for c1 i
    using sound_at_mono [OF f(1) f(3) that(1)] that(2) by simp
  show ?thesis
  proof (cases "batch_guards req")
    case (Err e)
    then show ?thesis using run keep [OF sound] batch_guards_cases(2) [OF Err] by (auto simp: batch_distance_def failure_def)
  next
    case (Ok u)
    then have valid: "batch_valid req" using batch_guards_cases(1) by simp
    obtain uniques indices order where ix: "index_targets (br_targets req) = (uniques, indices, order)" by (metis prod.exhaust)
    have indexed: "indexed (br_targets req) (uniques, indices, order)" using index_targets_ok [of "br_targets req"] ix by simp
    have "distinct uniques" "set uniques = set (br_targets req)" using indexed by (simp_all add: indexed_def)
    then have "length uniques \<le> length (br_targets req)" using distinct_card [of uniques] card_length [of "br_targets req"] by simp
    then have N: "length uniques \<le> 100" using valid by (simp add: batch_valid_def)
    let ?from = "get_node_id (graph_at env 0) (br_from req)"
    let ?good = "good_answer T at ?M req uniques"
    obtain computed misses c1 where look:
      "look_up_targets ops env req ?from (enumerate 0 uniques) c (replicate (length uniques) None) [] = (computed, misses, c1)"
      by (metis prod.exhaust)
    have "resolved ?good uniques (length uniques) computed misses \<and> sound_at ops T (at (4 * length uniques)) c1"
      by (rule look_up_targets_ok [OF ok _ refl, where n = 0])
        (use N sound look in \<open>simp_all add: batch_moments_def resolved_def\<close>)
    then have res: "resolved ?good uniques (length uniques) computed misses" and c1: "sound_at ops T (at (4 * length uniques)) c1"
      by blast+
    have len: "length computed = length uniques" using res by (simp add: resolved_def)
    have c1': "sound_at ops T (at ?M) c1" by (rule keep [OF c1]) (use N in \<open>simp add: batch_moments_def\<close>)
    consider (hits) "misses = []"
      | (busy) e where "misses \<noteq> []" "query_permit (free_slots env 0) = Err e"
      | (dropped) "misses \<noteq> []" "query_permit (free_slots env 0) = Ok ()" "task_dropped env 0"
      | (finished) "misses \<noteq> []" "query_permit (free_slots env 0) = Ok ()" "\<not> task_dropped env 0"
      by (cases "query_permit (free_slots env 0)") auto
    then show ?thesis
    proof cases
      case hits
      have "\<exists>resp. batch_reply req computed order = Some (Ok resp) \<and> batch_ok T at ?M req resp"
        by (rule batch_reply_ok [OF indexed len]) (use res hits in \<open>simp add: resolved_def\<close>)
      then show ?thesis using run Ok ix look hits c1' valid by (auto simp: batch_distance_def)
    next
      case busy
      then show ?thesis using run Ok ix look c1' valid guard_cases(6) [OF busy(2)]
        by (auto simp: batch_distance_def failure_def)
    next
      case dropped
      then show ?thesis using run Ok ix look c1' valid by (auto simp: batch_distance_def failure_def)
    next
      case finished
      let ?m = "4 * length uniques + 1"
      have "sound_at ops T (at (?m + 6 * 0)) c1"
        by (rule sound_at_mono [OF f(1) f(3) c1]) simp
      moreover have "length misses \<le> length uniques" using res by (simp add: resolved_def)
      moreover have "\<forall>(i, t) \<in> set misses. t = uniques ! i" using res by (auto simp: resolved_def)
      ultimately obtain results c2 where comp: "compute_misses ops env req ?m 0 misses c1 [] = (Some results, c2)"
        "map fst results = map fst misses" "\<forall>(i, r) \<in> set results. ?good i r" "sound_at ops T (at ?M) c2"
        using compute_misses_ok [OF ok, of ?m 0 c1 misses ?M uniques "[]" req] N
        by (auto simp: batch_moments_def)
      have "\<exists>resp. batch_reply req (fold (\<lambda>(i, r) xs. xs[i := Some r]) results computed) order = Some (Ok resp) \<and>
          batch_ok T at ?M req resp"
        by (rule batch_reply_ok [OF indexed]) (use len resolved_all [OF res comp(2,3)] in simp_all)
      then show ?thesis using run Ok ix look finished comp valid by (auto simp: batch_distance_def)
    qed
  qed
qed

end
