(* ===== verification/Dvm.thy ===== *)
theory Dvm
  imports HttpSpec
begin

text \<open>
  The Nostr data vending machine (\<open>api/dvm.rs\<close>): a request event carries two keys and a hop
  limit in its tags, the answer is an event of its own. As for the HTTP handlers, each read of the
  graph has its moment. The client of the Nostr library is a parameter: parsing of a tag,
  sending an event, and the JSON of \<open>serde_json\<close>.
\<close>

section \<open>Requests\<close>

definition dvm_request_kind :: nat where "dvm_request_kind = 5950"

definition dvm_response_kind :: nat where "dvm_response_kind = 6950"

record dvm_request =
  rq_id :: string
  rq_pubkey :: string
  rq_tags :: "string list list"

definition dvm_max_hops :: "8 word \<Rightarrow> string \<Rightarrow> 8 word" where
  "dvm_max_hops default_hops value =
     (case parse_word value of
        Some h \<Rightarrow> if 1 \<le> h \<and> h \<le> max_hops_limit then h else clamp 1 max_hops_limit h
      | None \<Rightarrow> default_hops)"

definition dvm_tag :: "8 word \<Rightarrow> string list \<Rightarrow> string list \<times> 8 word \<Rightarrow> string list \<times> 8 word" where
  "dvm_tag default_hops tag acc =
     (case acc of (inputs, h) \<Rightarrow>
        if 3 \<le> length tag \<and> tag ! 0 = ''i'' \<and> tag ! 2 = ''text'' then
          let value = tag ! 1 in
          if CHR '':'' \<in> set value then
            let parts = split_on CHR '':'' value in
            if length parts = 2 then (inputs @ [parts ! 0, parts ! 1], h) else (inputs, h)
          else (inputs @ [value], h)
        else if 3 \<le> length tag \<and> tag ! 0 = ''param'' then
          if tag ! 1 = ''max_hops'' then (inputs, dvm_max_hops default_hops (tag ! 2))
          else if tag ! 1 = ''from'' then (if inputs = [] then inputs @ [tag ! 2] else (tag ! 2) # inputs, h)
          else if tag ! 1 = ''to'' then (inputs @ [tag ! 2], h)
          else (inputs, h)
        else (inputs, h))"

definition dvm_inputs :: "8 word \<Rightarrow> string list list \<Rightarrow> string list \<times> 8 word" where
  "dvm_inputs default_hops tags = fold (dvm_tag default_hops) tags ([], default_hops)"

section \<open>Replies\<close>

datatype dvm_error = BadTag | BadJson | SlotsClosed | DvmTaskFailed | NotSent

record dvm_event =
  de_kind :: nat
  de_content :: string
  de_tags :: "string list list"

record dvm_client =
  parse_tag :: "string list \<Rightarrow> string list option"
  result_json :: "distance_result \<Rightarrow> string option"
  error_json :: "string \<Rightarrow> string"
  send_ok :: bool
  slots_open :: bool

text \<open>The \<open>vec!\<close> of tags, each parsed with \<open>?\<close>, and the sending. The event is the one published, if any.\<close>

definition publish :: "dvm_client \<Rightarrow> string \<Rightarrow> string list list \<Rightarrow> (unit, dvm_error) result \<times> dvm_event option" where
  "publish cl content tags =
     (case collect_all (parse_tag cl) tags of
        None \<Rightarrow> (Err BadTag, None)
      | Some ts \<Rightarrow>
          if send_ok cl
          then (Ok (), Some \<lparr>de_kind = dvm_response_kind, de_content = content, de_tags = ts\<rparr>)
          else (Err NotSent, None))"

definition send_error :: "dvm_client \<Rightarrow> dvm_request \<Rightarrow> string \<Rightarrow> (unit, dvm_error) result \<times> dvm_event option" where
  "send_error cl request error_msg =
     publish cl (error_json cl error_msg)
       [[''e'', rq_id request], [''p'', rq_pubkey request], [''status'', ''error'', error_msg]]"

definition send_result :: "dvm_client \<Rightarrow> dvm_request \<Rightarrow> distance_result \<Rightarrow> (unit, dvm_error) result \<times> dvm_event option" where
  "send_result cl request result =
     (case result_json cl result of
        None \<Rightarrow> (Err BadJson, None)
      | Some content \<Rightarrow>
          publish cl content
            ([[''e'', rq_id request], [''p'', rq_pubkey request]] @
             (case hops result of None \<Rightarrow> [] | Some n \<Rightarrow> [[''result'', decimal n, ''hops'']])))"

section \<open>The handler\<close>

definition dvm_query :: "string \<Rightarrow> string \<Rightarrow> 8 word \<Rightarrow> distance_query" where
  "dvm_query from to h = \<lparr>dq_from = from, dq_to = to, dq_max_hops = h, dq_include_bridges = True\<rparr>"

definition dvm_compute ::
    "dvm_client \<Rightarrow> 'c request_env \<Rightarrow> distance_query \<Rightarrow> (distance_result, dvm_error) result" where
  "dvm_compute cl env q =
     (if \<not> slots_open cl then Err SlotsClosed
      else if task_dropped env 0 then Err DvmTaskFailed
      else case compute_distance (graph_at env 6) (scratch_at env 0) q of
             None \<Rightarrow> Err DvmTaskFailed
           | Some (result, _) \<Rightarrow> Ok result)"

definition dvm_distance ::
    "'c cache_ops \<Rightarrow> 'c request_env \<Rightarrow> dvm_client \<Rightarrow> string \<Rightarrow> string \<Rightarrow> 8 word \<Rightarrow> 'c \<Rightarrow>
     (distance_result, dvm_error) result \<times> 'c" where
  "dvm_distance ops env cl from to h c =
     (let q = dvm_query from to h in
      case key_of_ids (get_node_id (graph_at env 0) from) (get_node_id (graph_at env 1) to) h True of
        None \<Rightarrow> (dvm_compute cl env q, c)
      | Some key \<Rightarrow>
          let c1 = cache_moves env 2 c in
          case cache_get (c_get ops) c1 key (graph_at env 2) (graph_at env 3) (graph_at env 4) of
            Some cached_result \<Rightarrow> (Ok cached_result, c1)
          | None \<Rightarrow>
              let stamp = revision (graph_at env 5) in
              (case dvm_compute cl env q of
                 Err e \<Rightarrow> (Err e, c1)
               | Ok result \<Rightarrow>
                   (Ok result,
                    cache_insert (c_put ops) (cache_moves env 7 c1) key result (graph_at env 7) (graph_at env 8) stamp)))"

definition handle_request ::
    "'c cache_ops \<Rightarrow> 'c request_env \<Rightarrow> dvm_client \<Rightarrow> config \<Rightarrow> dvm_request \<Rightarrow> 'c \<Rightarrow>
     ((unit, dvm_error) result \<times> dvm_event option) \<times> 'c" where
  "handle_request ops env cl cfg request c =
     (case dvm_inputs (max_hops cfg) (rq_tags request) of
        ([from, to], h) \<Rightarrow>
          if length from \<noteq> 64 \<or> \<not> list_all is_hexdigit from then (send_error cl request ''Invalid pubkey format'', c)
          else if length to \<noteq> 64 \<or> \<not> list_all is_hexdigit to then (send_error cl request ''Invalid pubkey format'', c)
          else
            (case dvm_distance ops env cl from to h c of
               (Err e, c1) \<Rightarrow> ((Err e, None), c1)
             | (Ok result, c1) \<Rightarrow> (send_result cl request result, c1))
      | _ \<Rightarrow> (send_error cl request (''Expected two '' @ [CHR 0x27] @ ''i'' @ [CHR 0x27] @ '' tags with pubkeys or '' @ [CHR 0x27] @
               ''from'' @ [CHR 0x27] @ ''/'' @ [CHR 0x27] @ ''to'' @ [CHR 0x27] @ '' params''), c))"

text \<open>
  The loop of \<open>start\<close>: events of another kind, other notifications and receive errors are
  skipped, an error of the handler is only logged. The events published, in order.
\<close>

datatype 'c dvm_input = DvmEvent nat dvm_request "'c request_env" dvm_client | DvmOther | DvmReceiveError

fun dvm_serve :: "'c cache_ops \<Rightarrow> config \<Rightarrow> 'c dvm_input list \<Rightarrow> 'c \<Rightarrow> dvm_event list \<times> 'c" where
  "dvm_serve ops cfg [] c = ([], c)"
| "dvm_serve ops cfg (DvmEvent kind request env cl # inputs) c =
     (if kind = dvm_request_kind then
        case handle_request ops env cl cfg request c of
          ((_, published), c1) \<Rightarrow>
            (case dvm_serve ops cfg inputs c1 of (es, c2) \<Rightarrow> ((case published of Some e \<Rightarrow> [e] | None \<Rightarrow> []) @ es, c2))
      else dvm_serve ops cfg inputs c)"
| "dvm_serve ops cfg (DvmOther # inputs) c = dvm_serve ops cfg inputs c"
| "dvm_serve ops cfg (DvmReceiveError # inputs) c = dvm_serve ops cfg inputs c"

section \<open>Hop limits\<close>

lemma dvm_max_hops_ok: "hops_ok d \<Longrightarrow> hops_ok (dvm_max_hops d value)"
  using clamp_bounds [of 1 max_hops_limit] by (auto simp: dvm_max_hops_def hops_ok_def max_hops_limit_def split: option.split)

text \<open>A limit of zero becomes one, not the upper bound that the log message announces.\<close>

lemma dvm_zero_hops: "dvm_max_hops d ''0'' = 1"
  by code_simp

lemma dvm_tag_hops: "hops_ok d \<Longrightarrow> hops_ok (snd acc) \<Longrightarrow> hops_ok (snd (dvm_tag d tag acc))"
  by (cases acc) (auto simp: dvm_tag_def Let_def dvm_max_hops_ok)

lemma dvm_inputs_hops: "hops_ok d \<Longrightarrow> hops_ok (snd (dvm_inputs d tags))"
proof -
  assume d: "hops_ok d"
  have "hops_ok (snd (fold (dvm_tag d) tags acc))" if "hops_ok (snd acc)" for acc
    using that by (induction tags arbitrary: acc) (simp_all add: dvm_tag_hops [OF d])
  then show ?thesis using d by (simp add: dvm_inputs_def)
qed

section \<open>The documented requests\<close>

text \<open>
  The forms of \<open>docs/DVM.md\<close>: two \<open>i\<close> tags, one with both keys, or two parameters in either order.
  The form of \<open>docs/BRD.md\<close> 2.3 has the second key in a parameter \<open>target\<close>, which the code does not know.
\<close>

definition dvm_forms :: "string \<Rightarrow> string \<Rightarrow> string list list list" where
  "dvm_forms a b =
     [[[''i'', a, ''text''], [''i'', b, ''text'']],
      [[''i'', a @ CHR '':'' # b, ''text'']],
      [[''param'', ''from'', a], [''param'', ''to'', b]],
      [[''param'', ''to'', b], [''param'', ''from'', a]]]"

lemma pubkey_no_colon: "pubkey_ok a \<Longrightarrow> CHR '':'' \<notin> set a"
proof
  assume "pubkey_ok a" "CHR '':'' \<in> set a"
  then have "is_hexdigit CHR '':''" by (simp add: pubkey_ok_def list_all_iff)
  moreover have "\<not> is_hexdigit CHR '':''" by code_simp
  ultimately show False by simp
qed

lemma split_on_none: "sep \<notin> set s \<Longrightarrow> split_on sep s = [s]"
  by (induction s) auto

lemma split_on_one: "sep \<notin> set a \<Longrightarrow> sep \<notin> set b \<Longrightarrow> split_on sep (a @ sep # b) = [a, b]"
  by (induction a) (auto simp: split_on_none)

lemma dvm_tag_cases:
  "dvm_tag d [''i'', v, ''text''] (ins, h) =
     (if CHR '':'' \<in> set v then
        (case split_on CHR '':'' v of [x, y] \<Rightarrow> (ins @ [x, y], h) | _ \<Rightarrow> (ins, h))
      else (ins @ [v], h))"
  "dvm_tag d [''param'', ''max_hops'', v] (ins, h) = (ins, dvm_max_hops d v)"
  "dvm_tag d [''param'', ''from'', v] (ins, h) = (v # ins, h)"
  "dvm_tag d [''param'', ''to'', v] (ins, h) = (ins @ [v], h)"
  "dvm_tag d [''param'', ''target'', v] (ins, h) = (ins, h)"
  by (auto simp: dvm_tag_def Let_def split: list.split)

lemma clamp_hops: "clamp 1 max_hops_limit w = max 1 (min 5 w)"
  by (auto simp: clamp_def max_hops_limit_def max_def min_def not_le)

lemma dvm_forms_read:
  assumes "pubkey_ok a" "pubkey_ok b" "form \<in> set (dvm_forms a b)"
  shows "dvm_inputs d form = ([a, b], d)"
    "dvm_inputs d (form @ [[''param'', ''max_hops'', decimal (unat w)]]) = ([a, b], max 1 (min 5 w))"
proof -
  have f: "fold (dvm_tag d) form ([], d) = ([a, b], d)"
    using assms(3) pubkey_no_colon [OF assms(1)] pubkey_no_colon [OF assms(2)]
    by (auto simp: dvm_forms_def dvm_tag_cases split_on_one)
  then show "dvm_inputs d form = ([a, b], d)" by (simp add: dvm_inputs_def)
  have "dvm_max_hops d (decimal (unat w)) = max 1 (min 5 w)"
    by (simp add: dvm_max_hops_def parse_word_decimal clamp_id flip: clamp_hops)
  then show "dvm_inputs d (form @ [[''param'', ''max_hops'', decimal (unat w)]]) = ([a, b], max 1 (min 5 w))"
    by (simp add: dvm_inputs_def f dvm_tag_cases(2))
qed

lemma dvm_target_unread:
  assumes "pubkey_ok a"
  shows "fst (dvm_inputs d ([[''i'', a, ''text''], [''param'', ''target'', b]] @ rest)) = fst (fold (dvm_tag d) rest ([a], d))"
  using pubkey_no_colon [OF assms] by (simp add: dvm_inputs_def dvm_tag_cases)

section \<open>Replies\<close>

text \<open>What the code relies on of the client: it takes the tags and sends the event.\<close>

definition client_ok :: "dvm_client \<Rightarrow> bool" where
  "client_ok cl \<longleftrightarrow> (\<forall>tag. parse_tag cl tag = Some tag) \<and> (\<forall>r. result_json cl r \<noteq> None) \<and> send_ok cl \<and> slots_open cl"

definition reply_to :: "dvm_request \<Rightarrow> string \<Rightarrow> string list list \<Rightarrow> dvm_event" where
  "reply_to request content extra =
     \<lparr>de_kind = dvm_response_kind, de_content = content,
      de_tags = [[''e'', rq_id request], [''p'', rq_pubkey request]] @ extra\<rparr>"

lemma publish_sends: "client_ok cl \<Longrightarrow> publish cl content tags = (Ok (), Some \<lparr>de_kind = dvm_response_kind, de_content = content, de_tags = tags\<rparr>)"
proof -
  assume "client_ok cl"
  then have "collect_all (parse_tag cl) tags = Some tags" "send_ok cl"
    using collect_all_map [of tags "parse_tag cl" "\<lambda>t. t"] by (simp_all add: client_ok_def)
  then show ?thesis by (simp add: publish_def)
qed

text \<open>Without assumptions on the client: an error of the semaphore or of the task, or an exact distance.\<close>

lemma dvm_distance_any:
  assumes ok: "request_ok ops T at env" and sound: "sound_at ops T (at 0) c"
    and run: "dvm_distance ops env cl a b h c = (r, c')"
  shows "sound_at ops T (at 9) c' \<and>
    (case r of
       Ok d \<Rightarrow> answered T at 8 (dvm_query a b h) d
     | Err e \<Rightarrow> e = SlotsClosed \<and> \<not> slots_open cl \<or> e = DvmTaskFailed \<and> task_dropped env 0)"
proof -
  note f = request_facts [OF ok]
  let ?q = "dvm_query a b h"
  have q: "?q = pair_query a b h True" by (simp add: dvm_query_def pair_query_def)
  let ?key = "key_of_ids (get_node_id (graph_at env 0) a) (get_node_id (graph_at env 1) b) h True"
  let ?c1 = "cache_moves env 2 c"
  have keep: "sound_at ops T (at 9) c1" if "sound_at ops T (at i) c1" "i \<le> 9" for c1 i
    using sound_at_mono [OF f(1) f(3) that(1)] that(2) by simp
  have c1: "sound_at ops T (at (2 + 2)) ?c1" by (rule request_moves [OF ok sound]) simp
  obtain d st where d: "compute_distance (graph_at env 6) (scratch_at env 0) ?q = Some (d, st)"
    using compute_total [OF ok] by blast
  have ans: "answered T at 8 ?q d" by (rule computed_answer [OF ok d]) simp
  have comp: "(case dvm_compute cl env ?q of
       Ok d \<Rightarrow> answered T at 8 ?q d
     | Err e \<Rightarrow> e = SlotsClosed \<and> \<not> slots_open cl \<or> e = DvmTaskFailed \<and> task_dropped env 0)"
    using ans by (simp add: dvm_compute_def d)
  have result: "dvm_compute cl env ?q =
      (if \<not> slots_open cl then Err SlotsClosed else if task_dropped env 0 then Err DvmTaskFailed else Ok d)"
    by (simp add: dvm_compute_def d)
  show ?thesis
  proof (cases ?key)
    case None
    then show ?thesis using run keep [OF sound] comp by (auto simp: dvm_distance_def)
  next
    case key: (Some key)
    show ?thesis
    proof (cases "try_cache ops env False ?c1 ?key 2")
      case (Some r')
      then have "answered T at 8 ?q r'" using try_cache_answer [OF ok c1 Some, of 8] by (simp add: q)
      moreover have "dvm_distance ops env cl a b h c = (Ok r', ?c1)"
        using Some key by (simp add: dvm_distance_def try_cache_def numeral_eq_Suc)
      ultimately show ?thesis using run keep [OF c1] by auto
    next
      case None
      let ?c2 = "try_insert ops env (cache_moves env 7 ?c1) ?key d (revision (graph_at env 5)) 7"
      have "sound_at ops T (at (7 + 2)) ?c2"
        by (rule try_insert_sound [OF ok request_moves [OF ok c1] d [unfolded q]])
          (auto simp: key_of_ids_Some intro: known_later [OF ok])
      moreover have "dvm_distance ops env cl a b h c =
          (case dvm_compute cl env ?q of Err e \<Rightarrow> (Err e, ?c1) | Ok result \<Rightarrow>
            (Ok result, try_insert ops env (cache_moves env 7 ?c1) ?key result (revision (graph_at env 5)) 7))"
        using None key by (simp add: dvm_distance_def try_cache_def try_insert_def Let_def numeral_eq_Suc split: result.split)
      ultimately show ?thesis using run ans keep [OF c1] result by (auto split: if_splits)
    qed
  qed
qed

text \<open>The two keys of a well-formed request.\<close>

definition dvm_pair :: "string list \<Rightarrow> (string \<times> string) option" where
  "dvm_pair inputs =
     (case inputs of [a, b] \<Rightarrow> if pubkey_ok a \<and> pubkey_ok b then Some (a, b) else None | _ \<Rightarrow> None)"

definition dvm_complaint :: "string list \<Rightarrow> string" where
  "dvm_complaint inputs =
     (if length inputs = 2 then ''Invalid pubkey format''
      else ''Expected two '' @ [CHR 0x27] @ ''i'' @ [CHR 0x27] @ '' tags with pubkeys or '' @ [CHR 0x27] @
        ''from'' @ [CHR 0x27] @ ''/'' @ [CHR 0x27] @ ''to'' @ [CHR 0x27] @ '' params'')"

theorem handle_request_ok:
  assumes ok: "request_ok ops T at env" and sound: "sound_at ops T (at 0) c"
    and cl: "client_ok cl" "\<not> task_dropped env 0" and cfg: "hops_ok (max_hops cfg)"
    and run: "handle_request ops env cl cfg request c = ((r, published), c')"
    and tags: "dvm_inputs (max_hops cfg) (rq_tags request) = (inputs, h)"
  shows "r = Ok () \<and> sound_at ops T (at 9) c' \<and> hops_ok h \<and>
    (case dvm_pair inputs of
       Some (a, b) \<Rightarrow> \<exists>d content. answered T at 8 (dvm_query a b h) d \<and> result_json cl d = Some content \<and>
         published = Some (reply_to request content
           (case hops d of None \<Rightarrow> [] | Some n \<Rightarrow> [[''result'', decimal n, ''hops'']]))
     | None \<Rightarrow> published =
         Some (reply_to request (error_json cl (dvm_complaint inputs)) [[''status'', ''error'', dvm_complaint inputs]]))"
proof -
  note f = request_facts [OF ok]
  have h: "hops_ok h" using dvm_inputs_hops [OF cfg, of "rq_tags request"] tags by simp
  have c8: "sound_at ops T (at 9) c" using sound_at_mono [OF f(1) f(3) sound] by simp
  have err: "send_error cl request msg = (Ok (), Some (reply_to request (error_json cl msg) [[''status'', ''error'', msg]]))" for msg
    by (simp add: send_error_def publish_sends [OF cl(1)] reply_to_def)
  show ?thesis
  proof (cases "dvm_pair inputs")
    case None
    then have "handle_request ops env cl cfg request c = (send_error cl request (dvm_complaint inputs), c)"
      unfolding handle_request_def tags
      by (auto simp: dvm_pair_def dvm_complaint_def pubkey_ok_def split: list.splits if_splits)
    then show ?thesis using run h c8 None by (auto simp: err)
  next
    case (Some p)
    then obtain a b where p: "inputs = [a, b]" "pubkey_ok a" "pubkey_ok b" "p = (a, b)"
      by (auto simp: dvm_pair_def split: list.splits if_splits)
    obtain r1 c1 where r1: "dvm_distance ops env cl a b h c = (r1, c1)" by (metis prod.exhaust)
    obtain d where d: "dvm_distance ops env cl a b h c = (Ok d, c1)" "answered T at 8 (dvm_query a b h) d" "sound_at ops T (at 9) c1"
      using dvm_distance_any [OF ok sound r1] r1 cl by (cases r1) (auto simp: client_ok_def)
    obtain content where content: "result_json cl d = Some content" using cl(1) by (auto simp: client_ok_def)
    have "handle_request ops env cl cfg request c = (send_result cl request d, c1)"
      using p d(1) by (simp add: handle_request_def tags pubkey_ok_def)
    moreover have "send_result cl request d = (Ok (), Some (reply_to request content
        (case hops d of None \<Rightarrow> [] | Some n \<Rightarrow> [[''result'', decimal n, ''hops'']])))"
      by (simp add: send_result_def content publish_sends [OF cl(1)] reply_to_def)
    ultimately show ?thesis using run h Some p(4) d(2,3) content by auto
  qed
qed

end
