(* ===== verification/CacheProtocol.thy ===== *)
theory CacheProtocol
  imports HttpBatch Dvm
begin

text \<open>
  All users of the cache at once: any number of requests (\<open>get_distance\<close>, the vending machine's
  \<open>dvm_distance\<close>, and of a batch each look-up and each search) are under way together, beside the
  writers of the graph and a map that forgets. Every reading of the graph, the look-up in the map and
  the insertion is a step of its own. What a request answers and inserts is what its handler computes
  from the moments at which it read: the handlers are those of \<open>HttpApi\<close> and \<open>Dvm\<close>, run on these
  moments.
\<close>

section \<open>Requests that are under way\<close>

datatype job =
    HttpDistance distance_params
  | DvmDistance dvm_client string string "8 word"
  | BatchLookUp batch_request string
  | BatchSearch batch_request string

datatype answer =
    HttpAnswer "distance_result response"
  | DvmAnswer "(distance_result, dvm_error) result"
  | LookUpAnswer "distance_result option"
  | SearchAnswer "distance_result option"

text \<open>
  The number of times the handler reads the graph, and whether it looks into the map (between its third
  reading, of the revision, and its fourth). A handler that ends early makes no use of the readings
  left, which its task may do at once.
\<close>

fun job_reads :: "job \<Rightarrow> nat" where
  "job_reads (HttpDistance p) = 11"
| "job_reads (DvmDistance cl from to h) = 9"
| "job_reads (BatchLookUp req target) = 5"
| "job_reads (BatchSearch req target) = 6"

fun job_looks :: "job \<Rightarrow> bool" where
  "job_looks (BatchSearch req target) = False"
| "job_looks _ = True"

fun run_job :: "'c cache_ops \<Rightarrow> 'c request_env \<Rightarrow> job \<Rightarrow> 'c \<Rightarrow> answer \<times> 'c" where
  "run_job ops env (HttpDistance p) c = map_prod HttpAnswer (\<lambda>c. c) (get_distance ops env p c)"
| "run_job ops env (DvmDistance cl from to h) c = map_prod DvmAnswer (\<lambda>c. c) (dvm_distance ops env cl from to h c)"
| "run_job ops env (BatchLookUp req target) c =
     (case look_up_targets ops env req (get_node_id (graph_at env 0) (br_from req)) [(0, target)] c [None] [] of
        (computed, misses, c') \<Rightarrow> (LookUpAnswer (hd computed), c'))"
| "run_job ops env (BatchSearch req target) c =
     map_prod (\<lambda>results. SearchAnswer (map_option (\<lambda>rs. snd (hd rs)) results)) (\<lambda>c. c)
       (compute_misses ops env req 0 0 [(0, target)] c [])"

text \<open>A handler that runs on \<open>recorder\<close> leaves the map alone and keeps what it would insert.\<close>

type_synonym 'c recorder = "'c \<times> (cache_key \<times> cached_distance) list"

definition rec_ops :: "'c cache_ops \<Rightarrow> 'c recorder cache_ops" where
  "rec_ops ops =
     \<lparr>c_get = (\<lambda>(c, ps) k. case map_of ps k of Some v \<Rightarrow> Some v | None \<Rightarrow> c_get ops c k),
      c_put = (\<lambda>(c, ps) k v. (c, (k, v) # ps))\<rparr>"

text \<open>
  A task: its request, the chances it meets (free permits, a cancelled task, the scratch state of its
  worker), the map at its beginning, the moments of its readings, and the map it looked into.
\<close>

record 'c task =
  tk_job :: job
  tk_luck :: "'c recorder request_env"
  tk_begun :: nat
  tk_cache :: 'c
  tk_reads :: "nat list"
  tk_seen :: "'c option"

record reply =
  rp_job :: job
  rp_busy :: bool
  rp_lost :: bool
  rp_begun :: nat
  rp_ended :: nat
  rp_answer :: answer

text \<open>\<open>w_past\<close> are the graph's states, the current one last; the program does not keep the others.\<close>

record 'c world =
  w_past :: "wot_graph list"
  w_cache :: 'c
  w_tasks :: "'c task list"
  w_log :: "reply list"

definition present :: "wot_graph list \<Rightarrow> nat" where
  "present past = length past - 1"

definition graph_line :: "wot_graph list \<Rightarrow> nat \<Rightarrow> wot_graph" where
  "graph_line past i = past ! min i (present past)"

definition read_at :: "nat \<Rightarrow> 'c task \<Rightarrow> nat \<Rightarrow> nat" where
  "read_at n t i = (if i < length (tk_reads t) then tk_reads t ! i else n)"

definition task_env :: "wot_graph list \<Rightarrow> 'c task \<Rightarrow> 'c recorder request_env" where
  "task_env past t =
     (tk_luck t)\<lparr>graph_at := (\<lambda>i. graph_line past (read_at (present past) t i)),
       cache_moves := (\<lambda>i (c, ps). (case tk_seen t of Some c' \<Rightarrow> if i < 2 then c else c' | None \<Rightarrow> c, ps))\<rparr>"

section \<open>Steps\<close>

datatype 'c act =
    Write graph_write
  | Forget 'c
  | Begin job "'c recorder request_env"
  | Read nat
  | Look nat
  | Finish nat
  | Give_Up nat

definition task_reads :: "nat \<Rightarrow> 'c task \<Rightarrow> 'c task option" where
  "task_reads n t =
     (if length (tk_reads t) < job_reads (tk_job t) \<and> \<not> (length (tk_reads t) = 3 \<and> job_looks (tk_job t) \<and> tk_seen t = None)
      then Some (t\<lparr>tk_reads := tk_reads t @ [n]\<rparr>) else None)"

definition task_looks :: "'c \<Rightarrow> 'c task \<Rightarrow> 'c task option" where
  "task_looks c t =
     (if length (tk_reads t) = 3 \<and> job_looks (tk_job t) \<and> tk_seen t = None then Some (t\<lparr>tk_seen := Some c\<rparr>) else None)"

definition drop_task :: "nat \<Rightarrow> 'a list \<Rightarrow> 'a list" where
  "drop_task i ts = take i ts @ drop (Suc i) ts"

definition finish_task :: "'c cache_ops \<Rightarrow> 'c world \<Rightarrow> 'c task \<Rightarrow> (reply \<times> 'c) option" where
  "finish_task ops W t =
     (if length (tk_reads t) = job_reads (tk_job t) then
        (case run_job (rec_ops ops) (task_env (w_past W) t) (tk_job t) (tk_cache t, []) of
           (a, _, ps) \<Rightarrow>
             Some (\<lparr>rp_job = tk_job t, rp_busy = (free_slots (tk_luck t) 0 = 0), rp_lost = task_dropped (tk_luck t) 0,
                    rp_begun = tk_begun t, rp_ended = present (w_past W), rp_answer = a\<rparr>,
                   foldr (\<lambda>(k, v) c. c_put ops c k v) ps (w_cache W)))
      else None)"

text \<open>What a map may forget is a condition on all its keys, so it is not executed.\<close>

declare forgets_def [code del]

fun world_step :: "'c cache_ops \<Rightarrow> 'c act \<Rightarrow> 'c world \<Rightarrow> 'c world option" where
  "world_step ops (Write w) W =
     (case run_write w (last (w_past W)) of
        None \<Rightarrow> None
      | Some g \<Rightarrow> if write_valid w \<and> graph_small g then Some (W\<lparr>w_past := w_past W @ [g]\<rparr>) else None)"
| "world_step ops (Forget c) W = (if forgets (c_get ops) (w_cache W) c then Some (W\<lparr>w_cache := c\<rparr>) else None)"
| "world_step ops (Begin job luck) W =
     Some (W\<lparr>w_tasks := w_tasks W @ [\<lparr>tk_job = job, tk_luck = luck, tk_begun = present (w_past W), tk_cache = w_cache W,
                                      tk_reads = [], tk_seen = None\<rparr>]\<rparr>)"
| "world_step ops (Read i) W =
     (if i < length (w_tasks W)
      then map_option (\<lambda>t. W\<lparr>w_tasks := (w_tasks W)[i := t]\<rparr>) (task_reads (present (w_past W)) (w_tasks W ! i)) else None)"
| "world_step ops (Look i) W =
     (if i < length (w_tasks W)
      then map_option (\<lambda>t. W\<lparr>w_tasks := (w_tasks W)[i := t]\<rparr>) (task_looks (w_cache W) (w_tasks W ! i)) else None)"
| "world_step ops (Finish i) W =
     (if i < length (w_tasks W)
      then map_option (\<lambda>(e, c). W\<lparr>w_cache := c, w_tasks := drop_task i (w_tasks W), w_log := w_log W @ [e]\<rparr>)
             (finish_task ops W (w_tasks W ! i)) else None)"
| "world_step ops (Give_Up i) W = Some (W\<lparr>w_tasks := drop_task i (w_tasks W)\<rparr>)"

fun world_run :: "'c cache_ops \<Rightarrow> 'c act list \<Rightarrow> 'c world \<Rightarrow> 'c world option" where
  "world_run ops [] W = Some W"
| "world_run ops (a # as) W = Option.bind (world_step ops a W) (world_run ops as)"

definition world_new :: "'c \<Rightarrow> 'c world" where
  "world_new c = \<lparr>w_past = [graph_new], w_cache = c, w_tasks = [], w_log = []\<rparr>"

section \<open>Exact replies\<close>

text \<open>The distance an answer gives, with its query.\<close>

fun given_distance :: "job \<Rightarrow> answer \<Rightarrow> (distance_query \<times> distance_result) option" where
  "given_distance (HttpDistance p) (HttpAnswer (Ok d)) = Some (query_of_params p, d)"
| "given_distance (DvmDistance cl from to h) (DvmAnswer (Ok d)) = Some (dvm_query from to h, d)"
| "given_distance (BatchLookUp req target) (LookUpAnswer (Some d)) = Some (batch_query req target, d)"
| "given_distance (BatchSearch req target) (SearchAnswer (Some d)) = Some (batch_query req target, d)"
| "given_distance _ _ = None"

text \<open>Why an answer gives none: a failed request, or a look-up without a hit. A search always gives one.\<close>

fun excused :: "bool \<Rightarrow> bool \<Rightarrow> job \<Rightarrow> answer \<Rightarrow> bool" where
  "excused busy lost (HttpDistance p) (HttpAnswer (Err e)) =
     failure (\<not> (pubkey_ok (dp_from p) \<and> pubkey_ok (dp_to p) \<and> hops_ok (dp_max_hops p))) busy lost e"
| "excused busy lost (DvmDistance cl from to h) (DvmAnswer (Err e)) =
     (e = SlotsClosed \<and> \<not> slots_open cl \<or> e = DvmTaskFailed \<and> lost)"
| "excused busy lost (BatchLookUp req target) (LookUpAnswer None) = True"
| "excused _ _ _ _ = False"

definition exact_reply :: "wot_graph list \<Rightarrow> reply \<Rightarrow> bool" where
  "exact_reply past e \<longleftrightarrow>
     (case given_distance (rp_job e) (rp_answer e) of
        Some (q, d) \<Rightarrow> \<exists>m. rp_begun e \<le> m \<and> m \<le> rp_ended e \<and> rp_ended e < length past \<and> distance_ok (past ! m) q d
      | None \<Rightarrow> excused (rp_busy e) (rp_lost e) (rp_job e) (rp_answer e))"

section \<open>A handler on a recorder\<close>

lemma rec_sound:
  "sound_at (rec_ops ops) T i (c, ps) \<longleftrightarrow>
     (\<forall>k v. map_of ps k = Some v \<longrightarrow> entry_sound i (T i) k v) \<and>
     (\<forall>k v. map_of ps k = None \<longrightarrow> c_get ops c k = Some v \<longrightarrow> entry_sound i (T i) k v)"
  unfolding sound_at_def cache_sound_def rec_ops_def by (auto split: option.splits)

lemma rec_lossy: "lossy (c_get (rec_ops ops)) (c_put (rec_ops ops))"
  unfolding lossy_def rec_ops_def by (auto split: option.splits if_splits)

lemma rec_sound_new: "sound_at ops T i c \<Longrightarrow> sound_at (rec_ops ops) T i (c, [])"
  unfolding rec_sound by (auto simp: sound_at_def cache_sound_def)

lemma rec_sound_swap: "sound_at (rec_ops ops) T i (c, ps) \<Longrightarrow> sound_at ops T i c' \<Longrightarrow> sound_at (rec_ops ops) T i (c', ps)"
  unfolding rec_sound by (auto simp: sound_at_def cache_sound_def)

text \<open>Applying what was recorded, at most one insertion.\<close>

lemma rec_apply:
  assumes law: "lossy (c_get ops) (c_put ops)" and r: "sound_at (rec_ops ops) T i (c', ps)" "length ps \<le> 1" and c: "sound_at ops T i c"
  shows "sound_at ops T i (foldr (\<lambda>(k, v) c. c_put ops c k v) ps c)"
proof (cases ps)
  case Nil
  then show ?thesis using c by simp
next
  case (Cons p rest)
  then obtain k v where ps: "ps = [(k, v)]" using r(2) by (cases p) auto
  then have "entry_sound i (T i) k v" using r(1) unfolding rec_sound by simp
  then show ?thesis using cache_put_sound [OF law c [unfolded sound_at_def]] by (simp add: ps sound_at_def)
qed

lemma recorded_insert:
  "snd (try_insert (rec_ops ops) env (c, ps) key r stamp m) = ps \<or> (\<exists>p. snd (try_insert (rec_ops ops) env (c, ps) key r stamp m) = p # ps)"
  by (auto simp: try_insert_def cache_insert_def rec_ops_def split: option.split)

lemma task_moves: "\<exists>c'. cache_moves (task_env past t) i (c, ps) = (c', ps)"
  by (simp add: task_env_def)

lemma task_luck [simp]:
  "free_slots (task_env past t) = free_slots (tk_luck t)" "task_dropped (task_env past t) = task_dropped (tk_luck t)"
  by (simp_all add: task_env_def)

lemma job_inserts_once: "length (snd (snd (run_job (rec_ops ops) (task_env past t) job (c, [])))) \<le> 1"
proof -
  let ?env = "task_env past t"
  obtain m2 where m2: "\<And>c. cache_moves ?env 2 (c, []) = (m2 c, [])" using task_moves [of past t 2 _ "[]"] by metis
  obtain m4 where m4: "\<And>c. cache_moves ?env 4 (c, []) = (m4 c, [])" using task_moves [of past t 4 _ "[]"] by metis
  obtain m7 where m7: "\<And>c. cache_moves ?env 7 (c, []) = (m7 c, [])" using task_moves [of past t 7 _ "[]"] by metis
  obtain m9 where m9: "\<And>c. cache_moves ?env 9 (c, []) = (m9 c, [])" using task_moves [of past t 9 _ "[]"] by metis
  have ins: "length (snd (try_insert (rec_ops ops) ?env (c, []) key r stamp m)) \<le> 1" for c key r stamp m
    using recorded_insert [of ops ?env c "[]" key r stamp m] by auto
  show ?thesis
  proof (cases job)
    case (HttpDistance p)
    then show ?thesis using ins by (auto simp: get_distance_def Let_def m2 m9 split: result.split option.split prod.split)
  next
    case (DvmDistance cl x y h)
    have "length (snd (cache_insert (c_put (rec_ops ops)) (c', []) k r g g' stamp)) \<le> 1" for c' k r g g' stamp
      by (simp add: cache_insert_def rec_ops_def)
    then show ?thesis using DvmDistance
      by (auto simp: dvm_distance_def Let_def m2 m7 split: result.split option.split)
  next
    case (BatchLookUp req target)
    then show ?thesis using m2 by (auto simp: Let_def numeral_eq_Suc split: option.split)
  next
    case (BatchSearch req target)
    then show ?thesis using ins by (auto simp: Let_def m4 split: option.split prod.split)
  qed
qed

text \<open>The answer of a handler, at whatever moments it read.\<close>

lemma run_job_exact:
  assumes ok: "request_ok ops T at env" and sound: "sound_at ops T (at 0) c"
    and run: "run_job ops env job c = (a, c')"
  shows "sound_at ops T (at 11) c' \<and>
    (case given_distance job a of
       Some (q, d) \<Rightarrow> answered T at 11 q d
     | None \<Rightarrow> excused (free_slots env 0 = 0) (task_dropped env 0) job a)"
proof -
  note f = request_facts [OF ok]
  have keep: "sound_at ops T (at 11) c1" if "sound_at ops T (at i) c1" "i \<le> 11" for c1 i
    using sound_at_mono [OF f(1) f(3) that(1)] that(2) by simp
  show ?thesis
  proof (cases job)
    case (HttpDistance p)
    then obtain r where r: "get_distance ops env p c = (r, c')" "a = HttpAnswer r" using run by (auto simp: map_prod_def split: prod.splits)
    show ?thesis
      using get_distance_ok [OF ok sound r(1)] answered_mono [of T at 10 _ _ 11] by (cases r) (auto simp: HttpDistance r(2) distance_guards_cases(1))
  next
    case (DvmDistance cl x y h)
    then obtain r where r: "dvm_distance ops env cl x y h c = (r, c')" "a = DvmAnswer r" using run by (auto simp: map_prod_def split: prod.splits)
    show ?thesis
      using dvm_distance_any [OF ok sound r(1)] answered_mono [of T at 8 _ _ 11] keep [of 9 c'] by (cases r) (auto simp: DvmDistance r(2))
  next
    case (BatchLookUp req target)
    let ?c1 = "cache_moves env 2 c"
    let ?key = "key_of_ids (get_node_id (graph_at env 0) (br_from req)) (get_node_id (graph_at env 1) target) (br_max_hops req) (br_include_bridges req)"
    have c1: "sound_at ops T (at (2 + 2)) ?c1" by (rule request_moves [OF ok sound]) simp
    have look: "look_up_targets ops env req (get_node_id (graph_at env 0) (br_from req)) [(0, target)] c [None] [] =
        (case try_cache ops env (br_bypass_cache req) ?c1 ?key 2 of
           None \<Rightarrow> ([None], [(0, target)], ?c1) | Some hit \<Rightarrow> ([Some hit], [], ?c1))"
      by (simp add: Let_def numeral_eq_Suc split: option.split)
    show ?thesis
    proof (cases "try_cache ops env (br_bypass_cache req) ?c1 ?key 2")
      case None
      then have "a = LookUpAnswer None" "c' = ?c1" using run BatchLookUp look by simp_all
      then show ?thesis using keep [OF c1] BatchLookUp by simp
    next
      case (Some r)
      then have "answered T at 11 (batch_query req target) r"
        using try_cache_answer [OF ok c1 Some, of 11] by (simp add: batch_query_pair)
      moreover have "a = LookUpAnswer (Some r)" "c' = ?c1" using run BatchLookUp look Some by simp_all
      ultimately show ?thesis using keep [OF c1] BatchLookUp by simp
    qed
  next
    case (BatchSearch req target)
    obtain res c2 where res: "compute_misses ops env req 0 0 [(0, target)] c [] = (Some res, c2)" "map fst res = [0]"
      "\<forall>(i, r) \<in> set res. good_answer T at 11 req [target] i r" "sound_at ops T (at 11) c2"
      using compute_misses_ok [OF ok, of 0 0 c "[(0, target)]" 11 "[target]" "[]" req] sound by auto
    then obtain r where r: "res = [(0, r)]" by (cases res) auto
    then show ?thesis using run res BatchSearch by (auto simp: good_answer_def map_prod_def)
  qed
qed

section \<open>The invariant\<close>

definition past_ok :: "wot_graph list \<Rightarrow> bool" where
  "past_ok past \<longleftrightarrow> past \<noteq> [] \<and> graph_wf (past ! 0) \<and> (\<forall>i. Suc i < length past \<longrightarrow> later 1 (past ! i) (past ! Suc i)) \<and>
     (\<forall>g \<in> set past. graph_small g)"

definition task_ok :: "'c cache_ops \<Rightarrow> wot_graph list \<Rightarrow> 'c task \<Rightarrow> bool" where
  "task_ok ops past t \<longleftrightarrow>
     sorted (tk_begun t # tk_reads t) \<and> (\<forall>m \<in> set (tk_begun t # tk_reads t). m \<le> present past) \<and>
     sound_at ops (graph_line past) (tk_begun t) (tk_cache t) \<and>
     (case tk_seen t of
        None \<Rightarrow> job_looks (tk_job t) \<longrightarrow> length (tk_reads t) \<le> 3
      | Some c \<Rightarrow> \<exists>m \<le> present past. sound_at ops (graph_line past) m c \<and> (\<forall>i. 3 \<le> i \<longrightarrow> i < length (tk_reads t) \<longrightarrow> m \<le> tk_reads t ! i))"

definition world_ok :: "'c cache_ops \<Rightarrow> 'c world \<Rightarrow> bool" where
  "world_ok ops W \<longleftrightarrow>
     past_ok (w_past W) \<and> sound_at ops (graph_line (w_past W)) (present (w_past W)) (w_cache W) \<and>
     (\<forall>t \<in> set (w_tasks W). task_ok ops (w_past W) t) \<and> (\<forall>e \<in> set (w_log W). exact_reply (w_past W) e)"

lemma past_timeline:
  assumes "past_ok past"
  shows "timeline (graph_line past)"
  unfolding timeline_def
proof (intro conjI allI)
  show "graph_wf (graph_line past 0)" using assms by (simp add: past_ok_def graph_line_def)
  fix i
  have "min i (present past) < length past" using assms by (cases past) (simp_all add: past_ok_def present_def less_Suc_eq_le)
  then show "graph_small (graph_line past i)" using assms nth_mem [of "min i (present past)" past] by (simp add: past_ok_def graph_line_def)
  show "later 1 (graph_line past i) (graph_line past (Suc i))"
  proof (cases "Suc i < length past")
    case True
    then show ?thesis using assms by (simp add: past_ok_def graph_line_def present_def min_def)
  next
    case False
    then have "min (Suc i) (present past) = min i (present past)" by (auto simp: present_def)
    then have "graph_line past (Suc i) = graph_line past i" by (simp add: graph_line_def)
    then show ?thesis by simp
  qed
qed

lemma line_more: "past \<noteq> [] \<Longrightarrow> i \<le> present past \<Longrightarrow> graph_line (past @ [g]) i = graph_line past i"
  by (cases past) (auto simp: graph_line_def present_def nth_append nth_Cons split: nat.split)

lemma sound_more: "past \<noteq> [] \<Longrightarrow> i \<le> present past \<Longrightarrow> sound_at ops (graph_line (past @ [g])) i c \<longleftrightarrow> sound_at ops (graph_line past) i c"
  by (simp add: sound_at_def line_more)

lemma present_more: "past \<noteq> [] \<Longrightarrow> present (past @ [g]) = Suc (present past)"
  by (cases past) (simp_all add: present_def)

lemma task_more:
  assumes p: "past \<noteq> []" and t: "task_ok ops past t"
  shows "task_ok ops (past @ [g]) t"
proof -
  have n: "present past \<le> present (past @ [g])" using present_more [OF p] by simp
  then have "\<forall>m \<in> set (tk_begun t # tk_reads t). m \<le> present (past @ [g])" using t unfolding task_ok_def by fastforce
  moreover have "sound_at ops (graph_line (past @ [g])) (tk_begun t) (tk_cache t)"
    using t sound_more [OF p, of "tk_begun t" ops g "tk_cache t"] by (simp add: task_ok_def)
  moreover have "\<exists>m \<le> present (past @ [g]). sound_at ops (graph_line (past @ [g])) m c \<and>
      (\<forall>i. 3 \<le> i \<longrightarrow> i < length (tk_reads t) \<longrightarrow> m \<le> tk_reads t ! i)" if s: "tk_seen t = Some c" for c
  proof -
    obtain m where m: "m \<le> present past" "sound_at ops (graph_line past) m c" "\<forall>i. 3 \<le> i \<longrightarrow> i < length (tk_reads t) \<longrightarrow> m \<le> tk_reads t ! i"
      using t s by (auto simp: task_ok_def)
    then show ?thesis using sound_more [OF p m(1), of ops g c] n by (intro exI [of _ m]) simp
  qed
  ultimately show ?thesis using t by (cases "tk_seen t") (simp_all add: task_ok_def)
qed

lemma reply_more: "exact_reply past e \<Longrightarrow> exact_reply (past @ [g]) e"
proof -
  assume a: "exact_reply past e"
  have "(past @ [g]) ! m = past ! m" if "m \<le> rp_ended e" "rp_ended e < length past" for m
    using that by (simp add: nth_append)
  then show ?thesis using a unfolding exact_reply_def by (fastforce split: option.splits)
qed

section \<open>Every step keeps it\<close>

lemma task_request:
  assumes past: "past_ok past" "present past < 2 ^ 63" and t: "task_ok ops past t"
    and all: "length (tk_reads t) = job_reads (tk_job t)"
  shows "request_ok (rec_ops ops) (graph_line past) (read_at (present past) t) (task_env past t)"
proof -
  let ?at = "read_at (present past) t" and ?T = "graph_line past"
  note T = past_timeline [OF past(1)]
  have bound: "?at i \<le> present past" for i using t by (auto simp: read_at_def task_ok_def)
  have mono: "mono ?at"
  proof (rule monoI)
    fix i j :: nat
    assume ij: "i \<le> j"
    show "?at i \<le> ?at j"
    proof (cases "j < length (tk_reads t)")
      case True
      then show ?thesis using t ij sorted_nth_mono [of "tk_reads t" i j] by (simp add: read_at_def task_ok_def)
    next
      case False
      then show ?thesis using bound [of i] by (simp add: read_at_def)
    qed
  qed
  have moves: "sound_at (rec_ops ops) ?T (?at (i + 2)) (cache_moves (task_env past t) i (c, ps))"
    if s: "sound_at (rec_ops ops) ?T (?at i) (c, ps)" for i c ps
  proof -
    have s2: "sound_at (rec_ops ops) ?T (?at (i + 2)) (c, ps)"
      using sound_at_mono [OF T _ s] monoD [OF mono, of i "i + 2"] by simp
    show ?thesis
    proof (cases "tk_seen t")
      case None
      then show ?thesis using s2 by (simp add: task_env_def)
    next
      case (Some c')
      then obtain m where m: "m \<le> present past" "sound_at ops ?T m c'" "\<forall>i. 3 \<le> i \<longrightarrow> i < length (tk_reads t) \<longrightarrow> m \<le> tk_reads t ! i"
        using t by (auto simp: task_ok_def)
      show ?thesis
      proof (cases "i < 2")
        case True
        then show ?thesis using s2 Some by (simp add: task_env_def)
      next
        case False
        then have "m \<le> ?at (i + 2)" using m(1,3) by (simp add: read_at_def)
        then have "sound_at ops ?T (?at (i + 2)) c'" using sound_at_mono [OF T _ m(2)] by blast
        then show ?thesis using rec_sound_swap [OF s2] Some False by (simp add: task_env_def)
      qed
    qed
  qed
  have "\<forall>i. ?at i < 2 ^ 63" using bound past(2) by (meson le_less_trans)
  then show ?thesis
    unfolding request_ok_def using T rec_lossy mono moves by (auto simp: task_env_def)
qed

lemma finish_ok:
  assumes W: "world_ok ops W" and law: "lossy (c_get ops) (c_put ops)" and n: "present (w_past W) < 2 ^ 63"
    and t: "t \<in> set (w_tasks W)" and fin: "finish_task ops W t = Some (e, c')"
  shows "exact_reply (w_past W) e \<and> sound_at ops (graph_line (w_past W)) (present (w_past W)) c'"
proof -
  let ?past = "w_past W" and ?env = "task_env (w_past W) t"
  let ?at = "read_at (present ?past) t"
  have past: "past_ok ?past" and tk: "task_ok ops ?past t" and c: "sound_at ops (graph_line ?past) (present ?past) (w_cache W)"
    using W t by (simp_all add: world_ok_def)
  have all: "length (tk_reads t) = job_reads (tk_job t)" using fin by (simp add: finish_task_def split: if_splits)
  obtain a c2 ps where run: "run_job (rec_ops ops) ?env (tk_job t) (tk_cache t, []) = (a, (c2, ps))" by (metis prod.exhaust)
  have e: "e = \<lparr>rp_job = tk_job t, rp_busy = (free_slots (tk_luck t) 0 = 0), rp_lost = task_dropped (tk_luck t) 0,
      rp_begun = tk_begun t, rp_ended = present ?past, rp_answer = a\<rparr>"
    and c': "c' = foldr (\<lambda>(k, v) c. c_put ops c k v) ps (w_cache W)"
    using fin all run by (simp_all add: finish_task_def)
  note ok = task_request [OF past n tk all]
  note T = past_timeline [OF past]
  have some: "tk_reads t \<noteq> []" using all by (cases "tk_job t") auto
  have first: "tk_begun t \<le> ?at i" for i
    using tk some by (auto simp: task_ok_def read_at_def)
  have bound: "?at i \<le> present ?past" for i using tk by (auto simp: task_ok_def read_at_def)
  have "sound_at ops (graph_line ?past) (?at 0) (tk_cache t)"
    using sound_at_mono [OF T first [of 0], of ops "tk_cache t"] tk by (simp add: task_ok_def)
  from run_job_exact [OF ok rec_sound_new [OF this] run]
  have sound: "sound_at (rec_ops ops) (graph_line ?past) (?at 11) (c2, ps)"
    and given_distance: "case given_distance (tk_job t) a of Some (q, d) \<Rightarrow> answered (graph_line ?past) ?at 11 q d
      | None \<Rightarrow> excused (free_slots (tk_luck t) 0 = 0) (task_dropped (tk_luck t) 0) (tk_job t) a"
    unfolding task_luck by blast+
  have once: "length ps \<le> 1" using job_inserts_once [of ops ?past t "tk_job t" "tk_cache t"] run by simp
  have "sound_at (rec_ops ops) (graph_line ?past) (present ?past) (c2, ps)" using sound_at_mono [OF T bound sound] .
  then have s: "sound_at ops (graph_line ?past) (present ?past) c'" unfolding c' using rec_apply [OF law _ once c] by blast
  have "exact_reply ?past e"
  proof (cases "given_distance (tk_job t) a")
    case None
    then show ?thesis using given_distance by (simp add: e exact_reply_def)
  next
    case (Some x)
    obtain q d where x: "x = (q, d)" by (cases x)
    then obtain i where "distance_ok (graph_line ?past (?at i)) q d" using given_distance Some by (auto simp: answered_def)
    moreover have "graph_line ?past (?at i) = ?past ! ?at i" using bound [of i] by (simp add: graph_line_def min_def)
    moreover have "present ?past < length ?past" using past by (simp add: past_ok_def present_def)
    ultimately show ?thesis using first [of i] bound [of i] Some x by (auto simp: e exact_reply_def)
  qed
  then show ?thesis using s by blast
qed

lemma task_reads_ok:
  assumes t: "task_ok ops past t" and past: "past_ok past" and r: "task_reads (present past) t = Some t'"
  shows "task_ok ops past t'"
proof -
  have t': "t' = t\<lparr>tk_reads := tk_reads t @ [present past]\<rparr>"
    "\<not> (length (tk_reads t) = 3 \<and> job_looks (tk_job t) \<and> tk_seen t = None)"
    using r by (simp_all add: task_reads_def split: if_splits)
  have "sorted (tk_begun t # tk_reads t @ [present past])" using t by (auto simp: task_ok_def sorted_append)
  moreover have "\<exists>m \<le> present past. sound_at ops (graph_line past) m c \<and>
      (\<forall>i. 3 \<le> i \<longrightarrow> i < Suc (length (tk_reads t)) \<longrightarrow> m \<le> (tk_reads t @ [present past]) ! i)" if s: "tk_seen t = Some c" for c
  proof -
    obtain m where "m \<le> present past" "sound_at ops (graph_line past) m c" "\<forall>i. 3 \<le> i \<longrightarrow> i < length (tk_reads t) \<longrightarrow> m \<le> tk_reads t ! i"
      using t s by (auto simp: task_ok_def)
    then show ?thesis by (intro exI [of _ m]) (auto simp: nth_append less_Suc_eq)
  qed
  ultimately show ?thesis using t t' by (auto simp: task_ok_def split: option.splits)
qed

lemma task_looks_ok:
  assumes t: "task_ok ops past t" and c: "sound_at ops (graph_line past) (present past) c" and l: "task_looks c t = Some t'"
  shows "task_ok ops past t'"
proof -
  have "t' = t\<lparr>tk_seen := Some c\<rparr>" "length (tk_reads t) = 3" using l by (simp_all add: task_looks_def split: if_splits)
  then show ?thesis using t c by (auto simp: task_ok_def intro!: exI [of _ "present past"])
qed

lemma drop_task_set: "set (drop_task i ts) \<subseteq> set ts"
  unfolding drop_task_def using set_take_subset set_drop_subset by fastforce

lemma write_ok:
  assumes W: "world_ok ops W" and w: "run_write w (last (w_past W)) = Some g" "write_valid w" "graph_small g"
  shows "world_ok ops (W\<lparr>w_past := w_past W @ [g]\<rparr>)"
proof -
  let ?past = "w_past W"
  have p: "?past \<noteq> []" "past_ok ?past" using W by (simp_all add: world_ok_def past_ok_def)
  have l: "later 1 (last ?past) g" unfolding later_def using w by (intro exI [of _ "[w]"]) simp
  have step: "later 1 ((?past @ [g]) ! i) ((?past @ [g]) ! Suc i)" if "Suc i < length (?past @ [g])" for i
  proof (cases "Suc i = length ?past")
    case True
    then have "i = length ?past - 1" by simp
    then show ?thesis using True p(1) l by (simp add: nth_append last_conv_nth)
  next
    case False
    then show ?thesis using that p by (simp add: past_ok_def nth_append)
  qed
  have past: "past_ok (?past @ [g])" using p w(3) step by (auto simp: past_ok_def nth_append)
  have "sound_at ops (graph_line (?past @ [g])) (present ?past) (w_cache W)"
    using W sound_more [OF p(1) order_refl, of ops g] by (simp add: world_ok_def)
  then have "sound_at ops (graph_line (?past @ [g])) (present (?past @ [g])) (w_cache W)"
    by (rule sound_at_mono [OF past_timeline [OF past], rotated]) (simp add: present_more [OF p(1)])
  then show ?thesis using W past by (simp add: world_ok_def task_more [OF p(1)] reply_more)
qed

lemma world_tasks_ok:
  assumes "world_ok ops W" "\<And>t. t \<in> set ts \<Longrightarrow> t \<in> set (w_tasks W) \<or> task_ok ops (w_past W) t"
  shows "world_ok ops (W\<lparr>w_tasks := ts\<rparr>)"
  using assms unfolding world_ok_def by auto

lemma world_task_updated:
  assumes W: "world_ok ops W" and i: "i < length (w_tasks W)" and t: "task_ok ops (w_past W) (w_tasks W ! i) \<Longrightarrow> task_ok ops (w_past W) t"
  shows "world_ok ops (W\<lparr>w_tasks := (w_tasks W)[i := t]\<rparr>)"
proof (rule world_tasks_ok [OF W])
  fix u
  assume "u \<in> set ((w_tasks W)[i := t])"
  then have "u = t \<or> u \<in> set (w_tasks W)" using set_update_subset_insert by fastforce
  moreover have "task_ok ops (w_past W) t" using W t nth_mem [OF i] by (simp add: world_ok_def)
  ultimately show "u \<in> set (w_tasks W) \<or> task_ok ops (w_past W) u" by blast
qed

theorem world_step_ok:
  assumes law: "lossy (c_get ops) (c_put ops)" and W: "world_ok ops W" and n: "present (w_past W) < 2 ^ 63"
    and step: "world_step ops a W = Some W'"
  shows "world_ok ops W'"
proof (cases a)
  case (Write w)
  then show ?thesis using step write_ok [OF W] by (auto split: option.splits if_splits)
next
  case (Forget c)
  then show ?thesis using step W cache_sound_forgets by (auto simp: world_ok_def sound_at_def split: if_splits)
next
  case (Begin job luck)
  let ?t = "\<lparr>tk_job = job, tk_luck = luck, tk_begun = present (w_past W), tk_cache = w_cache W, tk_reads = [], tk_seen = None\<rparr>"
  have "task_ok ops (w_past W) ?t" using W by (simp add: task_ok_def world_ok_def)
  then have "world_ok ops (W\<lparr>w_tasks := w_tasks W @ [?t]\<rparr>)" by (intro world_tasks_ok [OF W]) auto
  then show ?thesis using step Begin by simp
next
  case (Read i)
  then obtain t where t: "i < length (w_tasks W)" "task_reads (present (w_past W)) (w_tasks W ! i) = Some t"
    "W' = W\<lparr>w_tasks := (w_tasks W)[i := t]\<rparr>"
    using step by (auto split: if_splits)
  have p: "past_ok (w_past W)" using W by (simp add: world_ok_def)
  show ?thesis unfolding t(3) by (rule world_task_updated [OF W t(1) task_reads_ok [OF _ p t(2)]])
next
  case (Look i)
  then obtain t where t: "i < length (w_tasks W)" "task_looks (w_cache W) (w_tasks W ! i) = Some t"
    "W' = W\<lparr>w_tasks := (w_tasks W)[i := t]\<rparr>"
    using step by (auto split: if_splits)
  have c: "sound_at ops (graph_line (w_past W)) (present (w_past W)) (w_cache W)" using W by (simp add: world_ok_def)
  show ?thesis unfolding t(3) by (rule world_task_updated [OF W t(1) task_looks_ok [OF _ c t(2)]])
next
  case (Finish i)
  then obtain e c where f: "i < length (w_tasks W)" "finish_task ops W (w_tasks W ! i) = Some (e, c)"
    "W' = W\<lparr>w_cache := c, w_tasks := drop_task i (w_tasks W), w_log := w_log W @ [e]\<rparr>"
    using step by (auto split: if_splits)
  have "world_ok ops (W\<lparr>w_tasks := drop_task i (w_tasks W)\<rparr>)"
    using world_tasks_ok [OF W] drop_task_set [of i "w_tasks W"] by blast
  then show ?thesis using finish_ok [OF W law n nth_mem [OF f(1)] f(2)] by (simp add: f(3) world_ok_def)
next
  case (Give_Up i)
  have "world_ok ops (W\<lparr>w_tasks := drop_task i (w_tasks W)\<rparr>)"
    using world_tasks_ok [OF W] drop_task_set [of i "w_tasks W"] by blast
  then show ?thesis using step Give_Up by simp
qed

lemma world_step_now: "w_past W \<noteq> [] \<Longrightarrow> world_step ops a W = Some W' \<Longrightarrow> present (w_past W) \<le> present (w_past W') \<and> w_past W' \<noteq> []"
  by (cases a) (auto simp: present_def split: option.splits if_splits)

lemma world_run_now: "w_past W \<noteq> [] \<Longrightarrow> world_run ops as W = Some W' \<Longrightarrow> present (w_past W) \<le> present (w_past W')"
proof (induction as arbitrary: W)
  case (Cons a as)
  then obtain V where "world_step ops a W = Some V" "world_run ops as V = Some W'" by (auto simp: Option.bind_eq_Some_conv)
  then show ?case using Cons world_step_now [of W ops a V] by fastforce
qed simp

theorem world_run_ok:
  assumes law: "lossy (c_get ops) (c_put ops)"
  shows "world_ok ops W \<Longrightarrow> world_run ops as W = Some W' \<Longrightarrow> present (w_past W') < 2 ^ 63 \<Longrightarrow> world_ok ops W'"
proof (induction as arbitrary: W)
  case (Cons a as)
  then obtain V where V: "world_step ops a W = Some V" "world_run ops as V = Some W'" by (auto simp: Option.bind_eq_Some_conv)
  have p: "w_past W \<noteq> []" using Cons.prems(1) by (simp add: world_ok_def past_ok_def)
  have "present (w_past W) < 2 ^ 63"
    using world_step_now [OF p V(1)] world_run_now [of V ops as W'] V(2) Cons.prems(3) by linarith
  then have "world_ok ops V" using world_step_ok [OF law Cons.prems(1) _ V(1)] by blast
  then show ?case using Cons.IH V(2) Cons.prems(3) by blast
qed simp

lemma world_new_ok: "(\<And>k. c_get ops c k = None) \<Longrightarrow> world_ok ops (world_new c)"
  by (simp add: world_ok_def world_new_def past_ok_def sound_at_def cache_sound_def)

end
