(* ===== verification/HttpRead.thy ===== *)
theory HttpRead
  imports HttpSpec
begin

text \<open>
  The other read handlers (\<open>api/http.rs\<close>): each answers what the graph of its moment says, and an
  error has the status its cause asks for.
\<close>

text \<open>A page with the cells of its list; no list gives an empty page.\<close>

definition page_ok :: "string set \<Rightarrow> nat \<Rightarrow> nat \<Rightarrow> string list \<Rightarrow> nat \<Rightarrow> bool" where
  "page_ok names offset limit page n \<longleftrightarrow>
     (\<exists>ns. set ns = names \<and> distinct ns \<and> page = take (min limit 5000) (drop offset ns) \<and> n = length ns)"

lemma handle_follows_ok:
  assumes g: "graph_wf (graph_at env 0)"
  shows "case handle_follows env p of
      None \<Rightarrow> False
    | Some (Err e) \<Rightarrow> error_status e = 400 \<and> \<not> pubkey_ok (fp_pubkey p)
    | Some (Ok r) \<Rightarrow> pubkey_ok (fp_pubkey p) \<and> fr_pubkey r = fp_pubkey p \<and>
        page_ok (snd (follow_cell (graph_at env 0) (fp_pubkey p))) (fp_offset p) (fp_limit p) (fr_follows r) (fr_total r)"
proof (cases "validate_pubkey (fp_pubkey p)")
  case (Err e)
  then show ?thesis using guard_cases(2) by (auto simp: handle_follows_def)
next
  case (Ok u)
  then have v: "pubkey_ok (fp_pubkey p)" using guard_cases(1) by simp
  let ?g = "graph_at env 0" and ?a = "fp_pubkey p"
  show ?thesis
  proof (cases "get_node_id ?g ?a")
    case None
    then have "snd (follow_cell ?g ?a) = {}" "get_follows_page ?g ?a (fp_offset p) (min (fp_limit p) 5000) = Some None"
      by (simp_all add: get_node_id_def follow_cell_def get_follows_page_def)
    then show ?thesis using Ok v by (simp add: handle_follows_def unwrap_page_def page_ok_def)
  next
    case (Some i)
    obtain names where n: "set names = snd (follow_cell ?g ?a)" "distinct names"
      "get_follows_page ?g ?a (fp_offset p) (min (fp_limit p) 5000) =
         Some (Some (take (min (fp_limit p) 5000) (drop (fp_offset p) names), length names))"
      using follows_page_spec [OF g Some] by blast
    have "page_ok (snd (follow_cell ?g ?a)) (fp_offset p) (fp_limit p)
        (take (min (fp_limit p) 5000) (drop (fp_offset p) names)) (length names)"
      unfolding page_ok_def using n(1,2) by blast
    then show ?thesis using Ok v n(3) by (simp add: handle_follows_def unwrap_page_def)
  qed
qed

lemma handle_mutes_ok:
  assumes g: "graph_wf (graph_at env 0)"
  shows "case handle_mutes env p of
      None \<Rightarrow> False
    | Some (Err e) \<Rightarrow> error_status e = 400 \<and> \<not> pubkey_ok (fp_pubkey p)
    | Some (Ok r) \<Rightarrow> pubkey_ok (fp_pubkey p) \<and> mr_pubkey r = fp_pubkey p \<and>
        (case snd (mute_cell (graph_at env 0) (fp_pubkey p)) of
           None \<Rightarrow> \<not> mr_public_list_known r \<and> mr_mutes r = [] \<and> mr_total r = 0
         | Some ms \<Rightarrow> mr_public_list_known r \<and> page_ok ms (fp_offset p) (fp_limit p) (mr_mutes r) (mr_total r))"
proof (cases "validate_pubkey (fp_pubkey p)")
  case (Err e)
  then show ?thesis using guard_cases(2) by (auto simp: handle_mutes_def)
next
  case (Ok u)
  then have v: "pubkey_ok (fp_pubkey p)" using guard_cases(1) by simp
  let ?g = "graph_at env 0" and ?a = "fp_pubkey p"
  note page = mutes_page_spec [OF g, of ?a "fp_offset p" "min (fp_limit p) 5000"]
  show ?thesis
  proof (cases "snd (mute_cell ?g ?a)")
    case None
    then show ?thesis using Ok v page by (simp add: handle_mutes_def unwrap_page_def)
  next
    case (Some ms)
    then obtain names where n: "set names = ms" "distinct names"
      "get_mutes_page ?g ?a (fp_offset p) (min (fp_limit p) 5000) =
         Some (Some (take (min (fp_limit p) 5000) (drop (fp_offset p) names), length names))"
      using page by auto
    have "page_ok ms (fp_offset p) (fp_limit p) (take (min (fp_limit p) 5000) (drop (fp_offset p) names)) (length names)"
      unfolding page_ok_def using n(1,2) by blast
    then show ?thesis using Ok v n(3) Some by (simp add: handle_mutes_def unwrap_page_def)
  qed
qed

lemma first_error_split:
  "first_error (r # rs) = Ok () \<longleftrightarrow> r = Ok () \<and> first_error rs = Ok ()"
  "first_error (r # rs) = Err e \<longleftrightarrow> r = Err e \<or> r = Ok () \<and> first_error rs = Err e"
  by (cases r; simp)+

lemma handle_common_follows_ok:
  assumes g: "graph_wf (graph_at env 0)"
  shows "case handle_common_follows env p of
      Err e \<Rightarrow> failure (\<not> (pubkey_ok (cp_from p) \<and> pubkey_ok (cp_to p))) (free_slots env 0 = 0) (task_dropped env 0) e
    | Ok r \<Rightarrow> pubkey_ok (cp_from p) \<and> pubkey_ok (cp_to p) \<and> 0 < free_slots env 0 \<and> \<not> task_dropped env 0 \<and> cr_from r = cp_from p \<and> cr_to r = cp_to p \<and>
        distinct (cr_common_follows r) \<and>
        set (cr_common_follows r) = snd (follow_cell (graph_at env 0) (cp_from p)) \<inter> snd (follow_cell (graph_at env 0) (cp_to p))"
proof -
  obtain names where names: "common_follows (graph_at env 0) (cp_from p) (cp_to p) = Some names" "distinct names"
    "set names = snd (follow_cell (graph_at env 0) (cp_from p)) \<inter> snd (follow_cell (graph_at env 0) (cp_to p))"
    using common_follows_spec [OF g, of "cp_from p" "cp_to p"] by blast
  show ?thesis
  proof (cases "first_error [validate_pubkey (cp_from p), validate_pubkey (cp_to p), query_permit (free_slots env 0)]")
    case (Err e)
    then have "failure (\<not> (pubkey_ok (cp_from p) \<and> pubkey_ok (cp_to p))) (free_slots env 0 = 0) (task_dropped env 0) e"
      by (auto simp: failure_def first_error_split guard_cases(1) dest!: guard_cases(2,6) simp del: first_error.simps(2))
    then show ?thesis using Err by (simp add: handle_common_follows_def)
  next
    case (Ok u)
    then have "pubkey_ok (cp_from p) \<and> pubkey_ok (cp_to p) \<and> 0 < free_slots env 0"
      by (simp add: first_error_split guard_cases(1,5) del: first_error.simps(2))
    then show ?thesis
      using Ok names by (cases "task_dropped env 0") (auto simp: handle_common_follows_def failure_def joined_def)
  qed
qed

lemma handle_path_ok:
  assumes g: "graph_wf (graph_at env 0)"
  shows "case handle_path env p of
      Err e \<Rightarrow> failure (\<not> (pubkey_ok (pp_from p) \<and> pubkey_ok (pp_to p) \<and> hops_ok (pp_max_hops p)))
        (free_slots env 0 = 0) (task_dropped env 0) e
    | Ok r \<Rightarrow> pubkey_ok (pp_from p) \<and> pubkey_ok (pp_to p) \<and> hops_ok (pp_max_hops p) \<and>
        0 < free_slots env 0 \<and> \<not> task_dropped env 0 \<and>
        path_ok (graph_at env 0) \<lparr>pq_from = pp_from p, pq_to = pp_to p, pq_max_hops = pp_max_hops p\<rparr>
          \<lparr>pr_from = pre_from r, pr_to = pre_to r, pr_path = pre_path r\<rparr>"
proof -
  let ?q = "\<lparr>pq_from = pp_from p, pq_to = pp_to p, pq_max_hops = pp_max_hops p\<rparr>"
  obtain r where r: "compute_path (graph_at env 0) ?q = Some r" "path_ok (graph_at env 0) ?q r"
    using compute_path_ok [OF g, of ?q] by blast
  then have "r = \<lparr>pr_from = pp_from p, pr_to = pp_to p, pr_path = pr_path r\<rparr>" by (simp add: path_ok_def Let_def)
  then have ok: "path_ok (graph_at env 0) ?q \<lparr>pr_from = pp_from p, pr_to = pp_to p, pr_path = pr_path r\<rparr>" using r(2) by simp
  show ?thesis
  proof (cases "first_error [validate_pubkey (pp_from p), validate_pubkey (pp_to p), validate_max_hops (pp_max_hops p),
      query_permit (free_slots env 0)]")
    case (Err e)
    then have "failure (\<not> (pubkey_ok (pp_from p) \<and> pubkey_ok (pp_to p) \<and> hops_ok (pp_max_hops p)))
        (free_slots env 0 = 0) (task_dropped env 0) e"
      by (auto simp: failure_def first_error_split guard_cases(1,3) dest!: guard_cases(2,4,6) simp del: first_error.simps(2))
    then show ?thesis using Err by (simp add: handle_path_def)
  next
    case (Ok u)
    then have "pubkey_ok (pp_from p) \<and> pubkey_ok (pp_to p) \<and> hops_ok (pp_max_hops p) \<and> 0 < free_slots env 0"
      by (simp add: first_error_split guard_cases(1,3,5) del: first_error.simps(2))
    then show ?thesis
      using Ok r(1) ok by (cases "task_dropped env 0") (auto simp: handle_path_def failure_def joined_def)
  qed
qed

lemma handle_trust_ok:
  assumes ok: "request_ok ops T at env" and sound: "sound_at ops T (at 0) c"
    and run: "handle_trust ops env p c = (Ok r, c')"
  shows "sound_at ops T (at 11) c' \<and> answered T at 10 (query_of_params p) (tr_follow_distance r) \<and>
    mute_evidence_of (T (at 11)) (dp_from p) (dp_to p) = Some (tr_public_mute_evidence r)"
proof -
  obtain d c1 where d: "get_distance ops env p c = (Ok d, c1)"
    using run by (auto simp: handle_trust_def split: prod.splits result.splits)
  obtain e where e: "mute_evidence_of (T (at 11)) (dp_from p) (dp_to p) = Some e"
    using mute_evidence_spec [OF request_facts(6) [OF ok]] by blast
  have "c' = c1" "tr_follow_distance r = d" "tr_public_mute_evidence r = e"
    using run d e request_facts(5) [OF ok, of 11]
    by (auto simp: handle_trust_def joined_def split: result.splits if_splits)
  then show ?thesis using get_distance_ok [OF ok sound d] e by simp
qed

end
