(* ===== verification/GovernorKey.thy ===== *)
theory GovernorKey
  imports OracleConfig
begin

text \<open>
  The key of the rate limiter (\<open>api/governor_key.rs\<close>): the address of the client, from the proxy
  headers first and the connection last. \<open>IpAddr::from_str\<close> is the parser of the Rust standard
  library, modelled here: a parser takes a string and returns a value and the rest. What the
  \<open>http\<close> crate accepts as text (\<open>to_str\<close>) and the \<open>forwarded-header-value\<close> crate are parameters.
\<close>

section \<open>Addresses\<close>

datatype ip_addr = V4 "nat list" | V6 "nat list"

type_synonym 'a parser = "string \<Rightarrow> ('a \<times> string) option"

definition to_digit :: "nat \<Rightarrow> char \<Rightarrow> nat option" where
  "to_digit radix c =
     (let n = of_char c :: nat;
          d = (if 48 \<le> n \<and> n \<le> 57 then Some (n - 48)
               else if 97 \<le> n \<and> n \<le> 102 then Some (n - 87)
               else if 65 \<le> n \<and> n \<le> 70 then Some (n - 55) else None)
      in case d of None \<Rightarrow> None | Some v \<Rightarrow> if v < radix then Some v else None)"

text \<open>\<open>None\<close> on overflow of the integer type or on too many digits.\<close>

fun read_digits :: "nat \<Rightarrow> nat \<Rightarrow> nat \<Rightarrow> nat \<Rightarrow> nat \<Rightarrow> string \<Rightarrow> (nat \<times> nat \<times> string) option" where
  "read_digits radix max_digits hi n v [] = Some (v, n, [])"
| "read_digits radix max_digits hi n v (c # cs) =
     (case to_digit radix c of
        None \<Rightarrow> Some (v, n, c # cs)
      | Some d \<Rightarrow>
          if hi < v * radix + d \<or> max_digits < n + 1 then None
          else read_digits radix max_digits hi (n + 1) (v * radix + d) cs)"

definition read_number :: "nat \<Rightarrow> nat \<Rightarrow> bool \<Rightarrow> nat \<Rightarrow> nat parser" where
  "read_number radix max_digits allow_zero_prefix hi s =
     (case read_digits radix max_digits hi 0 0 s of
        None \<Rightarrow> None
      | Some (v, n, s1) \<Rightarrow>
          if n = 0 then None
          else if \<not> allow_zero_prefix \<and> hd s = CHR ''0'' \<and> 1 < n then None
          else Some (v, s1))"

definition read_separator :: "char \<Rightarrow> nat \<Rightarrow> 'a parser \<Rightarrow> 'a parser" where
  "read_separator sep i inner s =
     (if 0 < i then (case s of c # cs \<Rightarrow> if c = sep then inner cs else None | [] \<Rightarrow> None) else inner s)"

fun read_octets :: "nat \<Rightarrow> nat \<Rightarrow> nat list parser" where
  "read_octets 0 i s = Some ([], s)"
| "read_octets (Suc k) i s =
     (case read_separator CHR ''.'' i (read_number 10 3 False 255) s of
        None \<Rightarrow> None
      | Some (v, s1) \<Rightarrow> (case read_octets k (i + 1) s1 of None \<Rightarrow> None | Some (vs, s2) \<Rightarrow> Some (v # vs, s2)))"

definition read_ipv4 :: "nat list parser" where
  "read_ipv4 s = read_octets 4 0 s"

text \<open>At most \<open>k\<close> groups from number \<open>i\<close> on; the flag says that an IPv4 address ended them.\<close>

fun read_groups :: "nat \<Rightarrow> nat \<Rightarrow> string \<Rightarrow> nat list \<times> bool \<times> string" where
  "read_groups 0 i s = ([], False, s)"
| "read_groups (Suc k) i s =
     (case (if 0 < k then read_separator CHR '':'' i read_ipv4 s else None) of
        Some (os, s1) \<Rightarrow> ([os ! 0 * 256 + os ! 1, os ! 2 * 256 + os ! 3], True, s1)
      | None \<Rightarrow>
          (case read_separator CHR '':'' i (read_number 16 4 True 65535) s of
             None \<Rightarrow> ([], False, s)
           | Some (v, s1) \<Rightarrow> (case read_groups k (i + 1) s1 of (vs, ipv4, s2) \<Rightarrow> (v # vs, ipv4, s2))))"

definition read_ipv6 :: "nat list parser" where
  "read_ipv6 s =
     (case read_groups 8 0 s of
        (head, ipv4, s1) \<Rightarrow>
          if length head = 8 then Some (head, s1)
          else if ipv4 then None
          else
            (case s1 of
               c1 # c2 # s2 \<Rightarrow>
                 if c1 = CHR '':'' \<and> c2 = CHR '':'' then
                   (case read_groups (8 - (length head + 1)) 0 s2 of
                      (tail, _, s3) \<Rightarrow> Some (head @ replicate (8 - length head - length tail) 0 @ tail, s3))
                 else None
             | _ \<Rightarrow> None))"

definition parse_ip :: "string \<Rightarrow> ip_addr option" where
  "parse_ip s =
     (case (case read_ipv4 s of
              Some (os, rest) \<Rightarrow> Some (V4 os, rest)
            | None \<Rightarrow> map_option (\<lambda>(gs, rest). (V6 gs, rest)) (read_ipv6 s)) of
        None \<Rightarrow> None
      | Some (ip, rest) \<Rightarrow> if rest = [] then Some ip else None)"

section \<open>Headers\<close>

text \<open>The values of a header in order, by its lower-case name.\<close>

type_synonym headers = "string \<Rightarrow> string list"

datatype forwarded_id = SocketAddr ip_addr nat | IpAddr ip_addr | OtherIdentifier

fun find_map :: "('a \<Rightarrow> 'b option) \<Rightarrow> 'a list \<Rightarrow> 'b option" where
  "find_map f [] = None"
| "find_map f (x # xs) = (case f x of Some y \<Rightarrow> Some y | None \<Rightarrow> find_map f xs)"

definition first_value :: "headers \<Rightarrow> string \<Rightarrow> string option" where
  "first_value headers name = (case headers name of v # _ \<Rightarrow> Some v | [] \<Rightarrow> None)"

definition maybe_x_forwarded_for :: "(string \<Rightarrow> string option) \<Rightarrow> headers \<Rightarrow> ip_addr option" where
  "maybe_x_forwarded_for to_str headers =
     Option.bind (Option.bind (first_value headers ''x-forwarded-for'') to_str)
       (\<lambda>s. find_map (\<lambda>part. parse_ip (trim part)) (split_on CHR '','' s))"

definition maybe_x_real_ip :: "(string \<Rightarrow> string option) \<Rightarrow> headers \<Rightarrow> ip_addr option" where
  "maybe_x_real_ip to_str headers =
     Option.bind (Option.bind (first_value headers ''x-real-ip'') to_str) parse_ip"

text \<open>The \<open>forwarded_for\<close> of each stanza, where it has one, is what the crate makes of a value.\<close>

definition maybe_forwarded ::
    "(string \<Rightarrow> string option) \<Rightarrow> (string \<Rightarrow> forwarded_id option list option) \<Rightarrow> headers \<Rightarrow> ip_addr option" where
  "maybe_forwarded to_str from_forwarded headers =
     find_map
       (\<lambda>hv. Option.bind (Option.bind (to_str hv) from_forwarded)
          (\<lambda>stanzas. find_map (\<lambda>ff. case ff of SocketAddr a _ \<Rightarrow> Some a | IpAddr ip \<Rightarrow> Some ip | OtherIdentifier \<Rightarrow> None)
             (List.map_filter (\<lambda>fs. fs) stanzas)))
       (headers ''forwarded'')"

datatype governor_error = UnableToExtractKey

definition extract_key ::
    "(string \<Rightarrow> string option) \<Rightarrow> (string \<Rightarrow> forwarded_id option list option) \<Rightarrow> headers \<Rightarrow> ip_addr option \<Rightarrow>
     (ip_addr, governor_error) result" where
  "extract_key to_str from_forwarded headers peer =
     (case maybe_x_forwarded_for to_str headers of
        Some ip \<Rightarrow> Ok ip
      | None \<Rightarrow>
          (case maybe_x_real_ip to_str headers of
             Some ip \<Rightarrow> Ok ip
           | None \<Rightarrow>
               (case maybe_forwarded to_str from_forwarded headers of
                  Some ip \<Rightarrow> Ok ip
                | None \<Rightarrow> (case peer of Some ip \<Rightarrow> Ok ip | None \<Rightarrow> Err UnableToExtractKey))))"

section \<open>Correctness\<close>

lemma find_map_filter: "find_map f xs = (case List.map_filter f xs of y # _ \<Rightarrow> Some y | [] \<Rightarrow> None)"
  by (induction xs) (auto simp: List.map_filter_simps split: option.split)

lemma find_map_None: "find_map f xs = None \<longleftrightarrow> (\<forall>x \<in> set xs. f x = None)"
  by (induction xs) (auto split: option.split)

text \<open>Every octet and every group is in range, and an address has all of them.\<close>

lemma read_digits_bound: "read_digits radix k hi n v s = Some (w, m, t) \<Longrightarrow> v \<le> hi \<Longrightarrow> w \<le> hi"
  by (induction radix k hi n v s rule: read_digits.induct) (auto split: option.splits if_splits)

lemma read_number_bound: "read_number radix k z hi s = Some (v, t) \<Longrightarrow> v \<le> hi"
  by (auto simp: read_number_def dest: read_digits_bound split: option.splits if_splits)

lemma read_separator_number: "read_separator sep i (read_number radix k z hi) s = Some (v, t) \<Longrightarrow> v \<le> hi"
  by (auto simp: read_separator_def dest: read_number_bound split: if_splits list.splits)

lemma read_octets_ok: "read_octets k i s = Some (os, t) \<Longrightarrow> length os = k \<and> (\<forall>v \<in> set os. v < 256)"
  by (induction k i s arbitrary: os t rule: read_octets.induct)
    (fastforce dest: read_separator_number split: option.splits prod.splits)+

lemma read_separator_ipv4: "read_separator sep i read_ipv4 s = Some (os, t) \<Longrightarrow> length os = 4 \<and> (\<forall>v \<in> set os. v < 256)"
  by (auto simp: read_separator_def read_ipv4_def dest: read_octets_ok split: if_splits list.splits)

lemma octet_pair: "a < 256 \<Longrightarrow> b < 256 \<Longrightarrow> a * 256 + b < (65536::nat)"
  by simp

lemma read_groups_ok: "read_groups k i s = (gs, ipv4, t) \<Longrightarrow> length gs \<le> k \<and> (\<forall>v \<in> set gs. v < 65536)"
proof (induction k i s arbitrary: gs ipv4 t rule: read_groups.induct)
  case (2 k i s)
  show ?case
  proof (cases "if 0 < k then read_separator CHR '':'' i read_ipv4 s else None")
    case (Some p)
    obtain os s1 where p: "p = (os, s1)" by (cases p)
    then have os: "0 < k" "length os = 4" "\<forall>v \<in> set os. v < 256"
      using Some read_separator_ipv4 [of "CHR '':''" i s os s1] by (simp_all split: if_splits)
    then have "os ! 0 < 256" "os ! 1 < 256" "os ! 2 < 256" "os ! 3 < 256" by simp_all
    then show ?thesis using "2.prems" Some p os(1) octet_pair by auto
  next
    case None
    show ?thesis
    proof (cases "read_separator CHR '':'' i (read_number 16 4 True 65535) s")
      case None': None
      then show ?thesis using "2.prems" None by auto
    next
      case (Some q)
      obtain v s1 where q: "q = (v, s1)" by (cases q)
      obtain vs ip4 s2 where rest: "read_groups k (i + 1) s1 = (vs, ip4, s2)" by (metis prod.exhaust)
      have "v \<le> 65535" using read_separator_number Some q by blast
      moreover have "length vs \<le> k \<and> (\<forall>v \<in> set vs. v < 65536)" using "2.IH" [OF None Some q [symmetric]] rest by simp
      ultimately show ?thesis using "2.prems" None Some q rest by auto
    qed
  qed
qed simp

definition ip_ok :: "ip_addr \<Rightarrow> bool" where
  "ip_ok ip = (case ip of V4 os \<Rightarrow> length os = 4 \<and> (\<forall>v \<in> set os. v < 256) | V6 gs \<Rightarrow> length gs = 8 \<and> (\<forall>v \<in> set gs. v < 65536))"

lemma read_ipv6_ok:
  assumes "read_ipv6 s = Some (gs, t)"
  shows "length gs = 8 \<and> (\<forall>v \<in> set gs. v < 65536)"
proof -
  obtain head ipv4 s1 where h: "read_groups 8 0 s = (head, ipv4, s1)" by (metis prod.exhaust)
  note hd_ok = read_groups_ok [OF h]
  show ?thesis
  proof (cases "length head = 8")
    case True
    then show ?thesis using assms h hd_ok by (auto simp: read_ipv6_def)
  next
    case False
    then obtain s2 tl ip4 s3 where r: "read_groups (8 - (length head + 1)) 0 s2 = (tl, ip4, s3)"
      "gs = head @ replicate (8 - length head - length tl) 0 @ tl"
      using assms h by (auto simp: read_ipv6_def split: if_splits list.splits prod.splits)
    then show ?thesis using read_groups_ok [OF r(1)] hd_ok False by auto
  qed
qed

lemma parse_ip_ok: "parse_ip s = Some ip \<Longrightarrow> ip_ok ip"
  by (auto simp: parse_ip_def ip_ok_def read_ipv4_def dest!: read_octets_ok read_ipv6_ok split: option.splits if_splits)

end
