(* ===== verification/IngestionSpec.thy ===== *)
theory IngestionSpec
  imports Ingestion
begin

text \<open>
  What ingestion guarantees. The lists an observer reads from a store are a pair of cell maps
  (\<open>lists\<close>); \<open>apply_update\<close> is what one event does to them. Choosing the winners of a batch,
  writing them in two transactions, retrying, and skipping events the seen cache dominates all
  leave the lists that applying every update in order would leave, in the database and in the
  graph.
\<close>

section \<open>Lists of a store\<close>

type_synonym lists = "(string \<Rightarrow> meta \<times> string set) \<times> (string \<Rightarrow> meta \<times> string set option)"

abbreviation known_set :: "string list \<Rightarrow> string set option" where
  "known_set l \<equiv> Some (set l)"

definition apply_update :: "list_update \<Rightarrow> lists \<Rightarrow> lists" where
  "apply_update u v =
     (if lu_kind u = mute_kind then (fst v, put_update known_set (batch_item u) (snd v))
      else (put_update set (batch_item u) (fst v), snd v))"

definition graph_lists :: "wot_graph \<Rightarrow> lists" where
  "graph_lists g = (follow_cell g, mute_cell g)"

definition db_lists :: "database \<Rightarrow> lists" where
  "db_lists db = (stored False db, db_mute_cell db)"

definition of_kind :: "bool \<Rightarrow> list_update list \<Rightarrow> follow_update_batch list" where
  "of_kind mute us = map batch_item (filter (\<lambda>u. (lu_kind u = mute_kind) = mute) us)"

lemma fold_apply:
  "fold apply_update us v = (fold (put_update set) (of_kind False us) (fst v), fold (put_update known_set) (of_kind True us) (snd v))"
  by (induction us arbitrary: v) (auto simp: apply_update_def of_kind_def)

text \<open>One update of the graph.\<close>

lemma apply_to_graph_ok:
  assumes "graph_wf g" "graph_small (apply_to_graph u g)"
  shows "graph_wf (apply_to_graph u g) \<and> graph_lists (apply_to_graph u g) = apply_update u (graph_lists g)"
proof (cases "lu_kind u = mute_kind")
  case True
  let ?m = "(Some (lu_created_at u), Some (lu_event_id u))"
  have g': "apply_to_graph u g = put_mutes (lu_pubkey u) ?m (lu_follows u) g"
    using True by (simp add: apply_to_graph_def put_mutes_def)
  show ?thesis
    using put_mutes_spec [OF assms(1), of "lu_pubkey u" ?m "lu_follows u"] assms(2) True
    by (auto simp: g' graph_lists_def apply_update_def put_update_def pick_update_def update_meta_def batch_item_def)
next
  case False
  let ?m = "(Some (lu_created_at u), Some (lu_event_id u))"
  have g': "apply_to_graph u g = put_follows (lu_pubkey u) ?m (lu_follows u) g"
    using False by (simp add: apply_to_graph_def put_follows_def)
  show ?thesis
    using put_follows_spec [OF assms(1), of "lu_pubkey u" ?m "lu_follows u"] assms(2) False
    by (auto simp: g' graph_lists_def apply_update_def put_update_def pick_update_def update_meta_def batch_item_def)
qed

lemma apply_to_graph_small: "graph_small (apply_to_graph u g) \<Longrightarrow> graph_small g"
  unfolding apply_to_graph_def
  using put_small(1) [of "lu_pubkey u" "(Some (lu_created_at u), Some (lu_event_id u))" "lu_follows u" g]
    put_small(2) [of "lu_pubkey u" "(Some (lu_created_at u), Some (lu_event_id u))" "lu_follows u" g]
  by (simp add: put_follows_def put_mutes_def split: if_splits)

lemma publish_ok:
  "graph_wf g \<Longrightarrow> graph_small (fold apply_to_graph us g) \<Longrightarrow>
     graph_small g \<and> graph_wf (fold apply_to_graph us g) \<and>
     graph_lists (fold apply_to_graph us g) = fold apply_update us (graph_lists g)"
proof (induction us arbitrary: g)
  case (Cons u us)
  have small: "graph_small (fold apply_to_graph us (apply_to_graph u g))" using Cons.prems(2) by simp
  have "graph_small h" if "graph_small (fold apply_to_graph vs h)" for vs h
    using that by (induction vs arbitrary: h) (auto dest: apply_to_graph_small)
  then have "graph_small (apply_to_graph u g)" using small by blast
  then show ?case
    using apply_to_graph_ok [OF Cons.prems(1)] Cons.IH [of "apply_to_graph u g"] small apply_to_graph_small by simp
qed simp

text \<open>A batch of one kind in the database.\<close>

lemma put_mute_cells:
  assumes "\<And>a. \<not> K a \<Longrightarrow> fst (c a) = (None, None)"
  shows "(\<lambda>a. (fst (fold (put_update set) us c a),
      if K a \<or> a \<in> fu_pubkey ` set us then Some (snd (fold (put_update set) us c a)) else None)) =
    fold (put_update known_set) us (\<lambda>a. (fst (c a), if K a then Some (snd (c a)) else None))"
  using assms
proof (induction us arbitrary: c K)
  case Nil
  show ?case by (simp cong: if_cong)
next
  case (Cons u us)
  let ?c = "put_update set u c" and ?K = "\<lambda>a. K a \<or> a = fu_pubkey u"
  have K: "fst (?c a) = (None, None)" if "\<not> ?K a" for a
    using that Cons.prems by (simp add: put_update_def)
  have "(\<lambda>a. (fst (?c a), if ?K a then Some (snd (?c a)) else None)) =
      put_update known_set u (\<lambda>a. (fst (c a), if K a then Some (snd (c a)) else None))"
  proof (rule ext)
    fix a
    have "K (fu_pubkey u)" if "\<not> accepts (fst (c (fu_pubkey u))) (update_meta u)"
      using that Cons.prems [of "fu_pubkey u"] by (cases "K (fu_pubkey u)") auto
    then show "(fst (?c a), if ?K a then Some (snd (?c a)) else None) =
        put_update known_set u (\<lambda>a. (fst (c a), if K a then Some (snd (c a)) else None)) a"
      by (auto simp: put_update_def pick_update_def)
  qed
  moreover have "(\<lambda>a. K a \<or> a \<in> fu_pubkey ` set (u # us)) = (\<lambda>a. ?K a \<or> a \<in> fu_pubkey ` set us)" by auto
  ultimately show ?case using Cons.IH [of ?K ?c] K by (simp add: disj_assoc cong: if_cong)
qed

lemma wrote_lists:
  assumes "wrote db mute us d"
  shows "db_lists d = (if mute then (fst (db_lists db), fold (put_update known_set) us (snd (db_lists db)))
    else (fold (put_update set) us (fst (db_lists db)), snd (db_lists db)))"
proof (cases mute)
  case True
  have cell: "db_mute_cell e = (\<lambda>a. (fst (stored True e a), if db_known e a then Some (snd (stored True e a)) else None))" for e
    by (simp add: fun_eq_iff db_mute_cell_def stored_def)
  have "\<not> db_known db a \<Longrightarrow> fst (stored True db a) = (None, None)" for a
    by (simp add: stored_def db_known_meta)
  from put_mute_cells [of "db_known db" "stored True db", OF this] show ?thesis
    using assms True by (simp add: wrote_def db_lists_def cell cong: if_cong)
next
  case False
  then have "stored True d = stored True db" "db_known d = db_known db" using assms by (simp_all add: wrote_def)
  then have "db_mute_cell d = db_mute_cell db"
    by (simp add: fun_eq_iff db_mute_cell_def stored_def)
  then show ?thesis using assms False by (simp add: wrote_def db_lists_def)
qed

section \<open>The winners of a batch\<close>

definition key_of :: "list_update \<Rightarrow> nat \<times> string" where
  "key_of u = (lu_kind u, lu_pubkey u)"

definition same_key :: "nat \<times> string \<Rightarrow> list_update list \<Rightarrow> list_update list" where
  "same_key k us = filter (\<lambda>u. key_of u = k) us"

text \<open>After \<open>n\<close> updates every key seen so far has the slot of its best update.\<close>

definition slots_ok :: "list_update list \<Rightarrow> nat \<Rightarrow> slots \<Rightarrow> bool" where
  "slots_ok us n w \<longleftrightarrow> distinct (map fst w) \<and>
     (\<forall>k. case map_of w k of
        None \<Rightarrow> same_key k (take n us) = []
      | Some i \<Rightarrow> i < n \<and> key_of (us ! i) = k \<and>
          best_of (map batch_item (same_key k (take n us))) = Some (batch_item (us ! i)))"

lemma update_wins:
  "(lu_created_at p < lu_created_at u \<or> (lu_created_at u = lu_created_at p \<and> lu_event_id u < lu_event_id p)) =
     accepts (update_meta (batch_item p)) (update_meta (batch_item u))"
  by (auto simp: update_meta_def batch_item_def accepts_event_def)

lemma choose_slot_ok:
  assumes ok: "slots_ok us n w" and n: "n < length us"
  shows "slots_ok us (Suc n) (choose_slot us (n, us ! n) w)"
proof -
  let ?u = "us ! n" and ?k = "key_of (us ! n)"
  let ?w = "choose_slot us (n, ?u) w"
  have take: "same_key k (take (Suc n) us) = same_key k (take n us) @ (if ?k = k then [?u] else [])" for k
    using n by (simp add: take_Suc_conv_app_nth same_key_def)
  have old: "case map_of w k of None \<Rightarrow> same_key k (take n us) = []
      | Some i \<Rightarrow> i < n \<and> key_of (us ! i) = k \<and> best_of (map batch_item (same_key k (take n us))) = Some (batch_item (us ! i))" for k
    using ok unfolding slots_ok_def by blast
  define new where "new = (case map_of w ?k of None \<Rightarrow> n
      | Some i \<Rightarrow> if accepts (update_meta (batch_item (us ! i))) (update_meta (batch_item ?u)) then n else i)"
  have w: "map_of ?w = (map_of w)(?k \<mapsto> new)" "distinct (map fst ?w)"
  proof -
    have dist: "distinct (map fst w)" using ok by (simp add: slots_ok_def)
    show "map_of ?w = (map_of w)(?k \<mapsto> new)"
      by (auto simp: choose_slot_def Let_def key_of_def new_def update_wins update_conv' split: option.split)
    show "distinct (map fst ?w)"
      using dist by (auto simp: choose_slot_def Let_def distinct_update split: option.split)
  qed
  have "case map_of ?w k of None \<Rightarrow> same_key k (take (Suc n) us) = []
      | Some i \<Rightarrow> i < Suc n \<and> key_of (us ! i) = k \<and>
          best_of (map batch_item (same_key k (take (Suc n) us))) = Some (batch_item (us ! i))" for k
  proof (cases "?k = k")
    case False
    then show ?thesis using old [of k] by (auto simp: w take split: option.split)
  next
    case True
    show ?thesis
    proof (cases "map_of w k")
      case None
      then have "same_key k (take n us) = []" using old [of k] by simp
      then show ?thesis using True None by (simp add: w take new_def best_of_def)
    next
      case (Some i)
      then have "i < n" "key_of (us ! i) = k" "best_of (map batch_item (same_key k (take n us))) = Some (batch_item (us ! i))"
        using old [of k] by simp_all
      then show ?thesis using True Some by (auto simp: w take new_def best_of_snoc)
    qed
  qed
  then show ?thesis using w(2) by (simp add: slots_ok_def)
qed

lemma slots_ok_fold: "n \<le> length us \<Longrightarrow> slots_ok us n (fold (choose_slot us) (enumerate 0 (take n us)) [])"
proof (induction n)
  case 0
  then show ?case by (simp add: slots_ok_def same_key_def)
next
  case (Suc n)
  then show ?case
    using choose_slot_ok [of us n] by (simp add: take_Suc_conv_app_nth enumerate_append_eq)
qed

lemma select_updates_ok:
  "set (select_updates us) \<subseteq> set us"
  "same_key k (select_updates us) = [] \<and> same_key k us = [] \<or>
   (\<exists>u. same_key k (select_updates us) = [u] \<and> best_of (map batch_item (same_key k us)) = Some (batch_item u))"
proof -
  let ?w = "fold (choose_slot us) (enumerate 0 us) []"
  have ok: "slots_ok us (length us) ?w" using slots_ok_fold [of "length us" us] by simp
  have slot: "case map_of ?w k of None \<Rightarrow> same_key k (take (length us) us) = []
      | Some i \<Rightarrow> i < length us \<and> key_of (us ! i) = k \<and>
          best_of (map batch_item (same_key k (take (length us) us))) = Some (batch_item (us ! i))" for k
    using ok unfolding slots_ok_def by blast
  have key: "i < length us \<and> key_of (us ! i) = k" if "(k, i) \<in> set ?w" for k i
  proof -
    have "map_of ?w k = Some i" using that ok by (simp add: slots_ok_def)
    then show ?thesis using slot [of k] by simp
  qed
  have sel: "select_updates us = map ((!) us) (sort (map snd ?w))" by (simp add: select_updates_def Let_def)
  show "set (select_updates us) \<subseteq> set us" using key by (auto simp: sel)
  have keys: "map key_of (map ((!) us) (map snd ?w)) = map fst ?w"
    using key by (auto intro!: map_cong)
  have "mset (map key_of (select_updates us)) = mset (map key_of (map ((!) us) (map snd ?w)))"
    by (simp add: sel image_mset.compositionality comp_assoc)
  then have dist: "distinct (map key_of (select_updates us))"
    unfolding keys using ok mset_eq_imp_distinct_iff unfolding slots_ok_def by blast
  have mem: "u \<in> set (select_updates us) \<longleftrightarrow> (\<exists>k i. map_of ?w k = Some i \<and> u = us ! i)" for u
  proof -
    have "map_of ?w k = Some i \<longleftrightarrow> (k, i) \<in> set ?w" for k i using ok by (simp add: slots_ok_def)
    then show ?thesis by (force simp: sel)
  qed
  show "same_key k (select_updates us) = [] \<and> same_key k us = [] \<or>
    (\<exists>u. same_key k (select_updates us) = [u] \<and> best_of (map batch_item (same_key k us)) = Some (batch_item u))"
  proof (cases "map_of ?w k")
    case None
    then have "same_key k us = []" using slot [of k] by simp
    moreover from this have "same_key k (select_updates us) = []"
      using \<open>set (select_updates us) \<subseteq> set us\<close> by (auto simp: same_key_def filter_empty_conv)
    ultimately show ?thesis by simp
  next
    case (Some i)
    then have i: "key_of (us ! i) = k" "best_of (map batch_item (same_key k us)) = Some (batch_item (us ! i))"
      using slot [of k] by simp_all
    have "us ! i \<in> set (select_updates us)" using mem Some by blast
    from filter_single [OF dist this] have "same_key k (select_updates us) = [us ! i]"
      by (simp add: same_key_def i(1))
    then show ?thesis using i(2) by blast
  qed
qed

text \<open>Publishing or storing the winners is publishing or storing the whole batch.\<close>

definition list_kinds :: "list_update list \<Rightarrow> bool" where
  "list_kinds us \<longleftrightarrow> (\<forall>u \<in> set us. lu_kind u = 3 \<or> lu_kind u = mute_kind)"

lemma of_kind_key:
  assumes "list_kinds us"
  shows "filter (\<lambda>u. fu_pubkey u = a) (of_kind mute us) = map batch_item (same_key (if mute then mute_kind else 3, a) us)"
  using assms by (induction us) (auto simp: of_kind_def same_key_def key_of_def batch_item_def list_kinds_def mute_kind_def)

lemma select_cells:
  assumes "list_kinds us"
  shows "fold (put_update wrap) (of_kind mute (select_updates us)) c = fold (put_update wrap) (of_kind mute us) c"
proof (rule ext)
  fix a :: string
  let ?k = "(if mute then mute_kind else 3, a)"
  have sel: "list_kinds (select_updates us)"
    using assms select_updates_ok(1) [of us] by (auto simp: list_kinds_def)
  have "best_of (map batch_item (same_key ?k (select_updates us))) = best_of (map batch_item (same_key ?k us))"
    using select_updates_ok(2) [of ?k us] by (auto simp: best_of_def)
  then show "fold (put_update wrap) (of_kind mute (select_updates us)) c a = fold (put_update wrap) (of_kind mute us) c a"
    unfolding fold_put_at of_kind_key [OF assms] of_kind_key [OF sel] fold_pick_best by simp
qed

lemma select_apply: "list_kinds us \<Longrightarrow> fold apply_update (select_updates us) v = fold apply_update us v"
  by (simp add: fold_apply select_cells)

section \<open>Persisting a batch\<close>

text \<open>
  \<open>in_step us db g\<close>: the database shows the lists of the graph, but the follow lists of the
  pending batch \<open>us\<close> may be committed already. \<open>in_sync\<close>: both show the same lists.
\<close>

definition in_sync :: "database \<Rightarrow> wot_graph \<Rightarrow> bool" where
  "in_sync db g \<longleftrightarrow> db_wf db \<and> graph_wf g \<and> db_lists db = graph_lists g"

definition in_step :: "list_update list \<Rightarrow> database \<Rightarrow> wot_graph \<Rightarrow> bool" where
  "in_step us db g \<longleftrightarrow> db_wf db \<and> graph_wf g \<and>
     (db_lists db = graph_lists g \<or>
      db_lists db = (fold (put_update set) (of_kind False us) (follow_cell g), mute_cell g))"

lemma in_sync_step: "in_sync db g \<Longrightarrow> in_step us db g"
  by (simp add: in_sync_def in_step_def)

lemma put_updates_idem: "fold (put_update wrap) us (fold (put_update wrap) us c) = fold (put_update wrap) us c"
  by (rule ext) (auto simp: fold_put_at fold_pick_best pick_update_pick split: option.split)

lemma select_items:
  assumes "list_kinds us"
  shows "map batch_item (filter (\<lambda>u. lu_kind u = 3) (select_updates us)) = of_kind False (select_updates us)"
    "map batch_item (filter (\<lambda>u. lu_kind u = mute_kind) (select_updates us)) = of_kind True (select_updates us)"
proof -
  have "\<forall>u \<in> set (select_updates us). lu_kind u = 3 \<or> lu_kind u = mute_kind"
    using assms select_updates_ok(1) [of us] by (auto simp: list_kinds_def)
  then show "map batch_item (filter (\<lambda>u. lu_kind u = 3) (select_updates us)) = of_kind False (select_updates us)"
    by (auto simp: of_kind_def mute_kind_def intro!: filter_cong arg_cong [where f = "map batch_item"])
  show "map batch_item (filter (\<lambda>u. lu_kind u = mute_kind) (select_updates us)) = of_kind True (select_updates us)"
    by (simp add: of_kind_def)
qed

definition attempt_ok :: "attempt \<Rightarrow> bool" where
  "attempt_ok a \<longleftrightarrow> env_ok (env_follows a) \<and> env_ok (env_mutes a)"

definition attempt_faulty :: "attempt \<Rightarrow> bool" where
  "attempt_faulty a \<longleftrightarrow> faulty (env_follows a) \<or> faulty (env_mutes a)"

theorem persist_and_apply_ok:
  assumes step: "in_step us db g" and kinds: "list_kinds us" and att: "attempt_ok a"
  shows "case persist_and_apply a us db g of
      (Err e, db', g') \<Rightarrow> g' = g \<and> in_step us db' g \<and> attempt_faulty a
    | (Ok n, db', g') \<Rightarrow> graph_small g' \<longrightarrow>
        graph_small g \<and> in_sync db' g' \<and> graph_lists g' = fold apply_update us (graph_lists g)"
proof -
  let ?sel = "select_updates us"
  let ?F = "fold (put_update set) (of_kind False us)" and ?M = "fold (put_update known_set) (of_kind True us)"
  let ?b1 = "update_follows_batch (env_follows a) (attempt_now a) (of_kind False ?sel) db"
  have db: "db_wf db" "graph_wf g" using step by (simp_all add: in_step_def)
  have env: "env_ok (env_follows a)" "env_ok (env_mutes a)" using att by (simp_all add: attempt_ok_def)
  have lists: "db_lists db = (follow_cell g, mute_cell g) \<or> db_lists db = (?F (follow_cell g), mute_cell g)"
    using step by (simp add: in_step_def graph_lists_def)
  have unfold: "persist_and_apply a us db g =
      (case ?b1 of (Err e, db1) \<Rightarrow> (Err e, db1, g)
       | (Ok n, db1) \<Rightarrow>
         (case update_mutes_batch (env_mutes a) (attempt_now a) (of_kind True ?sel) db1 of
            (Err e, db2) \<Rightarrow> (Err e, db2, g)
          | (Ok m, db2) \<Rightarrow> (Ok (n + m), db2, fold apply_to_graph ?sel g)))"
    by (simp only: persist_and_apply_def Let_def select_items [OF kinds])
  obtain r1 db1 where b1: "?b1 = (r1, db1)" by fastforce
  note ok1 = update_lists_batch_ok [OF db(1) env(1), where now = "attempt_now a" and us = "of_kind False ?sel" and mute = False]
  show ?thesis
  proof (cases r1)
    case (Err e)
    then have "db1 = db" "faulty (env_follows a)" using ok1 b1 by (simp_all add: update_follows_batch_def)
    then show ?thesis using unfold b1 Err step by (simp add: attempt_faulty_def)
  next
    case (Ok n)
    then have w1: "wrote db False (of_kind False ?sel) db1" using ok1 b1 by (simp add: update_follows_batch_def)
    then have db1: "db_wf db1" by (simp add: wrote_def)
    have lists1: "db_lists db1 = (?F (follow_cell g), mute_cell g)"
      using wrote_lists [OF w1] lists by (auto simp: select_cells [OF kinds] put_updates_idem)
    obtain r2 db2 where b2: "update_mutes_batch (env_mutes a) (attempt_now a) (of_kind True ?sel) db1 = (r2, db2)"
      by fastforce
    note ok2 = update_lists_batch_ok [OF db1 env(2), where now = "attempt_now a" and us = "of_kind True ?sel" and mute = True]
    show ?thesis
    proof (cases r2)
      case (Err e)
      then have "db2 = db1" "faulty (env_mutes a)" using ok2 b2 by (simp_all add: update_mutes_batch_def)
      then show ?thesis
        using unfold b1 b2 Ok Err db db1 lists1 by (simp add: attempt_faulty_def in_step_def)
    next
      case ok: (Ok m)
      then have w2: "wrote db1 True (of_kind True ?sel) db2" using ok2 b2 by (simp add: update_mutes_batch_def)
      have lists2: "db_lists db2 = fold apply_update us (graph_lists g)"
        using wrote_lists [OF w2] lists1 by (simp add: fold_apply select_cells [OF kinds] graph_lists_def)
      have "graph_small (fold apply_to_graph ?sel g) \<longrightarrow> graph_small g \<and> in_sync db2 (fold apply_to_graph ?sel g) \<and>
          graph_lists (fold apply_to_graph ?sel g) = fold apply_update us (graph_lists g)"
        using publish_ok [OF db(2), of ?sel] w2 lists2 by (auto simp: in_sync_def wrote_def select_apply [OF kinds])
      then show ?thesis using unfold b1 b2 Ok ok by simp
    qed
  qed
qed

section \<open>Flushing\<close>

theorem flush_attempts_ok:
  assumes "in_step us (st_db s) (st_graph s)" "list_kinds us" "\<forall>n. attempt_ok (att n)"
  shows "case flush_attempts att ns us s of
      (Err e, s') \<Rightarrow> st_graph s' = st_graph s \<and> in_step us (st_db s') (st_graph s')
    | (Ok _, s') \<Rightarrow> graph_small (st_graph s') \<longrightarrow> graph_small (st_graph s) \<and> in_sync (st_db s') (st_graph s') \<and>
        graph_lists (st_graph s') = fold apply_update us (graph_lists (st_graph s))"
  using assms
proof (induction ns arbitrary: s)
  case Nil
  then show ?case by simp
next
  case (Cons n ns)
  show ?case
  proof (cases "task_lost (att n)")
    case True
    then show ?thesis using Cons.prems by simp
  next
    case False
    obtain r db g where p: "persist_and_apply (att n) us (st_db s) (st_graph s) = (r, db, g)" by (metis prod.exhaust)
    note ok = persist_and_apply_ok [OF Cons.prems(1,2), of "att n"]
    show ?thesis
    proof (cases r)
      case (Ok k)
      then show ?thesis using False p ok Cons.prems(3) by simp
    next
      case (Err e)
      then have g: "g = st_graph s" "in_step us db (st_graph s)" using p ok Cons.prems(3) by simp_all
      show ?thesis
      proof (cases "n = 2")
        case True
        then show ?thesis using False p Err g by simp
      next
        case n: False
        obtain s1 where s1: "flush_attempts att (n # ns) us s = flush_attempts att ns us s1"
          "st_db s1 = db" "st_graph s1 = st_graph s"
          using False n p Err g(1) by (auto simp: Let_def)
        show ?thesis unfolding s1(1) by (rule Cons.IH [of s1, unfolded s1(2,3), OF g(2) Cons.prems(2,3)])
      qed
    qed
  qed
qed

text \<open>
  A flush that returns \<open>Ok\<close> has put the whole batch into both stores. It returns, and it returns
  \<open>Ok\<close> if one of its three attempts meets no fault (and no task was lost before).
\<close>

theorem flush_ok:
  assumes "in_sync (st_db s) (st_graph s)" "list_kinds us" "\<forall>n. attempt_ok (att n)"
  shows "case flush att us s of
      (Err e, b, s') \<Rightarrow> b = [] \<and> st_graph s' = st_graph s \<and> in_step us (st_db s') (st_graph s')
    | (Ok _, b, s') \<Rightarrow> b = [] \<and> (graph_small (st_graph s') \<longrightarrow> graph_small (st_graph s) \<and> in_sync (st_db s') (st_graph s') \<and>
        graph_lists (st_graph s') = fold apply_update us (graph_lists (st_graph s)))"
proof (cases "us = []")
  case True
  then show ?thesis using assms(1) by (simp add: flush_def)
next
  case False
  then show ?thesis
    using flush_attempts_ok [OF in_sync_step [OF assms(1)] assms(2,3), of "[0..<3]"]
    by (auto simp: flush_def split: prod.splits result.splits)
qed

lemma flush_attempts_succeed:
  assumes "in_step us (st_db s) (st_graph s)" "list_kinds us" "\<forall>n. attempt_ok (att n)"
    and "m \<le> k" "k < 3" "\<not> attempt_faulty (att k)" "\<forall>j\<le>k. \<not> task_lost (att j)"
  shows "is_ok (fst (flush_attempts att [m..<3] us s))"
  using assms
proof (induction "k - m" arbitrary: m s)
  case 0
  obtain r db g where p: "persist_and_apply (att m) us (st_db s) (st_graph s) = (r, db, g)" by (metis prod.exhaust)
  have "m = k" using 0 by simp
  then have "\<exists>n. r = Ok n" "\<not> task_lost (att m)"
    using persist_and_apply_ok [OF "0.prems"(1,2), of "att m"] p "0.prems" by (cases r; simp)+
  then show ?case using p "0.prems"(4,5) \<open>m = k\<close> by (auto simp: upt_conv_Cons)
next
  case (Suc d)
  obtain r db g where p: "persist_and_apply (att m) us (st_db s) (st_graph s) = (r, db, g)" by (metis prod.exhaust)
  have m: "m < k" "\<not> task_lost (att m)" "m \<noteq> 2" using Suc by auto
  have ns: "[m..<3] = m # [Suc m..<3]" using m(1) Suc.prems(5) by (simp add: upt_conv_Cons)
  show ?case
  proof (cases r)
    case (Ok n)
    then show ?thesis using p m by (simp add: ns)
  next
    case (Err e)
    then have g: "g = st_graph s" "in_step us db (st_graph s)"
      using persist_and_apply_ok [OF Suc.prems(1,2), of "att m"] p Suc.prems(3) by simp_all
    obtain s1 where s1: "flush_attempts att (m # [Suc m..<3]) us s = flush_attempts att [Suc m..<3] us s1"
      "st_db s1 = db" "st_graph s1 = st_graph s"
      using p m Err g(1) by (auto simp: Let_def)
    show ?thesis
      unfolding ns s1(1)
      by (rule Suc.hyps(1)) (use Suc.hyps(2) Suc.prems m g s1 in auto)
  qed
qed

end
