(* ===== verification/IngestionLoop.thy ===== *)
theory IngestionLoop
  imports IngestionSpec
begin

text \<open>
  The service loop. \<open>loop_inv\<close> relates its state to the updates received so far: the batch is
  what the stores still lack, the batch is never full between two inputs, and every entry of the
  seen cache is covered by the lists, so an event the cache dominates would change nothing. A
  shutdown that drains leaves both stores with the lists of all received updates; a failure never
  leaves the graph ahead of the database.
\<close>

section \<open>The seen cache\<close>

text \<open>
  Of the LRU cache: a look-up may reorder and forget, an insertion adds its entry and may forget
  others, and clearing forgets all.
\<close>

definition lru_ok :: "'c lru_ops \<Rightarrow> bool" where
  "lru_ok ops \<longleftrightarrow>
     (\<forall>k. fst (lru_get ops (lru_new ops) k) = None) \<and> (\<forall>c k. fst (lru_get ops (lru_clear ops c) k) = None) \<and>
     (\<forall>c k k' e. fst (lru_get ops (snd (lru_get ops c k)) k') = Some e \<longrightarrow> fst (lru_get ops c k') = Some e) \<and>
     (\<forall>c k e k' e'. fst (lru_get ops (lru_put ops c k e) k') = Some e' \<longrightarrow>
        (k' = k \<and> e' = e) \<or> fst (lru_get ops c k') = Some e')"

definition cell_meta :: "lists \<Rightarrow> seen_key \<Rightarrow> meta" where
  "cell_meta v k = (if snd k = mute_kind then fst (snd v (fst k)) else fst (fst v (fst k)))"

text \<open>The lists \<open>v\<close> hold a version of the key that is not older than the entry.\<close>

definition covers :: "lists \<Rightarrow> seen_key \<Rightarrow> seen_event \<Rightarrow> bool" where
  "covers v k s \<longleftrightarrow>
     uint (seen_created_at s) < 2 ^ 63 \<and>
     \<not> accepts (cell_meta v k) (Some (uint (seen_created_at s)), Some (seen_id s))"

definition lu_meta :: "list_update \<Rightarrow> meta" where
  "lu_meta u = (Some (lu_created_at u), Some (lu_event_id u))"

lemma update_meta_item [simp]: "update_meta (batch_item u) = lu_meta u"
  by (simp add: update_meta_def batch_item_def lu_meta_def)

lemma cell_meta_apply:
  "cell_meta (apply_update u v) k =
     (if k = (lu_pubkey u, lu_kind u) \<and> accepts (cell_meta v k) (lu_meta u) then lu_meta u else cell_meta v k)"
  if "lu_kind u = 3 \<or> lu_kind u = mute_kind" "snd k = 3 \<or> snd k = mute_kind"
  using that
  by (cases k) (auto simp: cell_meta_def apply_update_def put_update_def pick_update_def batch_item_def [of u] mute_kind_def
      update_meta_def lu_meta_def)

lemma rejected_update:
  assumes "lu_kind u = 3 \<or> lu_kind u = mute_kind" "\<not> accepts (cell_meta v (lu_pubkey u, lu_kind u)) (lu_meta u)"
  shows "apply_update u v = v"
  using assms
  by (cases v) (auto simp: cell_meta_def apply_update_def put_update_def pick_update_def mute_kind_def batch_item_def
      update_meta_def lu_meta_def fun_upd_idem_iff)

lemma process_event_fields:
  assumes "process_event e = Some u"
  shows "lu_kind u = ev_kind e" "lu_pubkey u = ev_pubkey e" "lu_kind u = 3 \<or> lu_kind u = mute_kind"
    "lu_meta u = (Some (i64_of_u64 (ev_created_at e)), Some (ev_id e))"
  using assms by (auto simp: process_event_def lu_meta_def split: if_splits)

lemma accepts_irrefl_versions: "\<not> accepts (Some t, Some i) (Some t, Some i)"
  by (simp add: accepts_event_def)

lemma covers_dominated:
  assumes c: "covers v (ev_pubkey e, ev_kind e) s" and d: "dominates s e" and u: "process_event e = Some u"
  shows "apply_update u v = v"
proof -
  note f = process_event_fields [OF u]
  have s: "uint (seen_created_at s) < 2 ^ 63" using c by (simp add: covers_def)
  have le: "uint (ev_created_at e) < uint (seen_created_at s) \<or>
      (uint (ev_created_at e) = uint (seen_created_at s) \<and> seen_id s \<le> ev_id e)"
    using d by (auto simp: dominates_def word_less_def)
  then have "i64_of_u64 (ev_created_at e) = uint (ev_created_at e)" using s by (auto simp: i64_of_u64_def)
  then have "\<not> accepts (Some (uint (seen_created_at s)), Some (seen_id s)) (lu_meta u)"
    using le by (auto simp: f(4) accepts_event_def)
  then have "\<not> accepts (cell_meta v (lu_pubkey u, lu_kind u)) (lu_meta u)"
    using c rejects_trans unfolding covers_def f(1,2) by blast
  then show ?thesis using f(3) by (intro rejected_update)
qed

lemma covers_apply:
  assumes "covers v k s" "lu_kind u = 3 \<or> lu_kind u = mute_kind" "snd k = 3 \<or> snd k = mute_kind"
  shows "covers (apply_update u v) k s"
  using assms accepts_trans [of "cell_meta v k" "lu_meta u" "(Some (uint (seen_created_at s)), Some (seen_id s))"]
  by (auto simp: covers_def cell_meta_apply)

lemma covers_own:
  assumes u: "process_event e = Some u" and t: "uint (ev_created_at e) < 2 ^ 63"
  shows "covers (apply_update u v) (ev_pubkey e, ev_kind e) \<lparr>seen_created_at = ev_created_at e, seen_id = ev_id e\<rparr>"
proof -
  note f = process_event_fields [OF u]
  have m: "lu_meta u = (Some (uint (ev_created_at e)), Some (ev_id e))" using t by (simp add: f(4) i64_of_u64_def)
  have "\<not> accepts (cell_meta (apply_update u v) (ev_pubkey e, ev_kind e)) (lu_meta u)"
    using accepts_irrefl_versions f by (auto simp: cell_meta_apply m)
  then show ?thesis using t by (simp add: covers_def m)
qed

section \<open>One input\<close>

definition event_updates :: "nostr_event \<Rightarrow> int \<Rightarrow> list_update list" where
  "event_updates e now =
     (if word_of_int now + 600 < ev_created_at e then []
      else case process_event e of None \<Rightarrow> [] | Some u \<Rightarrow> [u])"

definition input_updates :: "loop_input \<Rightarrow> list_update list" where
  "input_updates i = (case i of EventReceived e now _ \<Rightarrow> event_updates e now | _ \<Rightarrow> [])"

definition stops :: "loop_input \<Rightarrow> bool" where
  "stops i = (case i of ShutdownChanged changed_err value \<Rightarrow> changed_err \<or> value | _ \<Rightarrow> False)"

text \<open>The environment of an input: sane databases, and a clock in range.\<close>

definition input_sane :: "loop_input \<Rightarrow> bool" where
  "input_sane i =
     (case i of
        TimerTick att \<Rightarrow> \<forall>n. attempt_ok (att n)
      | EventReceived _ now att \<Rightarrow> 0 \<le> now \<and> now + 600 < 2 ^ 63 \<and> (\<forall>n. attempt_ok (att n))
      | Lagged _ att _ \<Rightarrow> \<forall>n. attempt_ok (att n)
      | NotificationsClosed att \<Rightarrow> \<forall>n. attempt_ok (att n)
      | _ \<Rightarrow> True)"

text \<open>\<open>owes v us s\<close>: the stores agree, and with the pending updates \<open>us\<close> they show \<open>v\<close>.\<close>

definition owes :: "lists \<Rightarrow> list_update list \<Rightarrow> stores \<Rightarrow> bool" where
  "owes v us s \<longleftrightarrow> (graph_small (st_graph s) \<longrightarrow>
     in_sync (st_db s) (st_graph s) \<and> fold apply_update us (graph_lists (st_graph s)) = v)"

text \<open>The graph is never ahead of the database.\<close>

definition recoverable :: "stores \<Rightarrow> bool" where
  "recoverable s \<longleftrightarrow> (graph_small (st_graph s) \<longrightarrow> (\<exists>us. in_step us (st_db s) (st_graph s)))"

definition loop_inv :: "'c lru_ops \<Rightarrow> lists \<Rightarrow> 'c loop_state \<Rightarrow> bool" where
  "loop_inv ops v st \<longleftrightarrow>
     owes v (batch st) (stores st) \<and> list_kinds (batch st) \<and> length (batch st) < batch_size \<and>
     (\<forall>k s. fst (lru_get ops (seen st) k) = Some s \<longrightarrow> covers v k s \<and> (snd k = 3 \<or> snd k = mute_kind))"

lemma persist_small:
  "persist_and_apply a us db g = (r, db', g') \<Longrightarrow> graph_small g' \<Longrightarrow> graph_small g"
proof -
  have "graph_small h" if "graph_small (fold apply_to_graph vs h)" for vs h
    using that by (induction vs arbitrary: h) (auto dest: apply_to_graph_small)
  then show "persist_and_apply a us db g = (r, db', g') \<Longrightarrow> graph_small g' \<Longrightarrow> graph_small g"
    by (auto simp: persist_and_apply_def Let_def split: prod.splits result.splits)
qed

lemma flush_attempts_small:
  "flush_attempts att ns us s = (r, s') \<Longrightarrow> graph_small (st_graph s') \<Longrightarrow> graph_small (st_graph s)"
proof (induction ns arbitrary: s)
  case (Cons n ns)
  obtain x db g where p: "persist_and_apply (att n) us (st_db s) (st_graph s) = (x, db, g)" by (metis prod.exhaust)
  have "graph_small (st_graph s) \<or> graph_small g"
    using Cons.prems p Cons.IH
    by (cases x) (fastforce simp: Let_def split: if_splits)+
  then show ?case using persist_small [OF p] by blast
qed simp

lemma flush_owes:
  assumes o: "owes v us s" and kinds: "list_kinds us" and att: "\<forall>n. attempt_ok (att n)"
  shows "case flush att us s of (Ok _, b, s') \<Rightarrow> b = [] \<and> owes v [] s' | (Err _, b, s') \<Rightarrow> recoverable s'"
proof (cases "flush att us s")
  case (fields r b s')
  have b: "b = []" using fields by (auto simp: flush_def split: if_splits prod.splits)
  have small: "graph_small (st_graph s') \<Longrightarrow> graph_small (st_graph s)"
    using fields by (auto simp: flush_def split: if_splits prod.splits dest: flush_attempts_small)
  then have sync: "graph_small (st_graph s') \<Longrightarrow> in_sync (st_db s) (st_graph s)"
    and v: "graph_small (st_graph s') \<Longrightarrow> fold apply_update us (graph_lists (st_graph s)) = v"
    using o by (simp_all add: owes_def)
  show ?thesis
  proof (cases r)
    case (Ok x)
    have "owes v [] s'"
      unfolding owes_def using flush_ok [OF sync kinds att] v fields Ok by auto
    then show ?thesis using fields Ok b by simp
  next
    case (Err e)
    have "recoverable s'"
      unfolding recoverable_def using flush_ok [OF sync kinds att] fields Err by auto
    then show ?thesis using fields Err by simp
  qed
qed

lemma set_status_stores [simp]:
  "st_db (set_status f s) = st_db s" "st_graph (set_status f s) = st_graph s"
  by (simp_all add: set_status_def)

lemma owes_status [simp]: "owes v us (set_status f s) = owes v us s" "recoverable (set_status f s) = recoverable s"
  by (simp_all add: owes_def recoverable_def)

lemma owes_recoverable: "owes v [] s \<Longrightarrow> recoverable s"
  unfolding owes_def recoverable_def using in_sync_step by blast

lemma list_kinds_append [simp]: "list_kinds (us @ vs) \<longleftrightarrow> list_kinds us \<and> list_kinds vs"
  by (auto simp: list_kinds_def)

lemma far_future:
  assumes "0 \<le> now" "now + 600 < 2 ^ 63" "\<not> word_of_int now + 600 < t"
  shows "uint (t :: u64) < 2 ^ 63"
proof -
  have "uint (word_of_int now + 600 :: u64) = now + 600"
  proof -
    have "(word_of_int now + 600 :: u64) = word_of_int (now + 600)" by simp
    also have "uint \<dots> = now + 600" using assms(1,2) by (subst uint_word_of_int) (simp add: take_bit_int_eq_self)
    finally show ?thesis .
  qed
  moreover have "uint t \<le> uint (word_of_int now + 600 :: u64)"
    using assms(3) by (simp add: word_less_def not_less)
  ultimately show ?thesis using assms(2) by linarith
qed

text \<open>What a handler leaves: the invariant, or a recoverable failure.\<close>

definition handled :: "'c lru_ops \<Rightarrow> lists \<Rightarrow> 'c loop_outcome \<Rightarrow> bool" where
  "handled ops v r =
     (case r of Continue st \<Rightarrow> loop_inv ops v st | Break st \<Rightarrow> loop_inv ops v st
      | Fail e st \<Rightarrow> recoverable (stores st))"

lemma flush_then_handled:
  assumes "owes v (batch st) (stores st)" "list_kinds (batch st)" "\<forall>n. attempt_ok (att n)"
    and k: "\<And>s'. owes v [] s' \<Longrightarrow> handled ops v (k (st\<lparr>batch := [], stores := s'\<rparr>))"
  shows "handled ops v (flush_then att st k)"
proof (cases "flush att (batch st) (stores st)")
  case (fields r b s')
  then show ?thesis
    using flush_owes [OF assms(1-3)] k by (cases r) (simp_all add: flush_then_def handled_def)
qed

lemma loop_inv_flushed:
  assumes "\<And>k s. fst (lru_get ops (seen st) k) = Some s \<Longrightarrow> covers v k s \<and> (snd k = 3 \<or> snd k = mute_kind)" "owes v [] s'"
  shows "loop_inv ops v (st\<lparr>batch := [], stores := s'\<rparr>)"
  using assms by (simp add: loop_inv_def list_kinds_def batch_size_def)

lemma receive_event_handled:
  assumes ops: "lru_ok ops" and inv: "loop_inv ops v st"
    and now: "0 \<le> now" "now + 600 < 2 ^ 63" and att: "\<forall>n. attempt_ok (att n)"
  shows "handled ops (fold apply_update (event_updates e now) v) (receive_event ops e now att st)"
proof (cases "(ev_kind e \<noteq> 3 \<and> ev_kind e \<noteq> mute_kind) \<or> word_of_int now + 600 < ev_created_at e")
  case True
  then have "receive_event ops e now att st = Continue st" "event_updates e now = []"
    by (auto simp: receive_event_def event_updates_def process_event_def)
  then show ?thesis using inv by (simp add: handled_def)
next
  case False
  then obtain u where u: "process_event e = Some u" by (simp add: process_event_def)
  note f = process_event_fields [OF u]
  have eu: "event_updates e now = [u]" using False u by (simp add: event_updates_def)
  have t: "uint (ev_created_at e) < 2 ^ 63" using far_future [OF now] False by blast
  let ?key = "(ev_pubkey e, ev_kind e)"
  obtain entry c where get: "lru_get ops (seen st) ?key = (entry, c)" by fastforce
  let ?s1 = "set_status (\<lambda>s. s\<lparr>last_event_received_at := now\<rparr>) (stores st)"
  let ?st2 = "st\<lparr>stores := ?s1, seen := c\<rparr>"
  have seen: "fst (lru_get ops (seen st) k) = Some s \<Longrightarrow> covers v k s \<and> (snd k = 3 \<or> snd k = mute_kind)" for k s
    using inv unfolding loop_inv_def by blast
  have old: "covers v k s \<and> (snd k = 3 \<or> snd k = mute_kind)" if "fst (lru_get ops c k) = Some s" for k s
    using ops that get seen unfolding lru_ok_def by (metis snd_conv)
  show ?thesis
  proof (cases "case entry of Some s \<Rightarrow> dominates s e | None \<Rightarrow> False")
    case True
    then obtain s where s: "entry = Some s" "dominates s e" by (auto split: option.splits)
    have "covers v ?key s" using seen [of ?key s] get s by simp
    then have "apply_update u v = v" using covers_dominated s(2) u by blast
    moreover have "receive_event ops e now att st = Continue ?st2"
      using False get s by (auto simp: receive_event_def Let_def)
    ultimately show ?thesis
      using inv old by (simp add: handled_def eu loop_inv_def)
  next
    case new: False
    let ?v = "apply_update u v"
    let ?c = "lru_put ops c ?key \<lparr>seen_created_at = ev_created_at e, seen_id = ev_id e\<rparr>"
    let ?st3 = "st\<lparr>stores := ?s1, seen := ?c, batch := batch st @ [u]\<rparr>"
    have run: "receive_event ops e now att st =
        (if batch_size \<le> length (batch ?st3) then flush_then att ?st3 Continue else Continue ?st3)"
      using False get new u by (auto simp: receive_event_def Let_def)
    have cov: "covers ?v k s \<and> (snd k = 3 \<or> snd k = mute_kind)" if "fst (lru_get ops ?c k) = Some s" for k s
    proof -
      have "(k = ?key \<and> s = \<lparr>seen_created_at = ev_created_at e, seen_id = ev_id e\<rparr>) \<or> fst (lru_get ops c k) = Some s"
        using ops that unfolding lru_ok_def by blast
      then show ?thesis
        using covers_own [OF u t, of v] old [of k s] covers_apply [of v k s u] f(1,3) by (elim disjE) auto
    qed
    have owes: "owes ?v (batch ?st3) (stores ?st3)" and kinds: "list_kinds (batch ?st3)"
      using inv f(3) by (auto simp: loop_inv_def owes_def list_kinds_def)
    show ?thesis
    proof (cases "batch_size \<le> length (batch ?st3)")
      case True
      have "handled ops ?v (flush_then att ?st3 Continue)"
      proof (rule flush_then_handled [OF owes kinds att])
        fix s' assume "owes ?v [] s'"
        then have "loop_inv ops ?v (?st3\<lparr>batch := [], stores := s'\<rparr>)"
          using cov by (intro loop_inv_flushed) auto
        then show "handled ops ?v (Continue (?st3\<lparr>batch := [], stores := s'\<rparr>))"
          by (simp add: handled_def)
      qed
      then show ?thesis unfolding run using True by (simp add: eu)
    next
      case False
      then have "loop_inv ops ?v ?st3" using owes kinds cov by (simp add: loop_inv_def)
      then show ?thesis unfolding run using False by (simp add: eu handled_def)
    qed
  qed
qed

theorem run_step_handled:
  assumes ops: "lru_ok ops" and inv: "loop_inv ops v st" and sane: "input_sane i"
  shows "handled ops (fold apply_update (input_updates i) v) (run_step ops i st) \<and>
    ((\<exists>st'. run_step ops i st = Break st') \<longrightarrow> stops i) \<and> (stops i \<longrightarrow> run_step ops i st = Break st)"
proof (cases i)
  case (ShutdownChanged x1 x2)
  then show ?thesis using inv by (auto simp: run_step_def input_updates_def stops_def handled_def)
next
  case (TimerTick att)
  have no_break: "flush_then att st Continue \<noteq> Break st'" for st'
    by (simp add: flush_then_def split: prod.split result.split)
  have "handled ops v (flush_then att st Continue)"
    by (rule flush_then_handled)
      (use inv sane TimerTick loop_inv_flushed [of ops st v] in \<open>auto simp: loop_inv_def input_sane_def handled_def\<close>)
  then show ?thesis using TimerTick no_break by (simp add: run_step_def input_updates_def stops_def)
next
  case (EventReceived e now att)
  have no_break: "receive_event ops e now att st \<noteq> Break st'" for st'
    by (auto simp: receive_event_def Let_def flush_then_def split: prod.splits result.splits option.splits if_splits)
  have "handled ops (fold apply_update (event_updates e now) v) (receive_event ops e now att st)"
    using sane EventReceived by (intro receive_event_handled [OF ops inv]) (simp_all add: input_sane_def)
  then show ?thesis using EventReceived no_break by (simp add: run_step_def input_updates_def stops_def)
next
  case OtherNotification
  then show ?thesis using inv by (simp add: run_step_def input_updates_def stops_def handled_def)
next
  case (Lagged n att restarted)
  let ?st = "st\<lparr>stores := set_status (\<lambda>s. s\<lparr>lagged_notifications := lagged_notifications s + n\<rparr>) (stores st)\<rparr>"
  let ?k = "\<lambda>st2. let st3 = st2\<lparr>seen := lru_clear ops (seen st2)\<rparr> in if restarted then Continue st3 else Fail ClientFailed st3"
  have no_break: "flush_then att ?st ?k \<noteq> Break st'" for st'
    by (simp add: flush_then_def Let_def split: prod.split result.split)
  have "handled ops v (flush_then att ?st ?k)"
  proof (rule flush_then_handled)
    fix s' assume o: "owes v [] s'"
    have "fst (lru_get ops (lru_clear ops (seen st)) k) = None" for k using ops unfolding lru_ok_def by blast
    then show "handled ops v (?k (?st\<lparr>batch := [], stores := s'\<rparr>))"
      using o owes_recoverable [OF o] by (simp add: handled_def Let_def loop_inv_def list_kinds_def batch_size_def)
  qed (use inv sane Lagged in \<open>simp_all add: loop_inv_def input_sane_def\<close>)
  then show ?thesis using Lagged no_break by (simp add: run_step_def input_updates_def stops_def)
next
  case (NotificationsClosed att)
  have no_break: "flush_then att st (\<lambda>st1. Fail ChannelClosed st1) \<noteq> Break st'" for st'
    by (simp add: flush_then_def split: prod.split result.split)
  have "handled ops v (flush_then att st (\<lambda>st1. Fail ChannelClosed st1))"
    by (rule flush_then_handled)
      (use inv sane NotificationsClosed owes_recoverable in \<open>auto simp: loop_inv_def input_sane_def handled_def\<close>)
  then show ?thesis using NotificationsClosed no_break by (simp add: run_step_def input_updates_def stops_def)
qed

section \<open>A whole run\<close>

text \<open>The updates received before the service was told to stop.\<close>

definition received_updates :: "loop_input list \<Rightarrow> list_update list" where
  "received_updates is = concat (map input_updates (takeWhile (\<lambda>i. \<not> stops i) is))"

lemma run_loop_handled:
  "lru_ok ops \<Longrightarrow> loop_inv ops v st \<Longrightarrow> \<forall>i \<in> set is. input_sane i \<Longrightarrow>
     handled ops (fold apply_update (received_updates is) v) (run_loop ops is st)"
proof (induction "is" arbitrary: v st)
  case Nil
  then show ?case by (simp add: handled_def received_updates_def)
next
  case (Cons i "is")
  note step = run_step_handled [OF Cons.prems(1,2), of i]
  show ?case
  proof (cases "stops i")
    case True
    then show ?thesis using step Cons.prems by (simp add: received_updates_def handled_def)
  next
    case False
    let ?v = "fold apply_update (input_updates i) v"
    have r: "fold apply_update (received_updates (i # is)) v = fold apply_update (received_updates is) ?v"
      using False by (simp add: received_updates_def)
    show ?thesis
    proof (cases "run_step ops i st")
      case (Continue st1)
      then have "loop_inv ops ?v st1" using step Cons.prems(3) by (simp add: handled_def)
      then show ?thesis using Cons.IH [of ?v st1] Cons.prems Continue r by simp
    next
      case (Break st1)
      then show ?thesis using step Cons.prems(3) False by simp
    next
      case (Fail e st1)
      then show ?thesis using step Cons.prems(3) by (simp add: handled_def)
    qed
  qed
qed

theorem run_ingestion_ok:
  assumes ops: "lru_ok ops" and sync: "in_sync (st_db s) (st_graph s)"
    and sane: "\<forall>i \<in> set is. input_sane i" "\<forall>n. attempt_ok (att n)"
    and run: "run_ingestion ops urls connected is att disconnected s = Some (r, s')" and small: "graph_small (st_graph s')"
  shows "(\<exists>us. in_step us (st_db s') (st_graph s')) \<and>
    (is_ok r \<longrightarrow> in_sync (st_db s') (st_graph s') \<and>
      graph_lists (st_graph s') = fold apply_update (received_updates is) (graph_lists (st_graph s)))"
proof (cases "urls = [] \<or> \<not> connected")
  case True
  then have "s' = s" "\<not> is_ok r" using run by (auto simp: run_ingestion_def split: if_splits)
  then show ?thesis using in_sync_step [OF sync] by blast
next
  case False
  let ?st = "\<lparr>seen = lru_new ops, batch = [], stores = set_status (\<lambda>s. s\<lparr>running := True\<rparr>) s\<rparr>"
  let ?v = "graph_lists (st_graph s)" and ?fin = "fold apply_update (received_updates is) (graph_lists (st_graph s))"
  have "loop_inv ops ?v ?st"
    using ops sync by (simp add: loop_inv_def owes_def list_kinds_def batch_size_def lru_ok_def)
  from run_loop_handled [OF ops this sane(1)] have h: "handled ops ?fin (run_loop ops is ?st)" .
  show ?thesis
  proof (cases "run_loop ops is ?st")
    case (Continue st)
    then show ?thesis using run False by (simp add: run_ingestion_def Let_def)
  next
    case (Fail e st)
    then have "s' = stores st" "\<not> is_ok r" "recoverable (stores st)"
      using run False h by (auto simp: run_ingestion_def Let_def handled_def)
    then show ?thesis using small by (simp add: recoverable_def)
  next
    case (Break st)
    then have inv: "owes ?fin (batch st) (stores st)" "list_kinds (batch st)" using h by (simp_all add: handled_def loop_inv_def)
    obtain x b s2 where fl: "flush att (batch st) (stores st) = (x, b, s2)" by (metis prod.exhaust)
    note f = flush_owes [OF inv sane(2)]
    have s': "s' = s2" and "is_ok r \<Longrightarrow> is_ok x"
      using run False Break fl by (auto simp: run_ingestion_def Let_def split: result.splits)
    show ?thesis
    proof (cases x)
      case (Ok u)
      then have "owes ?fin [] s2" using f fl by simp
      then have "in_sync (st_db s2) (st_graph s2) \<and> graph_lists (st_graph s2) = ?fin"
        using small s' by (simp add: owes_def)
      then show ?thesis using s' in_sync_step by blast
    next
      case (Err e)
      then show ?thesis using f fl s' small \<open>is_ok r \<Longrightarrow> is_ok x\<close> by (auto simp: recoverable_def)
    qed
  qed
qed

text \<open>A pending batch only makes lists of the database newer than the graph's.\<close>

lemma in_step_newer:
  assumes "in_step us db g"
  shows "stored False db a = follow_cell g a \<or> accepts (fst (follow_cell g a)) (db_meta False db a)"
    "db_mute_cell db = mute_cell g"
proof -
  let ?F = "fold (put_update set) (of_kind False us) (follow_cell g) a"
  have s: "stored False db a = follow_cell g a \<or> stored False db a = ?F" and mutes: "db_mute_cell db = mute_cell g"
    using assms by (auto simp: in_step_def db_lists_def graph_lists_def)
  have "?F = follow_cell g a \<or> accepts (fst (follow_cell g a)) (fst ?F)"
    by (auto simp: fold_put_at fold_pick_best pick_update_def split: option.split)
  then have "?F = follow_cell g a \<or> (stored False db a = ?F \<longrightarrow> accepts (fst (follow_cell g a)) (db_meta False db a))"
    by (metis stored_def fst_conv)
  then show "stored False db a = follow_cell g a \<or> accepts (fst (follow_cell g a)) (db_meta False db a)"
    using s by metis
  show "db_mute_cell db = mute_cell g" by (rule mutes)
qed

section \<open>The order of delivery\<close>

text \<open>The lists themselves are a store of replaceable lists, so the lists a run leaves depend on
  the set of received updates only.\<close>

definition cell_put :: "(string list \<Rightarrow> 'c) \<Rightarrow> string \<Rightarrow> meta \<Rightarrow> string list \<Rightarrow> (string \<Rightarrow> meta \<times> 'c) \<Rightarrow> string \<Rightarrow> meta \<times> 'c" where
  "cell_put wrap k m l c = (if accepts (fst (c k)) m then c(k := (m, wrap l)) else c)"

interpretation follow_rows: lww_store "\<lambda>_. True" "\<lambda>_. True" "cell_put set" "\<lambda>c. c" set
  by unfold_locales (auto simp: cell_put_def)

interpretation mute_rows: lww_store "\<lambda>_. True" "\<lambda>_. True" "cell_put known_set" "\<lambda>c. c" known_set
  by unfold_locales (auto simp: cell_put_def)

definition events_of :: "bool \<Rightarrow> list_update list \<Rightarrow> list_event list" where
  "events_of mute us = map (\<lambda>u. (lu_pubkey u, Version (lu_created_at u) (lu_event_id u), lu_follows u))
     (filter (\<lambda>u. (lu_kind u = mute_kind) = mute) us)"

lemma put_update_cell:
  "put_update wrap (batch_item u) c = cell_put wrap (lu_pubkey u) (meta_of (Version (lu_created_at u) (lu_event_id u))) (lu_follows u) c"
  by (auto simp: put_update_def pick_update_def cell_put_def batch_item_def update_meta_def meta_of_def)

lemma fold_put_events:
  "fold (put_update set) (of_kind False us) c = follow_rows.apply_events (events_of False us) c"
  "fold (put_update known_set) (of_kind True us) c' = mute_rows.apply_events (events_of True us) c'"
  by (induction us arbitrary: c c') (auto simp: of_kind_def events_of_def put_update_cell)

definition one_list_per_event :: "list_update set \<Rightarrow> bool" where
  "one_list_per_event U \<longleftrightarrow> (\<forall>u \<in> U. \<forall>v \<in> U. lu_kind u = lu_kind v \<longrightarrow> lu_pubkey u = lu_pubkey v \<longrightarrow>
     lu_event_id u = lu_event_id v \<longrightarrow> set (lu_follows u) = set (lu_follows v))"

lemma set_events_of: "set us = set us' \<Longrightarrow> set (events_of mute us) = set (events_of mute us')"
  by (simp add: events_of_def)

lemma kinds_eq:
  assumes "list_kinds us" "u \<in> set us" "w \<in> set us" "(lu_kind u = mute_kind) = (lu_kind w = mute_kind)"
  shows "lu_kind u = lu_kind w"
  using assms unfolding list_kinds_def by metis

lemma events_one_list:
  assumes "one_list_per_event (set us)" "list_kinds us"
    and "(k, v, l) \<in> set (events_of mute us)" "(k, v, l') \<in> set (events_of mute us)"
  shows "set l = set l'"
proof -
  obtain u w where u: "u \<in> set us" "w \<in> set us" "(lu_kind u = mute_kind) = mute" "(lu_kind w = mute_kind) = mute"
    "lu_pubkey u = k" "lu_pubkey w = k" "lu_event_id u = ver_id v" "lu_event_id w = ver_id v"
    "lu_follows u = l" "lu_follows w = l'"
    using assms(3,4) by (auto simp: events_of_def)
  have "lu_kind u = lu_kind w" using u by (intro kinds_eq [OF assms(2)]) simp_all
  then show ?thesis using assms(1) u unfolding one_list_per_event_def by metis
qed

theorem updates_order_irrelevant:
  assumes "set us = set us'" "one_list_per_event (set us)" "list_kinds us"
  shows "fold apply_update us v = fold apply_update us' v"
proof -
  have "follow_rows.one_list_per_version (set (events_of False us))"
    "mute_rows.one_list_per_version (set (events_of True us))"
    unfolding follow_rows.one_list_per_version_def mute_rows.one_list_per_version_def
    using events_one_list [OF assms(2,3)] by blast+
  then have "follow_rows.apply_events (events_of False us) (fst v) k = follow_rows.apply_events (events_of False us') (fst v) k"
    "mute_rows.apply_events (events_of True us) (snd v) k = mute_rows.apply_events (events_of True us') (snd v) k" for k
    using follow_rows.apply_order_irrelevant [where s = "fst v" and es = "events_of False us" and es' = "events_of False us'" and k = k]
      mute_rows.apply_order_irrelevant [where s = "snd v" and es = "events_of True us" and es' = "events_of True us'" and k = k]
      set_events_of [OF assms(1)] by simp_all
  then show ?thesis by (simp add: fold_apply fold_put_events fun_eq_iff)
qed

lemma received_kinds: "list_kinds (received_updates is)"
proof -
  have "list_kinds (input_updates i)" for i
    by (auto simp: input_updates_def event_updates_def list_kinds_def split: loop_input.split option.splits
        dest!: process_event_fields(3) [OF sym])
  then show ?thesis by (auto simp: received_updates_def list_kinds_def)
qed

section \<open>Parsing\<close>

definition hex_key :: "string \<Rightarrow> bool" where
  "hex_key s \<longleftrightarrow> length s = 64 \<and> list_all (\<lambda>c. is_hexdigit c \<and> to_lower c = c) s"

lemma char_below: "n < 256 \<Longrightarrow> of_char (char_of n :: char) = (n :: nat)"
  by simp

lemma to_lower_hex: "is_hexdigit c \<Longrightarrow> is_hexdigit (to_lower c) \<and> to_lower (to_lower c) = to_lower c"
  by (auto simp: is_hexdigit_def to_lower_def Let_def)

lemma p_tag_hex: "p_tag values = Some pk \<Longrightarrow> hex_key pk"
  by (auto simp: p_tag_def hex_key_def Let_def to_lower_hex list_all_iff split: if_splits)

lemma sorted_remdups_adj_strict: "sorted (xs :: string list) \<Longrightarrow> sorted_wrt (<) (remdups_adj xs)"
proof (induction xs rule: remdups_adj.induct)
  case (3 x y xs)
  show ?case
  proof (cases "x = y")
    case False
    then have "\<forall>z \<in> set (remdups_adj (y # xs)). x < z"
      using "3.prems" by (auto simp: le_less)
    then show ?thesis using 3 False by simp
  qed (use 3 in simp)
qed simp_all

lemma process_event_lists:
  assumes "process_event e = Some u"
  shows "sorted_wrt (<) (lu_follows u)" "list_all hex_key (lu_follows u)"
    "set (lu_follows u) = {pk. \<exists>values \<in> set (ev_tags e). p_tag values = Some pk}"
proof -
  have l: "lu_follows u = remdups_adj (sort (List.map_filter p_tag (ev_tags e)))"
    using assms by (auto simp: process_event_def split: if_splits)
  show "sorted_wrt (<) (lu_follows u)" unfolding l by (rule sorted_remdups_adj_strict) simp
  show set: "set (lu_follows u) = {pk. \<exists>values \<in> set (ev_tags e). p_tag values = Some pk}"
    by (force simp: l List.map_filter_def)
  show "list_all hex_key (lu_follows u)" using p_tag_hex by (auto simp: list_all_iff set)
qed

end
