(* ===== verification/IngestionLive.thy ===== *)
theory IngestionLive
  imports IngestionLoop
begin

text \<open>
  Progress of the ingestion: a request to shut down is answered, and where each flush meets at
  least one fault-free attempt among its three the service ends well, with everything it received
  in both stores.
\<close>

section \<open>Inputs that recover\<close>

definition recovers :: "(nat \<Rightarrow> attempt) \<Rightarrow> bool" where
  "recovers att \<longleftrightarrow> (\<exists>k<3. \<not> attempt_faulty (att k) \<and> (\<forall>j\<le>k. \<not> task_lost (att j)))"

definition benign :: "loop_input \<Rightarrow> bool" where
  "benign i =
     (case i of
        TimerTick att \<Rightarrow> recovers att
      | EventReceived _ _ att \<Rightarrow> recovers att
      | Lagged _ att restarted \<Rightarrow> recovers att \<and> restarted
      | NotificationsClosed _ \<Rightarrow> False
      | _ \<Rightarrow> True)"

lemma flush_recovers:
  assumes o: "owes v us s" and kinds: "list_kinds us" and att: "\<forall>n. attempt_ok (att n)" "recovers att"
    and fl: "flush att us s = (Err e, b, s')"
  shows "\<not> graph_small (st_graph s')"
proof
  assume small': "graph_small (st_graph s')"
  have us: "us \<noteq> []" and run: "flush_attempts att [0..<3] us s = (Err e, s')"
    using fl by (auto simp: flush_def split: if_splits prod.splits)
  have "graph_small (st_graph s)" using flush_attempts_small [OF run small'] .
  then have "in_step us (st_db s) (st_graph s)" using o in_sync_step by (simp add: owes_def)
  moreover obtain k where "k < 3" "\<not> attempt_faulty (att k)" "\<forall>j\<le>k. \<not> task_lost (att j)"
    using att(2) unfolding recovers_def by blast
  ultimately have "is_ok (fst (flush_attempts att [0..<3] us s))"
    using flush_attempts_succeed [OF _ kinds att(1), of s 0 k] by simp
  then show False by (simp add: run)
qed

lemma flush_then_recovers:
  assumes "owes v (batch st) (stores st)" "list_kinds (batch st)" "\<forall>n. attempt_ok (att n)" "recovers att"
    and "flush_then att st k = Fail e st'" and "\<And>st1. k st1 \<noteq> Fail e st'"
  shows "\<not> graph_small (st_graph (stores st'))"
  using assms(5,6) flush_recovers [OF assms(1-4)]
  by (auto simp: flush_then_def split: prod.splits result.splits)

lemma receive_event_recovers:
  assumes ops: "lru_ok ops" and inv: "loop_inv ops v st" and sane: "input_sane (EventReceived e now att)" and att: "recovers att"
    and run: "receive_event ops e now att st = Fail err st'"
  shows "\<not> graph_small (st_graph (stores st'))"
proof -
  have i: "owes v (batch st) (stores st)" "list_kinds (batch st)" using inv by (simp_all add: loop_inv_def)
  obtain u st3 where st3: "process_event e = Some u" "flush_then att st3 Continue = Fail err st'"
    "batch st3 = batch st @ [u]" "stores st3 = set_status (\<lambda>s. s\<lparr>last_event_received_at := now\<rparr>) (stores st)"
    using run by (auto simp: receive_event_def Let_def split: if_splits prod.splits option.splits)
  have "owes (apply_update u v) (batch st3) (stores st3)"
    using i(1) st3(3,4) by (simp add: owes_def)
  moreover have "list_kinds (batch st3)"
    using i(2) st3(3) process_event_fields(3) [OF st3(1)] by (simp add: list_kinds_def)
  moreover have "\<forall>n. attempt_ok (att n)" using sane by (simp add: input_sane_def)
  ultimately show ?thesis using flush_then_recovers [OF _ _ _ att st3(2)] by blast
qed

lemma run_step_recovers:
  assumes ops: "lru_ok ops" and inv: "loop_inv ops v st" and sane: "input_sane i" and ben: "benign i"
    and run: "run_step ops i st = Fail e st'"
  shows "\<not> graph_small (st_graph (stores st'))"
proof -
  have i: "owes v (batch st) (stores st)" "list_kinds (batch st)" using inv by (simp_all add: loop_inv_def)
  show ?thesis
  proof (cases i)
    case (TimerTick att)
    then show ?thesis using run sane ben flush_then_recovers [OF i, of att Continue e st']
      by (simp add: run_step_def input_sane_def benign_def)
  next
    case (EventReceived ev now att)
    then show ?thesis using run sane ben receive_event_recovers [OF ops inv] by (simp add: run_step_def benign_def)
  next
    case (Lagged skipped att restarted)
    let ?st = "st\<lparr>stores := set_status (\<lambda>s. s\<lparr>lagged_notifications := lagged_notifications s + skipped\<rparr>) (stores st)\<rparr>"
    show ?thesis
      by (rule flush_then_recovers [of v ?st att _ e st'])
        (use Lagged i run sane ben in \<open>auto simp: run_step_def input_sane_def benign_def Let_def\<close>)
  qed (use run ben in \<open>auto simp: run_step_def benign_def split: if_splits\<close>)
qed

lemma run_loop_recovers:
  "lru_ok ops \<Longrightarrow> loop_inv ops v st \<Longrightarrow> \<forall>i \<in> set is. input_sane i \<and> benign i \<Longrightarrow> run_loop ops is st = Fail e st' \<Longrightarrow>
     \<not> graph_small (st_graph (stores st'))"
proof (induction "is" arbitrary: v st)
  case (Cons i "is")
  note step = run_step_handled [OF Cons.prems(1,2), of i]
  show ?case
  proof (cases "run_step ops i st")
    case (Continue st1)
    then have "loop_inv ops (fold apply_update (input_updates i) v) st1" using step Cons.prems(3) by (simp add: handled_def)
    then show ?thesis using Cons Continue by simp
  next
    case (Fail e1 st1)
    then have "run_step ops i st = Fail e st'" using Cons.prems(4) by simp
    then show ?thesis using Cons.prems(3) by (intro run_step_recovers [OF Cons.prems(1,2)]) auto
  qed (use Cons.prems in simp)
qed simp

section \<open>A request to shut down\<close>

lemma run_step_stops: "stops i \<Longrightarrow> run_step ops i st = Break st"
  by (auto simp: stops_def run_step_def split: loop_input.splits)

lemma run_loop_stops: "\<exists>i \<in> set is. stops i \<Longrightarrow> run_loop ops is st \<noteq> Continue st'"
  by (induction "is" arbitrary: st) (auto simp: run_step_stops split: loop_outcome.split)

lemma start_returns:
  assumes "\<exists>i \<in> set is. stops i"
  shows "\<exists>r s'. start_ingestion ops urls connected is att disconnected s = Some (r, s')"
  using run_loop_stops [OF assms]
  by (auto simp: start_ingestion_def run_ingestion_def Let_def split: loop_outcome.split prod.split result.split)

lemma start_ingestion_run:
  assumes "start_ingestion ops urls connected is att disconnected s = Some (r, s')"
  obtains s1 where "run_ingestion ops urls connected is att disconnected s = Some (r, s1)"
    "st_db s' = st_db s1" "st_graph s' = st_graph s1" "\<not> running (st_status s')" "\<not> is_ok r \<longrightarrow> failed (st_status s')"
  using assms that by (auto simp: start_ingestion_def Let_def set_status_def split: option.splits if_splits)

theorem run_ingestion_recovers:
  assumes ops: "lru_ok ops" and sync: "in_sync (st_db s) (st_graph s)"
    and inputs: "\<forall>i \<in> set is. input_sane i \<and> benign i" and att: "\<forall>n. attempt_ok (att n)" "recovers att"
    and start: "urls \<noteq> []" "connected" "disconnected"
    and run: "run_ingestion ops urls connected is att disconnected s = Some (r, s')" and small: "graph_small (st_graph s')"
  shows "is_ok r"
proof -
  let ?st = "\<lparr>seen = lru_new ops, batch = [], stores = set_status (\<lambda>s. s\<lparr>running := True\<rparr>) s\<rparr>"
  let ?v = "graph_lists (st_graph s)" and ?fin = "fold apply_update (received_updates is) (graph_lists (st_graph s))"
  have inv: "loop_inv ops ?v ?st"
    using ops sync by (simp add: loop_inv_def owes_def list_kinds_def batch_size_def lru_ok_def)
  have h: "handled ops ?fin (run_loop ops is ?st)"
    using run_loop_handled [OF ops inv] inputs by blast
  show ?thesis
  proof (cases "run_loop ops is ?st")
    case (Continue st)
    then show ?thesis using run start by (simp add: run_ingestion_def Let_def)
  next
    case (Fail e st)
    then have "s' = stores st" using run start by (simp add: run_ingestion_def Let_def)
    then show ?thesis using run_loop_recovers [OF ops inv inputs Fail] small by simp
  next
    case (Break st)
    then have i: "owes ?fin (batch st) (stores st)" "list_kinds (batch st)" using h by (simp_all add: handled_def loop_inv_def)
    obtain x b s2 where fl: "flush att (batch st) (stores st) = (x, b, s2)" by (metis prod.exhaust)
    have "s' = s2" "is_ok x \<longrightarrow> is_ok r"
      using run start Break fl by (auto simp: run_ingestion_def Let_def split: result.splits)
    then show ?thesis using flush_recovers [OF i att] fl small by (cases x) auto
  qed
qed

end
