(* ===== verification/DatabaseOpen.thy ===== *)
theory DatabaseOpen
  imports DatabaseSpec
begin

text \<open>
  Opening the database (\<open>Database::open\<close> and \<open>init_schema\<close> of \<open>db/sqlite.rs\<close>). A file holds the
  tables and the indexes that earlier versions of the program have created, and the rows of the
  tables there are; a table that exists has the columns of the schema. The statements run one after
  another, each committed on its own, so a failure keeps what the statements before it did.
\<close>

section \<open>Files and the schema\<close>

datatype db_table = NodesTable | EdgesTable | MuteListsTable | MuteEdgesTable | SyncStateTable

record db_file =
  file_tables :: "db_table list"
  file_indexes :: "string list"
  file_rows :: database

text \<open>A file that does not exist yet is created empty.\<close>

definition empty_file :: db_file where
  "empty_file = \<lparr>file_tables = [], file_indexes = [], file_rows = database_new\<rparr>"

datatype schema_stmt =
    CreateTable db_table
  | CreateIndex string db_table
  | DropIndex string
  | Pragma string

text \<open>\<open>IF NOT EXISTS\<close> and \<open>IF EXISTS\<close> make a statement a success without effect; an index needs its table.\<close>

fun schema_step :: "schema_stmt \<Rightarrow> db_file \<Rightarrow> (db_file, db_error) result" where
  "schema_step (CreateTable t) f =
     Ok (if t \<in> set (file_tables f) then f else f\<lparr>file_tables := file_tables f @ [t]\<rparr>)"
| "schema_step (CreateIndex i t) f =
     (if i \<in> set (file_indexes f) then Ok f
      else if t \<in> set (file_tables f) then Ok (f\<lparr>file_indexes := file_indexes f @ [i]\<rparr>)
      else Err SqlFault)"
| "schema_step (DropIndex i) f = Ok (f\<lparr>file_indexes := removeAll i (file_indexes f)\<rparr>)"
| "schema_step (Pragma p) f = Ok f"

text \<open>\<open>execute_batch\<close>, from statement \<open>n\<close> of the call on.\<close>

fun run_schema :: "db_env \<Rightarrow> nat \<Rightarrow> schema_stmt list \<Rightarrow> db_file \<Rightarrow> (unit, db_error) result \<times> db_file" where
  "run_schema env n [] f = (Ok (), f)"
| "run_schema env n (st # sts) f =
     (if fails env n then (Err SqlFault, f)
      else case schema_step st f of
             Err e \<Rightarrow> (Err e, f)
           | Ok f' \<Rightarrow> run_schema env (Suc n) sts f')"

definition open_pragmas :: "schema_stmt list" where
  "open_pragmas =
     [Pragma ''journal_mode=WAL'', Pragma ''synchronous=NORMAL'', Pragma ''cache_size=-64000'',
      Pragma ''temp_store=MEMORY'', Pragma ''mmap_size=268435456'']"

definition schema :: "schema_stmt list" where
  "schema =
     [CreateTable NodesTable,
      DropIndex ''idx_nodes_pubkey'',
      CreateTable EdgesTable,
      DropIndex ''idx_edges_follower'',
      CreateIndex ''idx_edges_followed'' EdgesTable,
      CreateTable MuteListsTable,
      CreateTable MuteEdgesTable,
      CreateIndex ''idx_mute_edges_followed'' MuteEdgesTable,
      CreateTable SyncStateTable]"

definition init_schema :: "db_env \<Rightarrow> db_file \<Rightarrow> (unit, db_error) result \<times> db_file" where
  "init_schema env f = run_schema env 6 schema f"

text \<open>Point 0 is \<open>Connection::open\<close>.\<close>

definition open_database :: "db_env \<Rightarrow> db_file \<Rightarrow> (unit, db_error) result \<times> db_file" where
  "open_database env f =
     (if fails env 0 then (Err SqlFault, f)
      else case run_schema env 1 open_pragmas f of
             (Err e, f') \<Rightarrow> (Err e, f')
           | (Ok _, f') \<Rightarrow> init_schema env f')"

section \<open>What an open database has\<close>

text \<open>A table that is missing has no rows, and an index has its table.\<close>

fun table_rows :: "db_table \<Rightarrow> database \<Rightarrow> nat" where
  "table_rows NodesTable db = length (nodes db)"
| "table_rows EdgesTable db = length (edges db)"
| "table_rows MuteListsTable db = length (mute_lists db)"
| "table_rows MuteEdgesTable db = length (mute_edges db)"
| "table_rows SyncStateTable db = length (sync_states db)"

definition file_ok :: "db_file \<Rightarrow> bool" where
  "file_ok f \<longleftrightarrow> db_wf (file_rows f) \<and> (\<forall>t. t \<notin> set (file_tables f) \<longrightarrow> table_rows t (file_rows f) = 0)"

definition schema_complete :: "db_file \<Rightarrow> bool" where
  "schema_complete f \<longleftrightarrow>
     set (file_tables f) = {NodesTable, EdgesTable, MuteListsTable, MuteEdgesTable, SyncStateTable} \<and>
     ''idx_edges_followed'' \<in> set (file_indexes f) \<and> ''idx_mute_edges_followed'' \<in> set (file_indexes f) \<and>
     ''idx_nodes_pubkey'' \<notin> set (file_indexes f) \<and> ''idx_edges_follower'' \<notin> set (file_indexes f)"

lemma file_tables_all: "set (file_tables f) \<subseteq> {NodesTable, EdgesTable, MuteListsTable, MuteEdgesTable, SyncStateTable}"
proof
  fix t
  show "t \<in> {NodesTable, EdgesTable, MuteListsTable, MuteEdgesTable, SyncStateTable}" by (cases t) simp_all
qed

lemma schema_step_keeps:
  "schema_step st f = Ok f' \<Longrightarrow> file_rows f' = file_rows f \<and> set (file_tables f) \<subseteq> set (file_tables f')"
  by (cases st) (auto split: if_splits)

lemma run_schema_keeps:
  "run_schema env n sts f = (r, f') \<Longrightarrow> file_rows f' = file_rows f \<and> set (file_tables f) \<subseteq> set (file_tables f')"
proof (induction env n sts f rule: run_schema.induct)
  case (2 env n st sts f)
  show ?case
  proof (cases "schema_step st f")
    case (Ok f1)
    then show ?thesis using 2 schema_step_keeps [OF Ok] by (force split: if_splits)
  qed (use 2 in \<open>simp split: if_splits\<close>)
qed simp

lemma open_keeps:
  "open_database env f = (r, f') \<Longrightarrow> file_rows f' = file_rows f \<and> set (file_tables f) \<subseteq> set (file_tables f')"
  by (auto simp: open_database_def init_schema_def split: if_splits prod.splits result.splits dest!: run_schema_keeps)

lemma open_file_ok: "open_database env f = (r, f') \<Longrightarrow> file_ok f \<Longrightarrow> file_ok f'"
  using open_keeps [of env f r f'] by (auto simp: file_ok_def)

lemma pragmas_same: "run_schema env n (map Pragma ps) f = (r, f') \<Longrightarrow> f' = f"
  by (induction ps arbitrary: n) (auto split: if_splits)

lemma open_pragmas_map: "\<exists>ps. open_pragmas = map Pragma ps"
  unfolding open_pragmas_def by (rule exI [of _ "[_, _, _, _, _]"]) simp

text \<open>The effect of a batch none of whose statements fails.\<close>

definition all_schema :: "schema_stmt list \<Rightarrow> db_file \<Rightarrow> (db_file, db_error) result" where
  "all_schema sts f = foldl (\<lambda>r st. case r of Err e \<Rightarrow> Err e | Ok f \<Rightarrow> schema_step st f) (Ok f) sts"

lemma run_schema_Ok:
  "run_schema env n sts f = (Ok (), f') \<Longrightarrow> all_schema sts f = Ok f'"
  unfolding all_schema_def
  by (induction env n sts f rule: run_schema.induct) (auto split: if_splits result.splits)

lemma run_schema_fails:
  "run_schema env n sts f = (Err e, f') \<Longrightarrow> all_schema sts f = Ok f1 \<Longrightarrow> \<exists>i. fails env i"
proof (induction env n sts f rule: run_schema.induct)
  case (2 env n st sts f)
  show ?case
  proof (cases "schema_step st f")
    case (Err e)
    have "foldl (\<lambda>r st. case r of Err e \<Rightarrow> Err e | Ok f \<Rightarrow> schema_step st f) (Err e) sts = Err e"
      by (induction sts) simp_all
    then show ?thesis using 2(3) Err by (simp add: all_schema_def)
  next
    case (Ok f2)
    then show ?thesis using 2 by (auto simp: all_schema_def split: if_splits)
  qed
qed simp

text \<open>What a statement does to the sets of tables and indexes, and which table it needs.\<close>

fun schema_effect :: "schema_stmt \<Rightarrow> db_table set \<times> string set \<Rightarrow> db_table set \<times> string set" where
  "schema_effect (CreateTable t) (T, I) = (insert t T, I)"
| "schema_effect (CreateIndex i t) (T, I) = (T, insert i I)"
| "schema_effect (DropIndex i) (T, I) = (T, I - {i})"
| "schema_effect (Pragma p) (T, I) = (T, I)"

fun schema_needs :: "schema_stmt list \<Rightarrow> db_table set \<Rightarrow> bool" where
  "schema_needs [] T = True"
| "schema_needs (CreateTable t # sts) T = schema_needs sts (insert t T)"
| "schema_needs (CreateIndex i t # sts) T = (t \<in> T \<and> schema_needs sts T)"
| "schema_needs (DropIndex i # sts) T = schema_needs sts T"
| "schema_needs (Pragma p # sts) T = schema_needs sts T"

definition file_shape :: "db_file \<Rightarrow> db_table set \<times> string set" where
  "file_shape f = (set (file_tables f), set (file_indexes f))"

lemma schema_step_shape:
  assumes "schema_needs (st # sts) (set (file_tables f))"
  shows "\<exists>f'. schema_step st f = Ok f' \<and> file_shape f' = schema_effect st (file_shape f) \<and>
    schema_needs sts (set (file_tables f'))"
  using assms by (cases st) (auto simp: file_shape_def insert_absorb)

lemma all_schema_shape:
  "schema_needs sts (set (file_tables f)) \<Longrightarrow>
    \<exists>f'. all_schema sts f = Ok f' \<and> file_shape f' = fold schema_effect sts (file_shape f)"
proof (induction sts arbitrary: f)
  case (Cons st sts)
  obtain f1 where f1: "schema_step st f = Ok f1" "file_shape f1 = schema_effect st (file_shape f)"
    "schema_needs sts (set (file_tables f1))"
    using schema_step_shape [OF Cons(2)] by blast
  then show ?case using Cons(1) [OF f1(3)] by (simp add: all_schema_def)
qed (simp add: all_schema_def)

lemma all_schema_complete: "\<exists>f'. all_schema schema f = Ok f' \<and> schema_complete f'"
proof -
  have "schema_needs schema (set (file_tables f))" by (simp add: schema_def)
  then obtain f' where f': "all_schema schema f = Ok f'" "file_shape f' = fold schema_effect schema (file_shape f)"
    using all_schema_shape by blast
  then have "set (file_tables f') = {NodesTable, EdgesTable, MuteListsTable, MuteEdgesTable, SyncStateTable}"
    using file_tables_all [of f] by (auto simp: file_shape_def schema_def)
  moreover have "set (file_indexes f') = {''idx_edges_followed'', ''idx_mute_edges_followed''} \<union>
      (set (file_indexes f) - {''idx_nodes_pubkey'', ''idx_edges_follower''})"
    using f'(2) by (auto simp: file_shape_def schema_def)
  ultimately show ?thesis using f'(1) by (auto simp: schema_complete_def)
qed

theorem open_database_ok:
  assumes "open_database env f = (r, f')"
  shows "file_rows f' = file_rows f \<and> (case r of Ok _ \<Rightarrow> schema_complete f' | Err _ \<Rightarrow> faulty env)"
proof -
  have rows: "file_rows f' = file_rows f" using open_keeps [OF assms] by simp
  obtain ps where ps: "open_pragmas = map Pragma ps" using open_pragmas_map by blast
  have pragmas: "all_schema open_pragmas f = Ok f" by (simp add: all_schema_def open_pragmas_def)
  obtain g where g: "all_schema schema f = Ok g" "schema_complete g" using all_schema_complete by blast
  show ?thesis
  proof (cases "fails env 0")
    case True
    then show ?thesis using assms rows by (auto simp: open_database_def faulty_def)
  next
    case False
    obtain r1 f1 where r1: "run_schema env 1 open_pragmas f = (r1, f1)" by fastforce
    have f1: "f1 = f" using pragmas_same r1 ps by metis
    show ?thesis
    proof (cases r1)
      case (Err e)
      then show ?thesis using assms rows False r1 run_schema_fails [OF r1 [unfolded Err] pragmas]
        by (auto simp: open_database_def faulty_def)
    next
      case (Ok u)
      then have run: "run_schema env 6 schema f = (r, f')" using assms False r1 f1 by (simp add: open_database_def init_schema_def)
      show ?thesis
      proof (cases r)
        case (Err e)
        then show ?thesis using rows run_schema_fails [OF run [unfolded Err] g(1)] by (auto simp: faulty_def)
      next
        case (Ok u)
        then show ?thesis using rows run_schema_Ok [of env 6 schema f f'] run g by simp
      qed
    qed
  qed
qed

text \<open>Opening a complete file again changes nothing the program relies on.\<close>

lemma open_again:
  assumes "schema_complete f" "open_database env f = (Ok (), f')"
  shows "f' = f"
proof -
  obtain ps where ps: "open_pragmas = map Pragma ps" using open_pragmas_map by blast
  have "all_schema schema f' = Ok f'" if "schema_complete f'" for f'
    using that by (simp add: schema_complete_def all_schema_def schema_def removeAll_id)
  moreover obtain f1 where "run_schema env 1 open_pragmas f = (Ok (), f1)" "run_schema env 6 schema f1 = (Ok (), f')"
    using assms(2) by (auto simp: open_database_def init_schema_def split: if_splits prod.splits result.splits)
  ultimately show ?thesis using assms(1) ps pragmas_same run_schema_Ok by (metis result.inject(1))
qed

end
