(* ===== verification/Supervisor.thy ===== *)
theory Supervisor
  imports IngestionLive OracleConfig DatabaseOpen
begin

text \<open>
  The process (\<open>main.rs\<close>): configuration, loading the database into a fresh graph, the services,
  and their supervision until the first of a signal, the HTTP server and the ingestion ends. What
  the runtime delivers is an argument: how the signal and the server end, which event comes first,
  and the inputs of the ingestion. The runtime is left out.
\<close>

section \<open>Supervision\<close>

datatype main_error =
    SignalFailed
  | ServerFailed
  | IngestionFailed ingest_error
  | OpenFailed db_error
  | LoadFailed db_error
  | JoinFailed
  | ServerTerminated
  | IngestionTerminated

text \<open>A finished task: the \<open>JoinError\<close> of a panic, or what it returned.\<close>

datatype ended = Panicked | Returned "(unit, main_error) result"

datatype first_event = Signalled "(unit, main_error) result" | ServerEnded | IngestionEnded

text \<open>\<open>handle.await??\<close>.\<close>

definition await :: "ended \<Rightarrow> (unit, main_error) result" where
  "await t = (case t of Panicked \<Rightarrow> Err JoinFailed | Returned r \<Rightarrow> r)"

text \<open>A service that ends on its own is an error, whatever it returned.\<close>

definition unexpected :: "main_error \<Rightarrow> ended \<Rightarrow> (unit, main_error) result" where
  "unexpected terminated t =
     (case t of
        Returned (Err e) \<Rightarrow> Err e
      | Panicked \<Rightarrow> Err JoinFailed
      | Returned (Ok _) \<Rightarrow> Err terminated)"

definition supervise :: "first_event \<Rightarrow> ended \<Rightarrow> ended \<Rightarrow> (unit, main_error) result" where
  "supervise first server ingestion =
     (let outcome = (case first of
                       Signalled r \<Rightarrow> r
                     | ServerEnded \<Rightarrow> unexpected ServerTerminated server
                     | IngestionEnded \<Rightarrow> unexpected IngestionTerminated ingestion);
          http_finished = (first = ServerEnded);
          ingestion_finished = (first = IngestionEnded)
      in case (if \<not> ingestion_finished then await ingestion else Ok ()) of
           Err e \<Rightarrow> Err e
         | Ok _ \<Rightarrow>
             (case (if \<not> http_finished then await server else Ok ()) of
                Err e \<Rightarrow> Err e
              | Ok _ \<Rightarrow> outcome))"

section \<open>The process\<close>

text \<open>The load runs in a blocking task: \<open>None\<close> of \<open>load_graph\<close> is its panic.\<close>

definition start_process :: "db_env \<Rightarrow> database \<Rightarrow> (stores, main_error) result" where
  "start_process env db =
     (case load_graph env db graph_new of
        None \<Rightarrow> Err JoinFailed
      | Some (Err e, _) \<Rightarrow> Err (LoadFailed e)
      | Some (Ok _, g) \<Rightarrow> Ok \<lparr>st_db = db, st_graph = g, st_status = sync_status_new\<rparr>)"

definition ingestion_ended :: "(unit, ingest_error) result \<Rightarrow> ended" where
  "ingestion_ended r = Returned (case r of Ok _ \<Rightarrow> Ok () | Err e \<Rightarrow> Err (IngestionFailed e))"

definition main_run ::
    "db_env \<Rightarrow> 'c lru_ops \<Rightarrow> config \<Rightarrow> bool \<Rightarrow> loop_input list \<Rightarrow> (nat \<Rightarrow> attempt) \<Rightarrow> bool \<Rightarrow> first_event \<Rightarrow> ended \<Rightarrow>
     database \<Rightarrow> ((unit, main_error) result \<times> stores) option" where
  "main_run env ops cfg connected inputs att disconnected first server db =
     (case start_process env db of
        Err e \<Rightarrow> Some (Err e, \<lparr>st_db = db, st_graph = graph_new, st_status = sync_status_new\<rparr>)
      | Ok s \<Rightarrow>
          (case start_ingestion ops (relays cfg) connected inputs att disconnected s of
             None \<Rightarrow> None
           | Some (r, s1) \<Rightarrow> Some (supervise first server (ingestion_ended r), s1)))"

text \<open>
  From the database file on: what the process returns, the file it leaves and its last graph. A file
  that cannot be opened ends the process before any service starts.
\<close>

definition main_process ::
    "db_env \<Rightarrow> db_env \<Rightarrow> 'c lru_ops \<Rightarrow> config \<Rightarrow> bool \<Rightarrow> loop_input list \<Rightarrow> (nat \<Rightarrow> attempt) \<Rightarrow> bool \<Rightarrow> first_event \<Rightarrow>
     ended \<Rightarrow> db_file \<Rightarrow> ((unit, main_error) result \<times> db_file \<times> wot_graph) option" where
  "main_process open_env env ops cfg connected inputs att disconnected first server file =
     (case open_database open_env file of
        (Err e, f) \<Rightarrow> Some (Err (OpenFailed e), f, graph_new)
      | (Ok _, f) \<Rightarrow>
          (case main_run env ops cfg connected inputs att disconnected first server (file_rows f) of
             None \<Rightarrow> None
           | Some (r, s) \<Rightarrow> Some (r, f\<lparr>file_rows := st_db s\<rparr>, st_graph s)))"

text \<open>Which of the four ways the optional service takes at the start; a refused key does not stop the process.\<close>

datatype dvm_start = DvmRunning | DvmBadKey | DvmKeyMissing | DvmDisabled

definition start_dvm :: "(string \<Rightarrow> bool) \<Rightarrow> config \<Rightarrow> dvm_start" where
  "start_dvm key_parses cfg =
     (if dvm_enabled cfg then
        (case dvm_private_key cfg of
           Some private_key \<Rightarrow> if key_parses private_key then DvmRunning else DvmBadKey
         | None \<Rightarrow> DvmKeyMissing)
      else DvmDisabled)"

section \<open>A clean exit\<close>

lemma supervise_ok:
  "supervise first server ingestion = Ok () \<longleftrightarrow>
     first = Signalled (Ok ()) \<and> server = Returned (Ok ()) \<and> ingestion = Returned (Ok ())"
  by (auto simp: supervise_def unexpected_def await_def Let_def split: first_event.splits ended.splits result.splits if_splits)

lemma start_process_sync:
  assumes "db_wf db" "length (nodes db) < 2 ^ 32"
  shows "case start_process env db of
     Err e \<Rightarrow> faulty env
   | Ok s \<Rightarrow> st_db s = db \<and> in_sync (st_db s) (st_graph s)"
proof -
  have "node_count graph_new = 0" by (simp add: graph_new_def)
  then obtain r g where "load_graph env db graph_new = Some (r, g)"
    "case r of Err _ \<Rightarrow> faulty env \<and> g = graph_new
     | Ok _ \<Rightarrow> graph_wf g \<and> node_count g \<le> node_count graph_new + length (nodes db) \<and>
         follow_cell g = merged_follows db graph_new \<and> mute_cell g = merged_mutes db graph_new"
    using load_graph_ok [OF assms(1), of graph_new env] assms(2) by auto
  then show ?thesis
    using assms(1)
    by (cases r) (auto simp: start_process_def in_sync_def db_lists_def graph_lists_def merged_fresh)
qed

theorem main_run_ok:
  assumes db: "db_wf db" "length (nodes db) < 2 ^ 32" and ops: "lru_ok ops"
    and sane: "\<forall>i \<in> set inputs. input_sane i" "\<forall>n. attempt_ok (att n)"
    and run: "main_run env ops cfg connected inputs att disconnected first server db = Some (Ok (), s')"
    and small: "graph_small (st_graph s')"
  shows "first = Signalled (Ok ()) \<and> server = Returned (Ok ()) \<and> in_sync (st_db s') (st_graph s') \<and>
    db_lists (st_db s') = fold apply_update (received_updates inputs) (db_lists db)"
proof -
  obtain s r where s: "start_process env db = Ok s"
    "start_ingestion ops (relays cfg) connected inputs att disconnected s = Some (r, s')"
    "supervise first server (ingestion_ended r) = Ok ()"
    using run by (auto simp: main_run_def split: result.splits option.splits)
  have r: "is_ok r" "first = Signalled (Ok ())" "server = Returned (Ok ())"
    using s(3) by (cases r; simp add: supervise_ok ingestion_ended_def)+
  have sync: "st_db s = db" "in_sync (st_db s) (st_graph s)" using start_process_sync [OF db, of env] s(1) by auto
  obtain s1 where s1: "run_ingestion ops (relays cfg) connected inputs att disconnected s = Some (r, s1)"
    "st_db s' = st_db s1" "st_graph s' = st_graph s1"
    using start_ingestion_run [OF s(2)] .
  have "in_sync (st_db s1) (st_graph s1) \<and>
      graph_lists (st_graph s1) = fold apply_update (received_updates inputs) (graph_lists (st_graph s))"
    using run_ingestion_ok [OF ops sync(2) sane s1(1)] small s1(3) r(1) by simp
  then show ?thesis using s1(2,3) sync r by (simp add: in_sync_def)
qed

text \<open>The next start finds what the last one left.\<close>

lemma restart_finds:
  assumes "in_sync db g" "\<not> faulty env" "length (nodes db) < 2 ^ 32"
  shows "\<exists>s. start_process env db = Ok s \<and> st_db s = db \<and> graph_lists (st_graph s) = graph_lists g"
proof -
  have db: "db_wf db" "db_lists db = graph_lists g" using assms(1) by (simp_all add: in_sync_def)
  show ?thesis
    using start_process_sync [OF db(1) assms(3), of env] assms(2) db(2)
    by (cases "start_process env db") (auto simp: in_sync_def)
qed

text \<open>The same from file to file.\<close>

lemma main_process_Ok:
  assumes "main_process open_env env ops cfg connected inputs att disconnected first server file = Some (Ok (), file', g)"
  obtains f s where "open_database open_env file = (Ok (), f)" "schema_complete f" "file_rows f = file_rows file"
    "main_run env ops cfg connected inputs att disconnected first server (file_rows file) = Some (Ok (), s)"
    "file' = f\<lparr>file_rows := st_db s\<rparr>" "g = st_graph s"
proof -
  obtain r f where f: "open_database open_env file = (r, f)" by fastforce
  note ok = open_database_ok [OF f]
  obtain u where "r = Ok u" using assms f by (cases r) (auto simp: main_process_def)
  then show thesis using that [of f] assms f ok by (auto simp: main_process_def split: option.splits prod.splits)
qed

lemma open_complete:
  assumes "schema_complete f" "\<not> faulty env"
  shows "open_database env f = (Ok (), f)"
proof -
  obtain r f' where f': "open_database env f = (r, f')" by fastforce
  then have "r = Ok ()" using open_database_ok [OF f'] assms(2) by (cases r) auto
  then show ?thesis using f' open_again [OF assms(1)] by metis
qed

lemma schema_complete_rows: "schema_complete (f\<lparr>file_rows := db\<rparr>) \<longleftrightarrow> schema_complete f"
  by (simp add: schema_complete_def)

lemma complete_file_ok:
  assumes "schema_complete f" "db_wf (file_rows f)"
  shows "file_ok f"
proof -
  have "t \<in> set (file_tables f)" for t using assms(1) by (cases t) (simp_all add: schema_complete_def)
  then show ?thesis using assms(2) by (simp add: file_ok_def)
qed

end
