(* ===== verification/LockPool.thy ===== *)
theory LockPool
  imports WotPrelude "HOL-Library.Multiset"
begin

text \<open>
  Threads that share a state and take locks. A thread's code is a tree of atomic actions: take or
  drop a lock (\<open>Mutex\<close> and \<open>RwLock\<close> guards, the shard locks of a \<open>DashMap\<close>), read the shared
  state, change it, or finish with a result. A pool runs any number of threads in any interleaving;
  which of the waiting threads a free lock admits is a parameter, because the lock implementation
  (\<open>parking_lot\<close>) decides it. A pool whose threads take their locks in ascending order never gets
  stuck, and no run is infinite.
\<close>

section \<open>Code and pools\<close>

datatype lock_mode = Shared | Exclusive

datatype ('l, 's, 'r) prog =
    Return 'r
  | Acquire 'l lock_mode "('l, 's, 'r) prog"
  | Release 'l "('l, 's, 'r) prog"
  | Get "'s \<Rightarrow> ('l, 's, 'r) prog"
  | Put "'s \<Rightarrow> 's" "('l, 's, 'r) prog"

type_synonym 'l guards = "('l \<times> lock_mode) list"

record ('l, 's, 'r) thread =
  thr_held :: "'l guards"
  thr_prog :: "('l, 's, 'r) prog"

record ('l, 's, 'r) pool =
  pool_state :: 's
  pool_threads :: "('l, 's, 'r) thread list"

definition drop_guard :: "'l \<Rightarrow> 'l guards \<Rightarrow> 'l guards" where
  "drop_guard l hs = filter (\<lambda>h. fst h \<noteq> l) hs"

text \<open>A shared lock needs no exclusive holder, an exclusive lock no holder at all, itself included.\<close>

definition lock_free :: "('l, 's, 'r) thread list \<Rightarrow> 'l \<Rightarrow> lock_mode \<Rightarrow> bool" where
  "lock_free ts l m \<longleftrightarrow>
     (\<forall>t \<in> set ts. \<forall>h \<in> set (thr_held t). fst h = l \<longrightarrow> m = Shared \<and> snd h = Shared)"

definition prog_next :: "bool \<Rightarrow> ('l, 's, 'r) thread list \<Rightarrow> 's \<Rightarrow> ('l, 's, 'r) thread \<Rightarrow> ('s \<times> ('l, 's, 'r) thread) option" where
  "prog_next admitted ts s t =
     (case thr_prog t of
        Return _ \<Rightarrow> None
      | Acquire l m p \<Rightarrow>
          (if lock_free ts l m \<and> admitted then Some (s, \<lparr>thr_held = (l, m) # thr_held t, thr_prog = p\<rparr>) else None)
      | Release l p \<Rightarrow> Some (s, \<lparr>thr_held = drop_guard l (thr_held t), thr_prog = p\<rparr>)
      | Get k \<Rightarrow> Some (s, t\<lparr>thr_prog := k s\<rparr>)
      | Put f p \<Rightarrow> Some (f s, t\<lparr>thr_prog := p\<rparr>))"

text \<open>One step of thread \<open>i\<close>.\<close>

definition pool_next :: "(('l, 's, 'r) pool \<Rightarrow> nat \<Rightarrow> bool) \<Rightarrow> ('l, 's, 'r) pool \<Rightarrow> nat \<Rightarrow> ('l, 's, 'r) pool option" where
  "pool_next admits c i =
     (if i < length (pool_threads c) then
        (case prog_next (admits c i) (pool_threads c) (pool_state c) (pool_threads c ! i) of
           None \<Rightarrow> None
         | Some (s, t) \<Rightarrow> Some \<lparr>pool_state = s, pool_threads = (pool_threads c)[i := t]\<rparr>)
      else None)"

inductive pool_run :: "(('l, 's, 'r) pool \<Rightarrow> nat \<Rightarrow> bool) \<Rightarrow> ('l, 's, 'r) pool \<Rightarrow> ('l, 's, 'r) pool \<Rightarrow> bool"
  for admits where
  Stay: "pool_run admits c c"
| Move: "pool_run admits c c1 \<Longrightarrow> pool_next admits c1 i = Some c2 \<Longrightarrow> pool_run admits c c2"

text \<open>A run along a given schedule, for concrete runs.\<close>

fun run_schedule :: "(('l, 's, 'r) pool \<Rightarrow> nat \<Rightarrow> bool) \<Rightarrow> nat list \<Rightarrow> ('l, 's, 'r) pool \<Rightarrow> ('l, 's, 'r) pool option" where
  "run_schedule admits [] c = Some c"
| "run_schedule admits (i # is) c =
     (case pool_next admits c i of None \<Rightarrow> None | Some c1 \<Rightarrow> run_schedule admits is c1)"

definition pool_start :: "'s \<Rightarrow> ('l, 's, 'r) prog list \<Rightarrow> ('l, 's, 'r) pool" where
  "pool_start s ps = \<lparr>pool_state = s, pool_threads = map (\<lambda>p. \<lparr>thr_held = [], thr_prog = p\<rparr>) ps\<rparr>"

definition waits_for :: "('l, 's, 'r) thread \<Rightarrow> 'l \<Rightarrow> bool" where
  "waits_for t l = (case thr_prog t of Acquire l' _ _ \<Rightarrow> l' = l | _ \<Rightarrow> False)"

definition finished :: "('l, 's, 'r) thread \<Rightarrow> bool" where
  "finished t = (case thr_prog t of Return _ \<Rightarrow> True | _ \<Rightarrow> False)"

definition result_of :: "('l, 's, 'r) thread \<Rightarrow> 'r option" where
  "result_of t = (case thr_prog t of Return r \<Rightarrow> Some r | _ \<Rightarrow> None)"

text \<open>
  What the implementation of the locks owes: a lock nobody holds, that somebody waits for, admits
  one of the waiting threads. It may let readers wait behind a waiting writer.
\<close>

definition admission_ok :: "(('l, 's, 'r) pool \<Rightarrow> nat \<Rightarrow> bool) \<Rightarrow> bool" where
  "admission_ok admits \<longleftrightarrow>
     (\<forall>c l. (\<forall>t \<in> set (pool_threads c). l \<notin> fst ` set (thr_held t)) \<longrightarrow>
        (\<exists>i<length (pool_threads c). waits_for (pool_threads c ! i) l) \<longrightarrow>
        (\<exists>i<length (pool_threads c). waits_for (pool_threads c ! i) l \<and> admits c i))"

text \<open>The policy with writer preference: a reader is not admitted while a writer waits.\<close>

definition wants_write :: "'l \<Rightarrow> ('l, 's, 'r) thread \<Rightarrow> bool" where
  "wants_write l t = (case thr_prog t of Acquire l' Exclusive _ \<Rightarrow> l' = l | _ \<Rightarrow> False)"

lemma wants_write_iff: "wants_write l t \<longleftrightarrow> (\<exists>p. thr_prog t = Acquire l Exclusive p)"
  by (auto simp: wants_write_def split: prog.splits lock_mode.splits)

definition writers_first :: "('l, 's, 'r) pool \<Rightarrow> nat \<Rightarrow> bool" where
  "writers_first c i =
     (case thr_prog (pool_threads c ! i) of
        Acquire l Shared _ \<Rightarrow>
          \<not> list_ex (wants_write l) (pool_threads c)
      | _ \<Rightarrow> True)"

lemma writers_first_ok: "admission_ok writers_first"
proof -
  have "\<exists>j<length ts. waits_for (ts ! j) l \<and> writers_first c j"
    if ts: "ts = pool_threads c" and i: "i < length ts" "waits_for (ts ! i) l" for c l i ts
  proof (cases "\<exists>t \<in> set ts. \<exists>p. thr_prog t = Acquire l Exclusive p")
    case True
    then obtain j p where "j < length ts" "thr_prog (ts ! j) = Acquire l Exclusive p" by (metis in_set_conv_nth)
    then show ?thesis using ts by (intro exI [of _ j]) (simp add: waits_for_def writers_first_def)
  next
    case False
    then have "writers_first c i"
      using i ts by (auto simp: waits_for_def writers_first_def list_ex_iff wants_write_iff split: prog.splits lock_mode.splits)
    then show ?thesis using i by blast
  qed
  then show ?thesis unfolding admission_ok_def by metis
qed

lemma always_admits_ok: "admission_ok (\<lambda>_ _. True)"
  by (simp add: admission_ok_def)

section \<open>Steps\<close>

lemma pool_next_Some:
  "pool_next admits c i = Some c' \<longleftrightarrow>
     i < length (pool_threads c) \<and>
     (\<exists>s t. prog_next (admits c i) (pool_threads c) (pool_state c) (pool_threads c ! i) = Some (s, t) \<and>
            c' = \<lparr>pool_state = s, pool_threads = (pool_threads c)[i := t]\<rparr>)"
  by (auto simp: pool_next_def split: option.splits)

lemma run_schedule_run: "run_schedule admits is c = Some c' \<Longrightarrow> pool_run admits c0 c \<Longrightarrow> pool_run admits c0 c'"
  by (induction "is" arbitrary: c) (auto split: option.splits intro: Move)

lemma pool_run_trans: "pool_run admits b c \<Longrightarrow> pool_run admits a b \<Longrightarrow> pool_run admits a c"
  by (induction rule: pool_run.induct) (auto intro: Move)

lemma run_length: "pool_run admits c c' \<Longrightarrow> length (pool_threads c') = length (pool_threads c)"
  by (induction rule: pool_run.induct) (auto simp: pool_next_Some)

section \<open>Lock order\<close>

text \<open>
  Each lock is taken when every lock held ranks strictly below it, so none is taken twice; only
  held locks are dropped, and none is held at the end.
\<close>

primrec ordered :: "('l \<Rightarrow> nat) \<Rightarrow> ('l, 's, 'r) prog \<Rightarrow> 'l guards \<Rightarrow> bool" where
  "ordered rank (Return r) = (\<lambda>hs. hs = [])"
| "ordered rank (Acquire l m p) =
     (\<lambda>hs. (\<forall>h \<in> set hs. rank (fst h) < rank l) \<and> ordered rank p ((l, m) # hs))"
| "ordered rank (Release l p) = (\<lambda>hs. l \<in> fst ` set hs \<and> ordered rank p (drop_guard l hs))"
| "ordered rank (Get k) = (\<lambda>hs. \<forall>s. ordered rank (k s) hs)"
| "ordered rank (Put f p) = ordered rank p"

definition pool_ordered :: "('l \<Rightarrow> nat) \<Rightarrow> ('l, 's, 'r) pool \<Rightarrow> bool" where
  "pool_ordered rank c \<longleftrightarrow> (\<forall>t \<in> set (pool_threads c). ordered rank (thr_prog t) (thr_held t))"

lemma prog_next_ordered:
  "prog_next a ts s t = Some (s', t') \<Longrightarrow> ordered rank (thr_prog t) (thr_held t) \<Longrightarrow> ordered rank (thr_prog t') (thr_held t')"
  by (auto simp: prog_next_def split: prog.splits if_splits)

lemma pool_next_ordered:
  assumes "pool_next admits c i = Some c'" "pool_ordered rank c"
  shows "pool_ordered rank c'"
proof -
  obtain s t where i: "i < length (pool_threads c)"
    and n: "prog_next (admits c i) (pool_threads c) (pool_state c) (pool_threads c ! i) = Some (s, t)"
    and c': "c' = \<lparr>pool_state = s, pool_threads = (pool_threads c)[i := t]\<rparr>"
    using assms(1) by (auto simp: pool_next_Some)
  have "ordered rank (thr_prog t) (thr_held t)"
    using prog_next_ordered [OF n] assms(2) i by (simp add: pool_ordered_def)
  then show ?thesis
    using assms(2) set_update_subset_insert [of "pool_threads c" i t] by (auto simp: pool_ordered_def c')
qed

lemma pool_run_ordered: "pool_run admits c c' \<Longrightarrow> pool_ordered rank c \<Longrightarrow> pool_ordered rank c'"
  by (induction rule: pool_run.induct) (auto intro: pool_next_ordered)

lemma pool_start_ordered: "(\<And>p. p \<in> set ps \<Longrightarrow> ordered rank p []) \<Longrightarrow> pool_ordered rank (pool_start s ps)"
  by (auto simp: pool_ordered_def pool_start_def)

text \<open>
  No deadlock. Of the threads that wait, take one that waits for a lock of the highest rank: its
  holder would wait for a higher lock, so nobody holds it, and the lock admits somebody.
\<close>

lemma pool_progress:
  assumes policy: "admission_ok admits" and ord: "pool_ordered rank c"
    and busy: "t \<in> set (pool_threads c)" "\<not> finished t"
  shows "\<exists>i c'. pool_next admits c i = Some c'"
proof (rule ccontr)
  assume stuck: "\<nexists>i c'. pool_next admits c i = Some c'"
  let ?ts = "pool_threads c"
  let ?W = "{l. \<exists>t \<in> set ?ts. waits_for t l}"
  have none: "prog_next (admits c i) ?ts (pool_state c) (?ts ! i) = None" if "i < length ?ts" for i
    using stuck that unfolding pool_next_Some by (metis not_None_eq prod.exhaust)
  have waits: "\<exists>l. waits_for u l" if u: "u \<in> set ?ts" "\<not> finished u" for u
  proof -
    obtain i where "i < length ?ts" "?ts ! i = u" using u(1) by (meson in_set_conv_nth)
    then show ?thesis using none [of i] u(2) by (auto simp: prog_next_def waits_for_def finished_def split: prog.splits)
  qed
  have "?W = \<Union> ((\<lambda>t. {l. waits_for t l}) ` set ?ts)" by blast
  moreover have "finite {l. waits_for u l}" for u :: "('a, 'b, 'c) thread"
    by (cases "thr_prog u") (simp_all add: waits_for_def)
  ultimately have fin: "finite ?W" by simp
  moreover have "?W \<noteq> {}" using waits [OF busy] busy(1) by blast
  ultimately have "Max (rank ` ?W) \<in> rank ` ?W" by (intro Max_in) simp_all
  then obtain l where l: "l \<in> ?W" "rank l = Max (rank ` ?W)" by (metis (no_types, lifting) image_iff)
  have top: "rank l' \<le> rank l" if "l' \<in> ?W" for l' using l(2) fin that by simp
  have free: "l \<notin> fst ` set (thr_held u)" if u: "u \<in> set ?ts" for u
  proof
    assume held: "l \<in> fst ` set (thr_held u)"
    have o: "ordered rank (thr_prog u) (thr_held u)" using ord u by (simp add: pool_ordered_def)
    then have "\<not> finished u" using held by (auto simp: finished_def split: prog.splits)
    then obtain l' where l': "waits_for u l'" using waits u by blast
    then have "rank l < rank l'" using o held by (auto simp: waits_for_def split: prog.splits)
    moreover have "rank l' \<le> rank l" using top l' u by blast
    ultimately show False by simp
  qed
  moreover have "\<exists>i<length ?ts. waits_for (?ts ! i) l" using l(1) by (auto simp: in_set_conv_nth)
  ultimately obtain i where i: "i < length ?ts" "waits_for (?ts ! i) l" "admits c i"
    using policy unfolding admission_ok_def by blast
  then obtain m p where p: "thr_prog (?ts ! i) = Acquire l m p" by (auto simp: waits_for_def split: prog.splits)
  have "lock_free ?ts l m" using free by (force simp: lock_free_def)
  then show False using none [OF i(1)] i(3) p by (simp add: prog_next_def)
qed

section \<open>Termination\<close>

inductive child :: "('l, 's, 'r) prog \<Rightarrow> ('l, 's, 'r) prog \<Rightarrow> bool" where
  "child p (Acquire l m p)"
| "child p (Release l p)"
| "child (k s) (Get k)"
| "child p (Put f p)"

inductive_simps child_simps [simp]:
  "child q (Return r)" "child q (Acquire l m p)" "child q (Release l p)" "child q (Get k)" "child q (Put f p)"

lemma child_wf: "wfp child"
proof (rule wfpUNIVI)
  fix P :: "('l, 's, 'r) prog \<Rightarrow> bool" and x
  assume "\<forall>x. (\<forall>y. child y x \<longrightarrow> P y) \<longrightarrow> P x"
  then have step: "(\<And>y. child y x \<Longrightarrow> P y) \<Longrightarrow> P x" for x by blast
  show "P x" by (induction x) (rule step, auto)+
qed

lemma prog_next_child: "prog_next a ts s t = Some (s', t') \<Longrightarrow> child (thr_prog t') (thr_prog t)"
  by (auto simp: prog_next_def split: prog.splits if_splits)

definition pool_work :: "('l, 's, 'r) pool \<Rightarrow> ('l, 's, 'r) prog multiset" where
  "pool_work c = mset (map thr_prog (pool_threads c))"

lemma pool_next_work:
  assumes "pool_next admits c i = Some c'"
  shows "(pool_work c', pool_work c) \<in> mult1 {(q, p). child q p}"
proof -
  let ?ts = "pool_threads c"
  obtain s t where i: "i < length ?ts" and n: "prog_next (admits c i) ?ts (pool_state c) (?ts ! i) = Some (s, t)"
    and c': "c' = \<lparr>pool_state = s, pool_threads = ?ts[i := t]\<rparr>"
    using assms by (auto simp: pool_next_Some)
  let ?ps = "map thr_prog ?ts"
  have "pool_work c = (mset ?ps - {#?ps ! i#}) + {#?ps ! i#}" using i by (simp add: pool_work_def nth_mem_mset)
  moreover have "pool_work c' = (mset ?ps - {#?ps ! i#}) + {#thr_prog t#}"
    using i by (simp add: pool_work_def c' map_update mset_update)
  moreover have "child (thr_prog t) (?ps ! i)" using prog_next_child [OF n] i by simp
  ultimately show ?thesis unfolding mult1_def by fastforce
qed

theorem pool_next_wf: "wfp (\<lambda>c' c. \<exists>i. pool_next admits c i = Some c')"
proof -
  have "wf (mult1 {(q, p). child q (p :: ('a, 'b, 'c) prog)})"
    using child_wf wf_mult1 by (simp add: wfp_def)
  then have "wf (inv_image (mult1 {(q, p). child q (p :: ('a, 'b, 'c) prog)}) pool_work)" by (rule wf_inv_image)
  then show ?thesis
    unfolding wfp_def by (rule wf_subset) (auto simp: inv_image_def dest: pool_next_work)
qed

theorem pool_no_infinite_run: "\<not> (\<exists>f. \<forall>n. \<exists>i. pool_next admits (f n) i = Some (f (Suc n)))"
  using pool_next_wf [of admits] unfolding wfp_def wf_iff_no_infinite_down_chain by auto

text \<open>So every run can be continued until all threads have finished.\<close>

theorem pool_finishes:
  assumes policy: "admission_ok admits"
  shows "pool_ordered rank c \<Longrightarrow> \<exists>c'. pool_run admits c c' \<and> (\<forall>t \<in> set (pool_threads c'). finished t)"
proof (induction c rule: wfp_induct_rule [OF pool_next_wf [of admits]])
  case (1 c)
  show ?case
  proof (cases "\<forall>t \<in> set (pool_threads c). finished t")
    case True
    then show ?thesis using Stay by blast
  next
    case False
    then obtain i c1 where n: "pool_next admits c i = Some c1" using pool_progress [OF policy 1(2)] by blast
    then obtain c' where "pool_run admits c1 c'" "\<forall>t \<in> set (pool_threads c'). finished t"
      using "1.IH" pool_next_ordered [OF n 1(2)] by blast
    then show ?thesis using pool_run_trans Move [OF Stay n] by blast
  qed
qed

section \<open>Mutual exclusion\<close>

definition pool_exclusive :: "('l, 's, 'r) pool \<Rightarrow> bool" where
  "pool_exclusive c \<longleftrightarrow>
     (\<forall>i<length (pool_threads c). \<forall>j<length (pool_threads c). \<forall>l m.
        (l, Exclusive) \<in> set (thr_held (pool_threads c ! i)) \<longrightarrow> (l, m) \<in> set (thr_held (pool_threads c ! j)) \<longrightarrow>
        i = j \<and> m = Exclusive)"

lemma pool_exclusiveD:
  "pool_exclusive c \<Longrightarrow> i < length (pool_threads c) \<Longrightarrow> j < length (pool_threads c) \<Longrightarrow>
     (l, Exclusive) \<in> set (thr_held (pool_threads c ! i)) \<Longrightarrow> (l, m) \<in> set (thr_held (pool_threads c ! j)) \<Longrightarrow>
     i = j \<and> m = Exclusive"
  unfolding pool_exclusive_def by blast

text \<open>A step adds at most one guard, of a lock that was free.\<close>

lemma prog_next_held:
  "prog_next a ts s t = Some (s', t') \<Longrightarrow>
     set (thr_held t') \<subseteq> set (thr_held t) \<or>
     (\<exists>l m. set (thr_held t') = insert (l, m) (set (thr_held t)) \<and> lock_free ts l m)"
  by (auto simp: prog_next_def drop_guard_def split: prog.splits if_splits)

lemma lock_freeD:
  "lock_free ts l m \<Longrightarrow> i < length ts \<Longrightarrow> (l, m') \<in> set (thr_held (ts ! i)) \<Longrightarrow> m = Shared \<and> m' = Shared"
  unfolding lock_free_def by (metis fst_conv nth_mem snd_conv)

lemma pool_next_exclusive:
  assumes "pool_next admits c i = Some c'" "pool_exclusive c"
  shows "pool_exclusive c'"
proof -
  let ?ts = "pool_threads c"
  let ?old = "\<lambda>j. set (thr_held (?ts ! j))"
  obtain s t where i: "i < length ?ts" and n: "prog_next (admits c i) ?ts (pool_state c) (?ts ! i) = Some (s, t)"
    and c': "c' = \<lparr>pool_state = s, pool_threads = ?ts[i := t]\<rparr>"
    using assms by (auto simp: pool_next_Some)
  let ?new = "\<lambda>j. set (thr_held (?ts[i := t] ! j))"
  obtain G where G: "G = {} \<or> (\<exists>l m. G = {(l, m)} \<and> lock_free ?ts l m)" "?new i \<subseteq> ?old i \<union> G"
    using prog_next_held [OF n] i by (metis Un_empty_right insert_is_Un nth_list_update_eq order_refl sup_commute)
  have new: "x \<in> ?new j \<Longrightarrow> x \<in> ?old j \<or> (j = i \<and> x \<in> G)" for x j using G(2) by (cases "j = i") auto
  have free: "(l, m) \<in> G \<Longrightarrow> j < length ?ts \<Longrightarrow> (l, m') \<in> ?old j \<Longrightarrow> m = Shared \<and> m' = Shared" for l m m' j
    using G(1) lock_freeD [of ?ts l m j m'] by auto
  have "j = k \<and> m = Exclusive"
    if jk: "j < length ?ts" "k < length ?ts" and h: "(l, Exclusive) \<in> ?new j" "(l, m) \<in> ?new k" for j k l m
  proof -
    consider "(l, Exclusive) \<in> ?old j" "(l, m) \<in> ?old k" | "j = i" "(l, Exclusive) \<in> G" "(l, m) \<in> ?old k"
      | "(l, Exclusive) \<in> ?old j" "k = i" "(l, m) \<in> G" | "j = i" "k = i" "(l, Exclusive) \<in> G" "(l, m) \<in> G"
      using new [OF h(1)] new [OF h(2)] by blast
    then show ?thesis
    proof cases
      case 1
      then show ?thesis using pool_exclusiveD [OF assms(2) jk] by blast
    next
      case 2
      then show ?thesis using free [OF 2(2) jk(2) 2(3)] by simp
    next
      case 3
      then show ?thesis using free [OF 3(3) jk(1) 3(1)] by simp
    next
      case 4
      then show ?thesis using G(1) by auto
    qed
  qed
  then show ?thesis by (simp add: pool_exclusive_def c')
qed

lemma pool_run_exclusive: "pool_run admits c c' \<Longrightarrow> pool_exclusive c \<Longrightarrow> pool_exclusive c'"
  by (induction rule: pool_run.induct) (auto intro: pool_next_exclusive)

lemma pool_start_exclusive [simp]: "pool_exclusive (pool_start s ps)"
  by (simp add: pool_exclusive_def pool_start_def)

end
