(* ===== verification/LockLogic.thy ===== *)
theory LockLogic
  imports LockPool
begin

text \<open>
  A logic for pools whose threads carry out the operations of an abstract object. The abstract
  object is a history of events, each tagged with the thread it belongs to; \<open>replay\<close> is its state.
  A thread is \<open>safe\<close> when, whatever the others do meanwhile, each of its changes to the shared state
  is covered by its own events, and its result satisfies \<open>\<Phi>\<close> at the history it has reached. A
  thread relies on two things: what a lock it holds protects does not change, and what a tracked lock
  protects agrees with the replayed history whenever nobody holds the lock exclusively.
\<close>

type_synonym 'w history = "(nat \<times> 'w) list"

locale object_spec =
  fixes same :: "'l \<Rightarrow> 's \<Rightarrow> 's \<Rightarrow> bool"
    and tracked :: "'l \<Rightarrow> bool"
    and whole :: 'l
    and base :: "'s \<Rightarrow> 's \<Rightarrow> bool"
    and replay :: "'w history \<Rightarrow> 's"
  assumes same_refl: "same l s s"
    and same_sym: "same l s s' \<Longrightarrow> same l s' s"
    and same_trans: "same l s s' \<Longrightarrow> same l s' s'' \<Longrightarrow> same l s s''"
    and whole_same: "same whole s s' \<longleftrightarrow> s = s'"
    and whole_tracked: "tracked whole"
    and base_refl: "base s s"
begin

definition sees :: "'l guards \<Rightarrow> 's \<Rightarrow> 'w history \<Rightarrow> bool" where
  "sees hs s h \<longleftrightarrow> base s (replay h) \<and> (\<forall>l. tracked l \<longrightarrow> (l, Shared) \<in> set hs \<longrightarrow> same l s (replay h))"

text \<open>What thread \<open>i\<close>, holding \<open>hs\<close>, may find when it runs again.\<close>

definition rely :: "nat \<Rightarrow> 'l guards \<Rightarrow> 's \<Rightarrow> 'w history \<Rightarrow> 's \<Rightarrow> 'w history \<Rightarrow> bool" where
  "rely i hs s h s' h' \<longleftrightarrow>
     (\<exists>evs. h' = h @ evs \<and> i \<notin> fst ` set evs) \<and> (\<forall>l m. (l, m) \<in> set hs \<longrightarrow> same l s s') \<and>
     ((whole, Exclusive) \<in> set hs \<longrightarrow> h' = h) \<and> sees hs s' h'"

text \<open>What a change from \<open>s\<close> to \<open>s'\<close> with the events \<open>evs\<close> must respect.\<close>

definition change :: "nat \<Rightarrow> 'l guards \<Rightarrow> 's \<Rightarrow> 'w history \<Rightarrow> 's \<Rightarrow> 'w history \<Rightarrow> bool" where
  "change i hs s h s' evs \<longleftrightarrow>
     fst ` set evs \<subseteq> {i} \<and> (evs = [] \<or> (whole, Exclusive) \<in> set hs) \<and> base s' (replay (h @ evs)) \<and>
     (\<forall>l. (l, Exclusive) \<notin> set hs \<longrightarrow> same l s s' \<and> (tracked l \<longrightarrow> same l (replay h) (replay (h @ evs))))"

primrec safe :: "nat \<Rightarrow> ('r \<Rightarrow> 'w history \<Rightarrow> bool) \<Rightarrow> ('l, 's, 'r) prog \<Rightarrow> 'l guards \<Rightarrow> 's \<Rightarrow> 'w history \<Rightarrow> bool" where
  "safe i \<Phi> (Return r) = (\<lambda>hs s h. \<forall>s' h'. rely i hs s h s' h' \<longrightarrow> \<Phi> r h')"
| "safe i \<Phi> (Acquire l m p) = (\<lambda>hs s h. \<forall>s' h'. rely i hs s h s' h' \<longrightarrow> (tracked l \<longrightarrow> same l s' (replay h')) \<longrightarrow>
     safe i \<Phi> p ((l, m) # hs) s' h')"
| "safe i \<Phi> (Release l p) = (\<lambda>hs s h. \<forall>s' h'. rely i hs s h s' h' \<longrightarrow>
     (\<exists>evs. change i hs s' h' s' evs \<and> ((l, Exclusive) \<in> set hs \<longrightarrow> tracked l \<longrightarrow> same l s' (replay (h' @ evs))) \<and>
       safe i \<Phi> p (drop_guard l hs) s' (h' @ evs)))"
| "safe i \<Phi> (Get k) = (\<lambda>hs s h. \<forall>s' h'. rely i hs s h s' h' \<longrightarrow> safe i \<Phi> (k s') hs s' h')"
| "safe i \<Phi> (Put f p) = (\<lambda>hs s h. \<forall>s' h'. rely i hs s h s' h' \<longrightarrow>
     (\<exists>evs. change i hs s' h' (f s') evs \<and> safe i \<Phi> p hs (f s') (h' @ evs)))"

section \<open>Interference\<close>

lemma rely_trans:
  assumes a: "rely i hs s h s1 h1" and b: "rely i hs s1 h1 s2 h2"
  shows "rely i hs s h s2 h2"
proof -
  obtain e1 e2 where "h1 = h @ e1" "i \<notin> fst ` set e1" "h2 = h1 @ e2" "i \<notin> fst ` set e2"
    using a b by (auto simp: rely_def)
  then have "h2 = h @ (e1 @ e2)" "i \<notin> fst ` set (e1 @ e2)" by (simp_all add: image_Un)
  then have "\<exists>evs. h2 = h @ evs \<and> i \<notin> fst ` set evs" by blast
  moreover have "same l s s2" if "(l, m) \<in> set hs" for l m
    using a b that same_trans [of l s s1 s2] by (auto simp: rely_def)
  ultimately show ?thesis using a b unfolding rely_def by blast
qed

lemma rely_sees: "rely i hs s h s' h' \<Longrightarrow> sees hs s' h'"
  by (simp add: rely_def)

lemma rely_self: "sees hs s h \<Longrightarrow> rely i hs s h s h"
  by (simp add: rely_def same_refl)

lemma rely_whole: "(whole, Exclusive) \<in> set hs \<Longrightarrow> rely i hs s h s' h' \<Longrightarrow> s' = s \<and> h' = h"
  unfolding rely_def using whole_same by metis

lemma safe_rely: "safe i \<Phi> p hs s h \<Longrightarrow> rely i hs s h s' h' \<Longrightarrow> safe i \<Phi> p hs s' h'"
  by (cases p) (auto intro: rely_trans)

text \<open>A thread that holds the whole state runs undisturbed.\<close>

lemma safe_Get_whole:
  "(whole, Exclusive) \<in> set hs \<Longrightarrow> safe i \<Phi> (k s) hs s h \<Longrightarrow> safe i \<Phi> (Get k) hs s h"
  using rely_whole by fastforce

lemma safe_Acquire_whole:
  "(whole, Exclusive) \<in> set hs \<Longrightarrow> ((tracked l \<Longrightarrow> same l s (replay h)) \<Longrightarrow> safe i \<Phi> p ((l, m) # hs) s h) \<Longrightarrow>
     safe i \<Phi> (Acquire l m p) hs s h"
  using rely_whole by fastforce

lemma safe_Put_whole:
  "(whole, Exclusive) \<in> set hs \<Longrightarrow> change i hs s h (f s) evs \<Longrightarrow> safe i \<Phi> p hs (f s) (h @ evs) \<Longrightarrow>
     safe i \<Phi> (Put f p) hs s h"
  using rely_whole by fastforce

lemma safe_Release_whole:
  "(whole, Exclusive) \<in> set hs \<Longrightarrow> change i hs s h s evs \<Longrightarrow>
     (tracked l \<Longrightarrow> (l, Exclusive) \<in> set hs \<Longrightarrow> same l s (replay (h @ evs))) \<Longrightarrow>
     safe i \<Phi> p (drop_guard l hs) s (h @ evs) \<Longrightarrow> safe i \<Phi> (Release l p) hs s h"
  using rely_whole by fastforce

text \<open>Steps of its own that have no event.\<close>

lemma change_silent:
  "base s' (replay h) \<Longrightarrow> (\<And>l. (l, Exclusive) \<notin> set hs \<Longrightarrow> same l s s') \<Longrightarrow> change i hs s h s' []"
  by (simp add: change_def same_refl)

lemma safe_Put_silent:
  assumes "(whole, Exclusive) \<in> set hs" "base (f s) (replay h)" "\<And>l. (l, Exclusive) \<notin> set hs \<Longrightarrow> same l s (f s)"
    "safe i \<Phi> p hs (f s) h"
  shows "safe i \<Phi> (Put f p) hs s h"
proof -
  have "change i hs s h (f s) []" using change_silent assms(2,3) .
  then show ?thesis using safe_Put_whole [where evs = "[]"] assms(1,4) by fastforce
qed

lemma safe_Release_silent:
  assumes "(whole, Exclusive) \<in> set hs" "base s (replay h)" "tracked l \<Longrightarrow> (l, Exclusive) \<in> set hs \<Longrightarrow> same l s (replay h)"
    "safe i \<Phi> p (drop_guard l hs) s h"
  shows "safe i \<Phi> (Release l p) hs s h"
proof -
  have "change i hs s h s []" by (rule change_silent [OF assms(2) same_refl])
  then show ?thesis using safe_Release_whole [where evs = "[]"] assms(1,3,4) by fastforce
qed

text \<open>A thread that only reads drops its locks without an event.\<close>

lemma safe_Release_reader:
  assumes "(l, Exclusive) \<notin> set hs" "\<And>s' h'. rely i hs s h s' h' \<Longrightarrow> safe i \<Phi> p (drop_guard l hs) s' h'"
  shows "safe i \<Phi> (Release l p) hs s h"
proof -
  have "change i hs s' h' s' []" if "rely i hs s h s' h'" for s' h'
    using rely_sees [OF that] by (intro change_silent same_refl) (simp add: sees_def)
  then show ?thesis using assms by fastforce
qed

section \<open>The invariant of a run\<close>

definition nobody_writes :: "('l, 's, 'r) pool \<Rightarrow> 'l \<Rightarrow> bool" where
  "nobody_writes c l \<longleftrightarrow> (\<forall>t \<in> set (pool_threads c). (l, Exclusive) \<notin> set (thr_held t))"

definition in_step :: "(nat \<Rightarrow> 'r \<Rightarrow> 'w history \<Rightarrow> bool) \<Rightarrow> ('l, 's, 'r) pool \<Rightarrow> 'w history \<Rightarrow> bool" where
  "in_step \<Phi> c h \<longleftrightarrow>
     pool_exclusive c \<and> fst ` set h \<subseteq> {..<length (pool_threads c)} \<and> base (pool_state c) (replay h) \<and>
     (\<forall>l. tracked l \<longrightarrow> nobody_writes c l \<longrightarrow> same l (pool_state c) (replay h)) \<and>
     (\<forall>i<length (pool_threads c).
        safe i (\<Phi> i) (thr_prog (pool_threads c ! i)) (thr_held (pool_threads c ! i)) (pool_state c) h)"

lemma in_step_sees:
  assumes "in_step \<Phi> c h" "i < length (pool_threads c)"
  shows "sees (thr_held (pool_threads c ! i)) (pool_state c) h"
proof -
  have "nobody_writes c l" if "(l, Shared) \<in> set (thr_held (pool_threads c ! i))" for l
    using that assms pool_exclusiveD [of c _ i l Shared]
    unfolding nobody_writes_def in_step_def by (metis in_set_conv_nth lock_mode.distinct(1))
  then show ?thesis using assms(1) by (auto simp: sees_def in_step_def)
qed

text \<open>A step of thread \<open>i\<close>, with its events, leads to a state from which all are safe.\<close>

lemma step_invariant:
  fixes c :: "('l, 's, 'r) pool"
  defines "ts \<equiv> pool_threads c"
  assumes inv: "in_step \<Phi> c h" and i: "i < length ts"
    and next_c: "pool_next admits c i = Some \<lparr>pool_state = s', pool_threads = ts[i := t]\<rparr>"
    and ch: "change i (thr_held (ts ! i)) (pool_state c) h s' evs"
    and grow: "set (thr_held t) \<subseteq> set (thr_held (ts ! i)) \<or> evs = [] \<and> s' = pool_state c"
    and out: "\<And>l. tracked l \<Longrightarrow> (l, Exclusive) \<in> set (thr_held (ts ! i)) \<Longrightarrow> (l, Exclusive) \<notin> set (thr_held t) \<Longrightarrow>
      same l s' (replay (h @ evs))"
    and sf: "safe i (\<Phi> i) (thr_prog t) (thr_held t) s' (h @ evs)"
  shows "in_step \<Phi> \<lparr>pool_state = s', pool_threads = ts[i := t]\<rparr> (h @ evs)"
proof -
  let ?c' = "\<lparr>pool_state = s', pool_threads = ts[i := t]\<rparr>"
  let ?hs = "thr_held (ts ! i)"
  note unf = in_step_def [of \<Phi> c h, folded ts_def]
  have ex: "pool_exclusive c" using inv by (simp add: unf)
  have ex': "pool_exclusive ?c'" using pool_next_exclusive [OF next_c ex] .
  have agree: "same l s' (replay (h @ evs))" if l: "tracked l" "nobody_writes ?c' l" for l
  proof (cases "(l, Exclusive) \<in> set ?hs")
    case True
    have "(l, Exclusive) \<notin> set (thr_held t)" using l(2) i by (auto simp: nobody_writes_def set_update_memI)
    then show ?thesis using out [OF l(1) True] by blast
  next
    case False
    have "(l, Exclusive) \<notin> set (thr_held (ts ! j))" if "j < length ts" for j
    proof (cases "j = i")
      case True
      then show ?thesis using False by simp
    next
      case False
      then show ?thesis using l(2) that by (metis length_list_update nobody_writes_def nth_list_update_neq nth_mem pool.select_convs(2))
    qed
    then have "nobody_writes c l" by (auto simp: nobody_writes_def ts_def in_set_conv_nth)
    then have "same l (pool_state c) (replay h)" using inv l(1) by (simp add: unf)
    moreover have "same l (pool_state c) s'" "same l (replay h) (replay (h @ evs))"
      using ch False l(1) by (auto simp: change_def)
    ultimately show ?thesis using same_trans same_sym by metis
  qed
  have base': "base s' (replay (h @ evs))" using ch by (simp add: change_def)
  have tags: "fst ` set (h @ evs) \<subseteq> {..<length ts}" using inv ch i by (auto simp: unf change_def)
  have others: "safe j (\<Phi> j) (thr_prog (ts ! j)) (thr_held (ts ! j)) s' (h @ evs)" if j: "j < length ts" "j \<noteq> i" for j
  proof -
    let ?hj = "thr_held (ts ! j)"
    have tj: "pool_threads ?c' ! j = ts ! j" "j < length (pool_threads ?c')" using j by simp_all
    have "same l (pool_state c) s'" if "(l, m) \<in> set ?hj" for l m
    proof -
      have "(l, Exclusive) \<notin> set ?hs" using pool_exclusiveD [OF ex, folded ts_def, OF i j(1) _ that] j(2) by blast
      then show ?thesis using ch by (simp add: change_def)
    qed
    moreover have "evs = []" if "(whole, Exclusive) \<in> set ?hj"
      using pool_exclusiveD [OF ex, folded ts_def, OF i j(1) _ that] j(2) ch by (auto simp: change_def)
    moreover have "nobody_writes ?c' l" if "(l, Shared) \<in> set ?hj" for l
      using pool_exclusiveD [OF ex' _ tj(2), of _ l Shared] that tj(1)
      unfolding nobody_writes_def by (metis in_set_conv_nth lock_mode.distinct(1))
    then have "sees ?hj s' (h @ evs)" using base' agree by (simp add: sees_def)
    moreover have "j \<notin> fst ` set evs" using ch j(2) by (auto simp: change_def)
    ultimately have "rely j ?hj (pool_state c) h s' (h @ evs)" by (auto simp: rely_def)
    moreover have "safe j (\<Phi> j) (thr_prog (ts ! j)) ?hj (pool_state c) h" using inv j(1) by (simp add: unf)
    ultimately show ?thesis using safe_rely by blast
  qed
  have "safe j (\<Phi> j) (thr_prog (ts[i := t] ! j)) (thr_held (ts[i := t] ! j)) s' (h @ evs)" if "j < length ts" for j
    using others sf that by (cases "j = i") simp_all
  then show ?thesis using ex' tags base' agree by (simp add: in_step_def)
qed

lemma change_none:
  assumes "base s (replay h)"
  shows "change i hs s h s []"
  using assms by (simp add: change_def same_refl)

lemma next_in_step:
  assumes inv: "in_step \<Phi> c h" and step: "pool_next admits c i = Some c'"
  shows "\<exists>evs. in_step \<Phi> c' (h @ evs) \<and> fst ` set evs \<subseteq> {i} \<and>
    (\<forall>j<length (pool_threads c). j \<noteq> i \<longrightarrow> (\<forall>(l, m) \<in> set (thr_held (pool_threads c ! j)). same l (pool_state c) (pool_state c')))"
proof -
  let ?ts = "pool_threads c" and ?s = "pool_state c"
  let ?hs = "thr_held (?ts ! i)"
  obtain s' t where i: "i < length ?ts" and n: "prog_next (admits c i) ?ts ?s (?ts ! i) = Some (s', t)"
    and c': "c' = \<lparr>pool_state = s', pool_threads = ?ts[i := t]\<rparr>"
    using step by (auto simp: pool_next_Some)
  note next_c = step [unfolded c']
  have r: "rely i ?hs ?s h ?s h" using rely_self in_step_sees [OF inv i] by blast
  have sf: "safe i (\<Phi> i) (thr_prog (?ts ! i)) ?hs ?s h" using inv i by (simp add: in_step_def)
  have none: "change i ?hs ?s h ?s []" using change_none inv by (simp add: in_step_def)
  have "\<exists>evs. change i ?hs ?s h s' evs \<and> (set (thr_held t) \<subseteq> set ?hs \<or> evs = [] \<and> s' = ?s) \<and>
    (\<forall>l. tracked l \<longrightarrow> (l, Exclusive) \<in> set ?hs \<longrightarrow> (l, Exclusive) \<notin> set (thr_held t) \<longrightarrow> same l s' (replay (h @ evs))) \<and>
    safe i (\<Phi> i) (thr_prog t) (thr_held t) s' (h @ evs)"
  proof (cases "thr_prog (?ts ! i)")
    case (Return r)
    then show ?thesis using n by (simp add: prog_next_def)
  next
    case (Acquire l m p)
    then have e: "s' = ?s" "t = \<lparr>thr_held = (l, m) # ?hs, thr_prog = p\<rparr>" "lock_free ?ts l m"
      using n by (auto simp: prog_next_def split: if_splits)
    have "nobody_writes c l"
      using lock_freeD [OF e(3)] unfolding nobody_writes_def by (metis in_set_conv_nth lock_mode.distinct(1))
    then have "safe i (\<Phi> i) p ((l, m) # ?hs) ?s h" using sf r inv Acquire by (simp add: in_step_def)
    then show ?thesis using none e by (intro exI [of _ "[]"]) simp
  next
    case (Release l p)
    then have e: "s' = ?s" "t = \<lparr>thr_held = drop_guard l ?hs, thr_prog = p\<rparr>" using n by (auto simp: prog_next_def)
    obtain evs where "change i ?hs ?s h ?s evs" "(l, Exclusive) \<in> set ?hs \<longrightarrow> tracked l \<longrightarrow> same l ?s (replay (h @ evs))"
      "safe i (\<Phi> i) p (drop_guard l ?hs) ?s (h @ evs)"
      using sf r Release by auto
    then show ?thesis using e by (intro exI [of _ evs]) (auto simp: drop_guard_def)
  next
    case (Get k)
    then have e: "s' = ?s" "t = (?ts ! i)\<lparr>thr_prog := k ?s\<rparr>" using n by (auto simp: prog_next_def)
    have "safe i (\<Phi> i) (k ?s) ?hs ?s h" using sf r Get by simp
    then show ?thesis using e none by (intro exI [of _ "[]"]) simp
  next
    case (Put f p)
    then have e: "s' = f ?s" "t = (?ts ! i)\<lparr>thr_prog := p\<rparr>" using n by (auto simp: prog_next_def)
    obtain evs where "change i ?hs ?s h (f ?s) evs" "safe i (\<Phi> i) p ?hs (f ?s) (h @ evs)" using sf r Put by auto
    then show ?thesis using e by (intro exI [of _ evs]) simp
  qed
  then obtain evs where evs: "change i ?hs ?s h s' evs" "set (thr_held t) \<subseteq> set ?hs \<or> evs = [] \<and> s' = ?s"
    "\<And>l. tracked l \<Longrightarrow> (l, Exclusive) \<in> set ?hs \<Longrightarrow> (l, Exclusive) \<notin> set (thr_held t) \<Longrightarrow> same l s' (replay (h @ evs))"
    "safe i (\<Phi> i) (thr_prog t) (thr_held t) s' (h @ evs)" by blast
  have "same l ?s s'" if "j < length ?ts" "j \<noteq> i" "(l, m) \<in> set (thr_held (?ts ! j))" for j l m
  proof -
    have "(l, Exclusive) \<notin> set ?hs"
      using pool_exclusiveD [of c i j l m] inv i that by (auto simp: in_step_def)
    then show ?thesis using evs(1) by (simp add: change_def)
  qed
  then show ?thesis unfolding c' using step_invariant [OF inv i next_c evs] evs(1) by (intro exI [of _ evs]) (auto simp: change_def)
qed

lemma run_in_step:
  "pool_run admits c c' \<Longrightarrow> in_step \<Phi> c h \<Longrightarrow> \<exists>evs. in_step \<Phi> c' (h @ evs)"
proof (induction rule: pool_run.induct)
  case (Stay c)
  then show ?case by (intro exI [of _ "[]"]) simp
next
  case (Move c c1 i c2)
  then obtain evs where "in_step \<Phi> c1 (h @ evs)" by blast
  then obtain evs' where "in_step \<Phi> c2 ((h @ evs) @ evs')" using next_in_step Move(2) by blast
  then show ?case by (metis append.assoc)
qed

lemma start_in_step:
  assumes "\<And>i. i < length ps \<Longrightarrow> safe i (\<Phi> i) (ps ! i) [] (replay []) []"
  shows "in_step \<Phi> (pool_start (replay []) ps) []"
  using assms by (simp add: in_step_def pool_start_def pool_exclusive_def base_refl same_refl)

text \<open>While a thread holds a lock, no step of another changes what the lock protects.\<close>

lemma run_keeps:
  assumes "pool_run admits (pool_start (replay []) ps) c" "\<And>i. i < length ps \<Longrightarrow> safe i (\<Phi> i) (ps ! i) [] (replay []) []"
    and step: "pool_next admits c i = Some c'" and j: "j < length ps" "j \<noteq> i" "(l, m) \<in> set (thr_held (pool_threads c ! j))"
  shows "same l (pool_state c) (pool_state c')"
proof -
  have "in_step \<Phi> (pool_start (replay []) ps) []" by (rule start_in_step) (rule assms(2))
  then obtain h where h: "in_step \<Phi> c h" using run_in_step [OF assms(1)] by fastforce
  have "length (pool_threads c) = length ps" using run_length [OF assms(1)] by (simp add: pool_start_def)
  then show ?thesis using next_in_step [OF h step] j by fastforce
qed

text \<open>What a finished thread has established, and a thread without locks that takes up another program.\<close>

lemma in_step_result:
  assumes "in_step \<Phi> c h" "i < length (pool_threads c)" "thr_prog (pool_threads c ! i) = Return r"
  shows "\<Phi> i r h"
proof -
  have "safe i (\<Phi> i) (Return r) (thr_held (pool_threads c ! i)) (pool_state c) h" using assms by (metis in_step_def)
  then show ?thesis unfolding safe.simps using rely_self [OF in_step_sees [OF assms(1,2)]] by blast
qed

lemma install_in_step:
  assumes inv: "in_step \<Phi> c h" and held: "thr_held (pool_threads c ! i) = []" "thr_held t = []"
    and sf: "safe i (\<Phi>' i) (thr_prog t) [] (pool_state c) h" and same: "\<And>j. j \<noteq> i \<Longrightarrow> \<Phi>' j = \<Phi> j"
  shows "in_step \<Phi>' (c\<lparr>pool_threads := (pool_threads c)[i := t]\<rparr>) h"
proof -
  let ?ts = "pool_threads c"
  let ?ts' = "?ts[i := t]"
  have guards: "map thr_held ?ts' = map thr_held ?ts" using held by (metis list_update_id map_update)
  then have each: "thr_held (?ts' ! j) = thr_held (?ts ! j)" if "j < length ?ts" for j
    using that by (metis length_list_update nth_map)
  have nw: "nobody_writes d l \<longleftrightarrow> (\<forall>hs \<in> set (map thr_held (pool_threads d)). (l, Exclusive) \<notin> set hs)"
    for d :: "('l, 's, 'r) pool" and l by (simp add: nobody_writes_def)
  have threads: "pool_threads (c\<lparr>pool_threads := ?ts'\<rparr>) = ?ts'" by simp
  have nobody: "nobody_writes (c\<lparr>pool_threads := ?ts'\<rparr>) l \<longleftrightarrow> nobody_writes c l" for l unfolding nw threads guards ..
  have "safe j (\<Phi>' j) (thr_prog (?ts' ! j)) (thr_held (?ts' ! j)) (pool_state c) h" if "j < length ?ts" for j
  proof (cases "j = i")
    case True
    then show ?thesis using sf held that by simp
  next
    case False
    then show ?thesis using inv that same by (simp add: in_step_def)
  qed
  then show ?thesis using inv each nobody by (simp add: in_step_def pool_exclusive_def)
qed

declare safe.simps [simp del]

end

end
