(* ===== verification/GraphThreads.thy ===== *)
theory GraphThreads
  imports LockPool GraphRevision BfsPath
begin

text \<open>
  The graph operations (\<open>graph/store.rs\<close>, \<open>graph/bfs.rs\<close>) as threads run them: each lock, each
  read and each change a step of its own, in the order of the code. Guards are dropped in reverse
  order of their declaration. A \<open>DashMap\<close> has one lock per shard; which shard a key lives in is a
  parameter. \<open>conn\<close> is the connection mutex of the database, held by \<open>load_graph\<close> while it
  restores the graph. Programs are written in continuation style; \<open>k\<close> is what the caller does next.
\<close>

section \<open>Locks and their order\<close>

datatype graph_lock =
    ConnLock | MutationLock | FollowsLock | FollowersLock | PubkeysLock | MetadataLock | MutesLock
  | NamesShard nat | InternedShard nat

primrec lock_rank :: "graph_lock \<Rightarrow> nat" where
  "lock_rank ConnLock = 0"
| "lock_rank MutationLock = 1"
| "lock_rank FollowsLock = 2"
| "lock_rank FollowersLock = 3"
| "lock_rank PubkeysLock = 4"
| "lock_rank MetadataLock = 5"
| "lock_rank MutesLock = 6"
| "lock_rank (NamesShard n) = 7"
| "lock_rank (InternedShard n) = 8"

text \<open>The shards of \<open>pubkey_to_id\<close> and of the interner a key lives in.\<close>

record shards =
  names_shard :: "string \<Rightarrow> nat"
  interned_shard :: "string \<Rightarrow> nat"

type_synonym 'r graph_prog = "(graph_lock, wot_graph, 'r) prog"

section \<open>Calls\<close>

datatype graph_call =
    CallNode string
  | CallFollows string "string list" "string option" "int option"
  | CallMutes string "string list" "string option" "int option"
  | CallLoad "snapshot_node list option"
  | CallDatabase
  | AskDistance distance_query
  | AskPath path_query
  | AskFollowsPage string nat nat
  | AskMutesPage string nat nat
  | AskCommon string string
  | AskEvidence string string
  | AskFollows string
  | AskFollowers string
  | AskInfo string
  | AskStats

datatype graph_reply =
    NodeReply nat
  | WroteReply bool
  | LoadReply
  | DatabaseReply
  | DistanceReply "distance_result option"
  | PathReply "path_result option"
  | PageReply "(string list \<times> nat) option option"
  | CommonReply "string list option"
  | EvidenceReply "mute_evidence option"
  | NamesReply "string list option"
  | InfoReply "node_info option"
  | StatsReply graph_stats

section \<open>Writers\<close>

text \<open>A look-up in \<open>pubkey_to_id\<close>: the shard is locked while the entry is read.\<close>

definition names_prog :: "shards \<Rightarrow> string \<Rightarrow> (nat option \<Rightarrow> 'r graph_prog) \<Rightarrow> 'r graph_prog" where
  "names_prog sh pk k =
     Acquire (NamesShard (names_shard sh pk)) Shared
       (Get (\<lambda>g. Release (NamesShard (names_shard sh pk)) (k (pubkey_to_id g pk))))"

definition allocate_arc :: "wot_graph \<Rightarrow> wot_graph" where
  "allocate_arc g = g\<lparr>interner := (interner g)\<lparr>next_ptr := Suc (next_ptr (interner g))\<rparr>\<rparr>"

definition insert_arc :: "arc \<Rightarrow> wot_graph \<Rightarrow> wot_graph" where
  "insert_arc a g = g\<lparr>interner := interner_or_insert (interner g) a\<rparr>"

definition interned_prog :: "shards \<Rightarrow> string \<Rightarrow> (arc option \<Rightarrow> 'r graph_prog) \<Rightarrow> 'r graph_prog" where
  "interned_prog sh s k =
     Acquire (InternedShard (interned_shard sh s)) Shared
       (Get (\<lambda>g. Release (InternedShard (interned_shard sh s)) (k (interner_get (interner g) s))))"

definition intern_prog :: "shards \<Rightarrow> string \<Rightarrow> (arc \<Rightarrow> 'r graph_prog) \<Rightarrow> 'r graph_prog" where
  "intern_prog sh s k =
     interned_prog sh s (\<lambda>found. case found of
         Some e \<Rightarrow> k e
       | None \<Rightarrow>
           Get (\<lambda>g. let a = \<lparr>arc_ptr = next_ptr (interner g), arc_str = s\<rparr> in
             Put allocate_arc
              (Acquire (InternedShard (interned_shard sh s)) Exclusive
                (Put (insert_arc a)
                  (Release (InternedShard (interned_shard sh s))
                    (interned_prog sh s (\<lambda>now. k (case now of Some e \<Rightarrow> e | None \<Rightarrow> a))))))))"

definition release_tables :: "'r graph_prog \<Rightarrow> 'r graph_prog" where
  "release_tables p = Release MetadataLock (Release PubkeysLock (Release FollowersLock (Release FollowsLock p)))"

definition push_tables :: "arc \<Rightarrow> 'r graph_prog \<Rightarrow> 'r graph_prog" where
  "push_tables a p =
     Put (\<lambda>g. g\<lparr>id_to_pubkey := id_to_pubkey g @ [arc_str a]\<rparr>)
      (Put (\<lambda>g. g\<lparr>follows := follows g @ [[]]\<rparr>)
        (Put (\<lambda>g. g\<lparr>followers := followers g @ [[]]\<rparr>)
          (Put (\<lambda>g. g\<lparr>node_infos := node_infos g @ [None]\<rparr>) p)))"

definition set_name :: "string \<Rightarrow> nat \<Rightarrow> wot_graph \<Rightarrow> wot_graph" where
  "set_name s nid g = g\<lparr>pubkey_to_id := (pubkey_to_id g)(s \<mapsto> nid)\<rparr>"

text \<open>\<open>get_or_create_node_locked\<close>: the caller holds \<open>mutation\<close>.\<close>

definition create_prog :: "shards \<Rightarrow> string \<Rightarrow> (nat \<Rightarrow> 'r graph_prog) \<Rightarrow> 'r graph_prog" where
  "create_prog sh pk k =
     names_prog sh pk (\<lambda>known. case known of
         Some nid \<Rightarrow> k nid
       | None \<Rightarrow>
           Acquire FollowsLock Exclusive (Acquire FollowersLock Exclusive
            (Acquire PubkeysLock Exclusive (Acquire MetadataLock Exclusive
              (names_prog sh pk (\<lambda>again. case again of
                  Some nid \<Rightarrow> release_tables (k nid)
                | None \<Rightarrow>
                    intern_prog sh pk (\<lambda>a.
                      Get (\<lambda>g. let nid = as_u32 (length (id_to_pubkey g)) in
                        push_tables a
                         (Acquire (NamesShard (names_shard sh (arc_str a))) Exclusive
                           (Put (set_name (arc_str a) nid)
                             (Release (NamesShard (names_shard sh (arc_str a)))
                               (Put bump (release_tables (k nid)))))))))))))) "

fun creates_prog :: "shards \<Rightarrow> string list \<Rightarrow> (nat list \<Rightarrow> 'r graph_prog) \<Rightarrow> 'r graph_prog" where
  "creates_prog sh [] k = k []"
| "creates_prog sh (pk # pks) k = create_prog sh pk (\<lambda>nid. creates_prog sh pks (\<lambda>ids. k (nid # ids)))"

definition node_prog :: "shards \<Rightarrow> string \<Rightarrow> (nat \<Rightarrow> 'r graph_prog) \<Rightarrow> 'r graph_prog" where
  "node_prog sh pk k =
     names_prog sh pk (\<lambda>known. case known of
         Some nid \<Rightarrow> k nid
       | None \<Rightarrow> Acquire MutationLock Exclusive (create_prog sh pk (\<lambda>nid. Release MutationLock (k nid))))"

text \<open>The write section of \<open>update_follows\<close>, after the difference has been computed.\<close>

definition replace_prog :: "nat \<Rightarrow> nat list \<Rightarrow> 'r graph_prog \<Rightarrow> 'r graph_prog" where
  "replace_prog node_id new_follow_ids p =
     Acquire FollowsLock Shared (Get (\<lambda>g. Release FollowsLock
       (let old_follow_ids = (case index (follows g) node_id of Some l \<Rightarrow> l | None \<Rightarrow> []);
            (to_remove, to_add) = diff_sorted old_follow_ids new_follow_ids;
            edges_changed = (to_remove \<noteq> [] \<or> to_add \<noteq> []);
            unlock = Release FollowersLock (Release FollowsLock p)
        in Acquire FollowsLock Exclusive (Acquire FollowersLock Exclusive
            (Put (\<lambda>g. g\<lparr>followers := fold (remove_follower node_id) to_remove (followers g)\<rparr>)
              (Put (\<lambda>g. g\<lparr>follows := (follows g)[node_id := new_follow_ids]\<rparr>)
                (Put (\<lambda>g. g\<lparr>followers := fold (add_follower node_id) to_add (followers g)\<rparr>)
                  (if edges_changed then Put bump unlock else unlock))))))))"

definition follows_prog ::
    "shards \<Rightarrow> string \<Rightarrow> string list \<Rightarrow> string option \<Rightarrow> int option \<Rightarrow> (bool \<Rightarrow> 'r graph_prog) \<Rightarrow> 'r graph_prog" where
  "follows_prog sh pubkey follow_pubkeys event_id created_at k =
     Acquire MutationLock Exclusive
      (create_prog sh pubkey (\<lambda>node_id.
        Acquire MetadataLock Shared (Get (\<lambda>g. Release MetadataLock
          (if (case index (node_infos g) node_id of
                 Some (Some info) \<Rightarrow>
                   \<not> accepts_event (kind3_created_at info) (kind3_event_id info) created_at event_id
               | _ \<Rightarrow> False)
           then Release MutationLock (k False)
           else creates_prog sh follow_pubkeys (\<lambda>ids.
             replace_prog node_id (sort_dedup ids)
              (Acquire MetadataLock Exclusive
                (Put (set_node_info node_id \<lparr>kind3_event_id = event_id, kind3_created_at = created_at\<rparr>)
                  (Release MetadataLock (Release MutationLock (k True)))))))))))"

definition set_mutes :: "nat \<Rightarrow> mute_list \<Rightarrow> wot_graph \<Rightarrow> wot_graph" where
  "set_mutes node_id l g = g\<lparr>mutes := AList.update node_id l (mutes g)\<rparr>"

definition mutes_prog ::
    "shards \<Rightarrow> string \<Rightarrow> string list \<Rightarrow> string option \<Rightarrow> int option \<Rightarrow> (bool \<Rightarrow> 'r graph_prog) \<Rightarrow> 'r graph_prog" where
  "mutes_prog sh pubkey mute_pubkeys event_id created_at k =
     Acquire MutationLock Exclusive
      (create_prog sh pubkey (\<lambda>node_id.
        Acquire MutesLock Shared (Get (\<lambda>g. Release MutesLock
          (if (case map_of (mutes g) node_id of
                 Some old \<Rightarrow> \<not> accepts_event (mute_created_at old) (mute_event_id old) created_at event_id
               | None \<Rightarrow> False)
           then Release MutationLock (k False)
           else creates_prog sh mute_pubkeys (\<lambda>ids.
             Acquire MutesLock Exclusive
              (Put (set_mutes node_id \<lparr>mute_ids = sort_dedup ids, mute_event_id = event_id, mute_created_at = created_at\<rparr>)
                (Put bump (Release MutesLock (Release MutationLock (k True)))))))))))"

text \<open>
  \<open>restore_nodes\<close>: the merge and the rebuild of the followers, under four locks. A validated snapshot
  causes no panic; the merge is one change here.
\<close>

definition restore_tail :: "nat list \<Rightarrow> snapshot_node list \<Rightarrow> wot_graph \<Rightarrow> wot_graph" where
  "restore_tail ids nodes g =
     (case restore_loop ids (zip ids nodes) (g, False, False) of
        None \<Rightarrow> g
      | Some (g2, topology_changed, mutes_changed) \<Rightarrow>
          (case (if topology_changed
                 then rebuild_followers 0 (follows g2) (map (\<lambda>_. []) (followers g2))
                 else Some (followers g2)) of
             None \<Rightarrow> g
           | Some fls \<Rightarrow>
               let g3 = g2\<lparr>followers := fls\<rparr> in if topology_changed \<or> mutes_changed then bump g3 else g3))"

definition restore_prog :: "shards \<Rightarrow> snapshot_node list \<Rightarrow> 'r graph_prog \<Rightarrow> 'r graph_prog" where
  "restore_prog sh nodes p =
     Acquire MutationLock Exclusive
      (creates_prog sh (map snap_pubkey nodes) (\<lambda>ids.
        Acquire FollowsLock Exclusive (Acquire FollowersLock Exclusive
         (Acquire MetadataLock Exclusive (Acquire MutesLock Exclusive
           (Put (restore_tail ids nodes)
             (Release MutesLock (Release MetadataLock (Release FollowersLock (Release FollowsLock
               (Release MutationLock p)))))))))))"

text \<open>\<open>load_graph\<close>: \<open>None\<close> when the tables were refused, before the graph is touched.\<close>

definition load_prog :: "shards \<Rightarrow> snapshot_node list option \<Rightarrow> 'r graph_prog \<Rightarrow> 'r graph_prog" where
  "load_prog sh snapshot p =
     Acquire ConnLock Exclusive
      (case snapshot of
         None \<Rightarrow> Release ConnLock p
       | Some nodes \<Rightarrow> restore_prog sh nodes (Release ConnLock p))"

section \<open>Readers\<close>

text \<open>Locals declared in the order follows, pubkeys are dropped in reverse.\<close>

definition read_follows :: "(wot_graph \<Rightarrow> 'a) \<Rightarrow> ('a \<Rightarrow> 'r graph_prog) \<Rightarrow> 'r graph_prog" where
  "read_follows f k =
     Acquire FollowsLock Shared (Acquire PubkeysLock Shared
      (Get (\<lambda>g. Release PubkeysLock (Release FollowsLock (k (f g))))))"

definition follows_page_prog ::
    "shards \<Rightarrow> string \<Rightarrow> nat \<Rightarrow> nat \<Rightarrow> ((string list \<times> nat) option option \<Rightarrow> 'r graph_prog) \<Rightarrow> 'r graph_prog" where
  "follows_page_prog sh pk offset limit k =
     names_prog sh pk (\<lambda>found. case found of
         None \<Rightarrow> k (Some None)
       | Some nid \<Rightarrow>
           read_follows (\<lambda>g. case index (follows g) nid of
               None \<Rightarrow> Some None
             | Some ids \<Rightarrow> map_option Some (page_of g ids offset limit)) k)"

definition mutes_page_prog ::
    "shards \<Rightarrow> string \<Rightarrow> nat \<Rightarrow> nat \<Rightarrow> ((string list \<times> nat) option option \<Rightarrow> 'r graph_prog) \<Rightarrow> 'r graph_prog" where
  "mutes_page_prog sh pk offset limit k =
     names_prog sh pk (\<lambda>found. case found of
         None \<Rightarrow> k (Some None)
       | Some nid \<Rightarrow>
           Acquire PubkeysLock Shared (Acquire MutesLock Shared (Get (\<lambda>g.
             Release MutesLock (Release PubkeysLock (k
              (case map_of (mutes g) nid of
                 None \<Rightarrow> Some None
               | Some l \<Rightarrow> map_option Some (page_of g (mute_ids l) offset limit))))))))"

definition common_prog ::
    "shards \<Rightarrow> string \<Rightarrow> string \<Rightarrow> (string list option \<Rightarrow> 'r graph_prog) \<Rightarrow> 'r graph_prog" where
  "common_prog sh from to k =
     names_prog sh from (\<lambda>f. names_prog sh to (\<lambda>t. case (f, t) of
         (Some f, Some t) \<Rightarrow>
           read_follows (\<lambda>g. case (index (follows g) f, index (follows g) t) of
               (Some a, Some b) \<Rightarrow> collect_all (index (id_to_pubkey g)) (intersect_sorted a b)
             | _ \<Rightarrow> None) k
       | _ \<Rightarrow> k (Some [])))"

text \<open>The body of \<open>mute_evidence\<close> for the two ids it has looked up.\<close>

definition evidence_of_ids :: "wot_graph \<Rightarrow> nat option \<Rightarrow> nat option \<Rightarrow> mute_evidence option" where
  "evidence_of_ids g from to =
     (case (case from of
              None \<Rightarrow> Some []
            | Some f \<Rightarrow>
                (case index (follows g) f of
                   None \<Rightarrow> None
                 | Some fs \<Rightarrow>
                     collect_all (index (id_to_pubkey g)) (filter (\<lambda>i. has_mute_edge g (Some i) to) fs))) of
        None \<Rightarrow> None
      | Some muters \<Rightarrow>
          Some \<lparr>source_mutes_target = has_mute_edge g from to,
                target_mutes_source = has_mute_edge g to from,
                followed_muters = muters,
                source_mute_list_known = mute_list_known g from,
                target_mute_list_known = mute_list_known g to\<rparr>)"

definition evidence_prog ::
    "shards \<Rightarrow> string \<Rightarrow> string \<Rightarrow> (mute_evidence option \<Rightarrow> 'r graph_prog) \<Rightarrow> 'r graph_prog" where
  "evidence_prog sh from to k =
     names_prog sh from (\<lambda>f. names_prog sh to (\<lambda>t.
       Acquire FollowsLock Shared (Acquire PubkeysLock Shared (Acquire MutesLock Shared (Get (\<lambda>g.
         Release MutesLock (Release PubkeysLock (Release FollowsLock (k (evidence_of_ids g f t))))))))))"

definition get_follows_prog :: "shards \<Rightarrow> string \<Rightarrow> (string list option \<Rightarrow> 'r graph_prog) \<Rightarrow> 'r graph_prog" where
  "get_follows_prog sh pk k =
     names_prog sh pk (\<lambda>found. case found of
         None \<Rightarrow> k None
       | Some nid \<Rightarrow> read_follows (\<lambda>g. map_option (resolve_pubkeys_arc g) (index (follows g) nid)) k)"

definition get_followers_prog :: "shards \<Rightarrow> string \<Rightarrow> (string list option \<Rightarrow> 'r graph_prog) \<Rightarrow> 'r graph_prog" where
  "get_followers_prog sh pk k =
     names_prog sh pk (\<lambda>found. case found of
         None \<Rightarrow> k None
       | Some nid \<Rightarrow>
           Acquire FollowersLock Shared (Acquire PubkeysLock Shared (Get (\<lambda>g.
             Release PubkeysLock (Release FollowersLock (k
               (map_option (resolve_pubkeys_arc g) (index (followers g) nid))))))))"

definition node_info_prog :: "shards \<Rightarrow> string \<Rightarrow> (node_info option \<Rightarrow> 'r graph_prog) \<Rightarrow> 'r graph_prog" where
  "node_info_prog sh pk k =
     names_prog sh pk (\<lambda>found. case found of
         None \<Rightarrow> k None
       | Some nid \<Rightarrow>
           Acquire MetadataLock Shared (Get (\<lambda>g. Release MetadataLock (k
             (case index (node_infos g) nid of Some info \<Rightarrow> info | None \<Rightarrow> None)))))"

text \<open>\<open>stats\<close> takes the mute lists after it has counted the follow lists.\<close>

definition stats_prog :: "(graph_stats \<Rightarrow> 'r graph_prog) \<Rightarrow> 'r graph_prog" where
  "stats_prog k =
     Acquire FollowsLock Shared (Acquire PubkeysLock Shared (Get (\<lambda>g.
       Acquire MutesLock Shared (Get (\<lambda>g'.
         Release MutesLock (Release PubkeysLock (Release FollowsLock (k
          \<lparr>stat_node_count = length (id_to_pubkey g),
           stat_edge_count = sum_list (map length (follows g)),
           stat_nodes_with_follows = length (filter (\<lambda>l. l \<noteq> []) (follows g)),
           stat_mute_edge_count = sum_list (map (\<lambda>(_, l). length (mute_ids l)) (mutes g')),
           stat_nodes_with_mute_lists = length (mutes g')\<rparr>))))))))"

section \<open>Searches\<close>

definition release_adjacency :: "'r graph_prog \<Rightarrow> 'r graph_prog" where
  "release_adjacency p = Release FollowersLock (Release FollowsLock p)"

definition with_adjacency_prog :: "(wot_graph \<Rightarrow> 'r graph_prog) \<Rightarrow> 'r graph_prog" where
  "with_adjacency_prog body = Acquire FollowsLock Shared (Acquire FollowersLock Shared (Get body))"

definition resolve_prog :: "nat list \<Rightarrow> (string list \<Rightarrow> 'r graph_prog) \<Rightarrow> 'r graph_prog" where
  "resolve_prog ids k = Acquire PubkeysLock Shared (Get (\<lambda>g. Release PubkeysLock (k (resolve_pubkeys_arc g ids))))"

text \<open>The end of the search; bridges are resolved while both adjacency locks are held.\<close>

definition finish_prog ::
    "nat \<Rightarrow> nat \<Rightarrow> nat \<Rightarrow> bool \<Rightarrow> bool \<Rightarrow> string \<Rightarrow> string \<Rightarrow> bfs_search \<Rightarrow>
     (distance_result \<Rightarrow> 'r graph_prog) \<Rightarrow> 'r graph_prog" where
  "finish_prog from_id to_id max_hops include_bridges mutual from_arc to_arc s k =
     (case best_distance s of
        Some h \<Rightarrow>
          if h \<le> max_hops then
            let r = \<lparr>dr_from = from_arc, dr_to = to_arc, hops = Some h, path_count = total_paths (meeting_nodes s),
                     mutual_follow = mutual, bridges = None\<rparr>
            in if include_bridges
               then resolve_prog (snd (collect_bridges from_id to_id (meeting_nodes s) (bridge_set s, bridge_ids s)))
                      (\<lambda>names. k (r\<lparr>bridges := Some names\<rparr>))
               else k r
          else k (not_found from_arc to_arc)
      | None \<Rightarrow> k (not_found from_arc to_arc))"

text \<open>The closure \<open>compute_distance\<close> runs under both adjacency locks.\<close>

definition search_prog :: "distance_query \<Rightarrow> nat \<Rightarrow> nat \<Rightarrow> (distance_result option \<Rightarrow> 'r graph_prog) \<Rightarrow> 'r graph_prog" where
  "search_prog q from_id to_id k =
     with_adjacency_prog (\<lambda>g.
       let mutual = (is_direct (follows g) from_id to_id \<and> is_direct (follows g) to_id from_id) in
       if 0 < unat (dq_max_hops q) \<and> is_direct (follows g) from_id to_id then
         release_adjacency (k (Some
           \<lparr>dr_from = dq_from q, dr_to = dq_to q, hops = Some 1, path_count = 1, mutual_follow = mutual,
            bridges = (if dq_include_bridges q then Some [] else None)\<rparr>))
       else
         (case bfs_loop (follows g) (followers g) (unat (dq_max_hops q))
                 (start_search (bfs_clear bfs_state_new) from_id to_id) of
            None \<Rightarrow> release_adjacency (k None)
          | Some s \<Rightarrow>
              finish_prog from_id to_id (unat (dq_max_hops q)) (dq_include_bridges q) mutual
                (dq_from q) (dq_to q) s (\<lambda>r. release_adjacency (k (Some r)))))"

definition distance_prog ::
    "shards \<Rightarrow> distance_query \<Rightarrow> (distance_result option \<Rightarrow> 'r graph_prog) \<Rightarrow> 'r graph_prog" where
  "distance_prog sh q k =
     (if dq_from q = dq_to q then names_prog sh (dq_from q) (\<lambda>_. k (Some (same_node (dq_from q))))
      else
        names_prog sh (dq_from q) (\<lambda>f. case f of
            None \<Rightarrow> k (Some (not_found (dq_from q) (dq_to q)))
          | Some from_id \<Rightarrow>
              names_prog sh (dq_to q) (\<lambda>t. case t of
                  None \<Rightarrow> k (Some (not_found (dq_from q) (dq_to q)))
                | Some to_id \<Rightarrow> search_prog q from_id to_id k)))"

definition path_answer :: "path_query \<Rightarrow> string list option \<Rightarrow> path_result" where
  "path_answer q path = \<lparr>pr_from = pq_from q, pr_to = pq_to q, pr_path = path\<rparr>"

definition path_search_prog :: "path_query \<Rightarrow> nat \<Rightarrow> nat \<Rightarrow> (path_result option \<Rightarrow> 'r graph_prog) \<Rightarrow> 'r graph_prog" where
  "path_search_prog q from_id to_id k =
     with_adjacency_prog (\<lambda>g.
       if 0 < unat (pq_max_hops q) \<and> is_direct (follows g) from_id to_id
       then release_adjacency (k (Some (path_answer q (Some []))))
       else
         (case path_loop (follows g) (followers g) (unat (pq_max_hops q))
                 (path_side_new from_id, path_side_new to_id, None) of
            None \<Rightarrow> release_adjacency (k None)
          | Some (F, B, None) \<Rightarrow> release_adjacency (k (Some (path_answer q None)))
          | Some (F, B, Some meet) \<Rightarrow>
              (case trace_path from_id to_id F B meet of
                 None \<Rightarrow> release_adjacency (k None)
               | Some ids \<Rightarrow>
                   resolve_prog ids (\<lambda>names. release_adjacency (k (Some (path_answer q (Some names))))))))"

definition path_prog ::
    "shards \<Rightarrow> path_query \<Rightarrow> (path_result option \<Rightarrow> 'r graph_prog) \<Rightarrow> 'r graph_prog" where
  "path_prog sh q k =
     (if pq_from q = pq_to q then names_prog sh (pq_from q) (\<lambda>_. k (Some (path_answer q (Some []))))
      else
        names_prog sh (pq_from q) (\<lambda>f. case f of
            None \<Rightarrow> k (Some (path_answer q None))
          | Some from_id \<Rightarrow>
              names_prog sh (pq_to q) (\<lambda>t. case t of
                  None \<Rightarrow> k (Some (path_answer q None))
                | Some to_id \<Rightarrow> path_search_prog q from_id to_id k)))"

section \<open>A thread\<close>

fun call_prog :: "shards \<Rightarrow> graph_call \<Rightarrow> (graph_reply \<Rightarrow> 'r graph_prog) \<Rightarrow> 'r graph_prog" where
  "call_prog sh (CallNode pk) k = node_prog sh pk (\<lambda>i. k (NodeReply i))"
| "call_prog sh (CallFollows a l e t) k = follows_prog sh a l e t (\<lambda>b. k (WroteReply b))"
| "call_prog sh (CallMutes a l e t) k = mutes_prog sh a l e t (\<lambda>b. k (WroteReply b))"
| "call_prog sh (CallLoad snapshot) k = load_prog sh snapshot (k LoadReply)"
| "call_prog sh CallDatabase k = Acquire ConnLock Exclusive (Release ConnLock (k DatabaseReply))"
| "call_prog sh (AskDistance q) k = distance_prog sh q (\<lambda>r. k (DistanceReply r))"
| "call_prog sh (AskPath q) k = path_prog sh q (\<lambda>r. k (PathReply r))"
| "call_prog sh (AskFollowsPage pk offset limit) k = follows_page_prog sh pk offset limit (\<lambda>r. k (PageReply r))"
| "call_prog sh (AskMutesPage pk offset limit) k = mutes_page_prog sh pk offset limit (\<lambda>r. k (PageReply r))"
| "call_prog sh (AskCommon a b) k = common_prog sh a b (\<lambda>r. k (CommonReply r))"
| "call_prog sh (AskEvidence a b) k = evidence_prog sh a b (\<lambda>r. k (EvidenceReply r))"
| "call_prog sh (AskFollows pk) k = get_follows_prog sh pk (\<lambda>r. k (NamesReply r))"
| "call_prog sh (AskFollowers pk) k = get_followers_prog sh pk (\<lambda>r. k (NamesReply r))"
| "call_prog sh (AskInfo pk) k = node_info_prog sh pk (\<lambda>r. k (InfoReply r))"
| "call_prog sh AskStats k = stats_prog (\<lambda>r. k (StatsReply r))"

text \<open>A thread makes calls one after the other and collects the replies.\<close>

fun calls_prog :: "shards \<Rightarrow> graph_call list \<Rightarrow> graph_reply list \<Rightarrow> graph_reply list graph_prog" where
  "calls_prog sh [] rs = Return rs"
| "calls_prog sh (c # cs) rs = call_prog sh c (\<lambda>r. calls_prog sh cs (rs @ [r]))"

definition graph_pool ::
    "shards \<Rightarrow> wot_graph \<Rightarrow> graph_call list list \<Rightarrow> (graph_lock, wot_graph, graph_reply list) pool" where
  "graph_pool sh g css = pool_start g (map (\<lambda>cs. calls_prog sh cs []) css)"

section \<open>Every call takes its locks in ascending order\<close>

definition below :: "nat \<Rightarrow> graph_lock guards \<Rightarrow> bool" where
  "below n hs \<longleftrightarrow> (\<forall>h \<in> set hs. lock_rank (fst h) < n)"

lemma below_simps [simp]:
  "below n []" "below n ((l, m) # hs) \<longleftrightarrow> lock_rank l < n \<and> below n hs"
  by (auto simp: below_def)

lemma below_mono: "below n hs \<Longrightarrow> n \<le> n' \<Longrightarrow> below n' hs"
  by (fastforce simp: below_def)

lemma below_drop: "below n hs \<Longrightarrow> n \<le> lock_rank l \<Longrightarrow> drop_guard l hs = hs"
  by (fastforce simp: below_def drop_guard_def filter_id_conv)

lemma drop_guard_Cons [simp]: "drop_guard l ((l', m) # hs) = (if l' = l then drop_guard l hs else (l', m) # drop_guard l hs)"
  by (simp add: drop_guard_def)

lemma drop_guard_Nil [simp]: "drop_guard l [] = []"
  by (simp add: drop_guard_def)

abbreviation ok :: "'r graph_prog \<Rightarrow> graph_lock guards \<Rightarrow> bool" where
  "ok \<equiv> ordered lock_rank"

lemma ok_Acquire [simp]: "ok (Acquire l m p) hs \<longleftrightarrow> below (lock_rank l) hs \<and> ok p ((l, m) # hs)"
  by (simp add: below_def)

declare ordered.simps(2) [simp del]

lemma ok_names [simp]: "below 7 hs \<Longrightarrow> (\<And>x. ok (k x) hs) \<Longrightarrow> ok (names_prog sh pk k) hs"
  by (simp add: names_prog_def below_drop [of 7])

lemma ok_interned [simp]: "below 8 hs \<Longrightarrow> (\<And>x. ok (k x) hs) \<Longrightarrow> ok (interned_prog sh s k) hs"
  by (simp add: interned_prog_def below_drop [of 8])

lemma ok_intern [simp]: "below 8 hs \<Longrightarrow> (\<And>x. ok (k x) hs) \<Longrightarrow> ok (intern_prog sh s k) hs"
  by (simp add: intern_prog_def below_drop [of 8] Let_def split: option.split)

text \<open>Nodes are created under \<open>mutation\<close>, below it possibly the connection.\<close>

definition writer_guards :: "graph_lock guards \<Rightarrow> bool" where
  "writer_guards hs \<longleftrightarrow> hs = [(MutationLock, Exclusive)] \<or> hs = [(MutationLock, Exclusive), (ConnLock, Exclusive)]"

lemma writer_guards_simps [simp]:
  "writer_guards [(MutationLock, Exclusive)]" "writer_guards [(MutationLock, Exclusive), (ConnLock, Exclusive)]"
  by (simp_all add: writer_guards_def)

lemma writer_guardsE:
  assumes "writer_guards hs" "P [(MutationLock, Exclusive)]" "P [(MutationLock, Exclusive), (ConnLock, Exclusive)]"
  shows "P hs"
  using assms unfolding writer_guards_def by blast

lemma ok_create [simp]: "writer_guards hs \<Longrightarrow> (\<And>x. ok (k x) hs) \<Longrightarrow> ok (create_prog sh pk k) hs"
  by (erule writer_guardsE [where P = "\<lambda>hs. (\<forall>x. ok (k x) hs) \<longrightarrow> ok (create_prog sh pk k) hs", rule_format];
      simp add: create_prog_def release_tables_def push_tables_def Let_def split: option.split)

lemma ok_creates [simp]: "writer_guards hs \<Longrightarrow> (\<And>ids. ok (k ids) hs) \<Longrightarrow> ok (creates_prog sh pks k) hs"
  by (induction pks arbitrary: k) simp_all

lemma ok_node: "(\<And>x. ok (k x) []) \<Longrightarrow> ok (node_prog sh pk k) []"
  by (simp add: node_prog_def split: option.split)

lemma ok_replace [simp]:
  "ok p [(MutationLock, Exclusive)] \<Longrightarrow> ok (replace_prog nid new p) [(MutationLock, Exclusive)]"
  by (simp add: replace_prog_def Let_def split: prod.split)

lemma ok_follows: "(\<And>x. ok (k x) []) \<Longrightarrow> ok (follows_prog sh a l e t k) []"
  by (simp add: follows_prog_def)

lemma ok_mutes: "(\<And>x. ok (k x) []) \<Longrightarrow> ok (mutes_prog sh a l e t k) []"
  by (simp add: mutes_prog_def)

lemma ok_restore [simp]:
  "ok p [(ConnLock, Exclusive)] \<Longrightarrow> ok (restore_prog sh nodes p) [(ConnLock, Exclusive)]"
  by (simp add: restore_prog_def)

lemma ok_load: "ok p [] \<Longrightarrow> ok (load_prog sh snapshot p) []"
  by (simp add: load_prog_def split: option.split)

lemma ok_readers:
  assumes "\<And>x. ok (k x) []"
  shows "ok (follows_page_prog sh pk offset limit (\<lambda>r. k (PageReply r))) []"
    "ok (mutes_page_prog sh pk offset limit (\<lambda>r. k (PageReply r))) []"
    "ok (common_prog sh a b (\<lambda>r. k (CommonReply r))) []" "ok (evidence_prog sh a b (\<lambda>r. k (EvidenceReply r))) []"
    "ok (get_follows_prog sh pk (\<lambda>r. k (NamesReply r))) []" "ok (get_followers_prog sh pk (\<lambda>r. k (NamesReply r))) []"
    "ok (node_info_prog sh pk (\<lambda>r. k (InfoReply r))) []" "ok (stats_prog (\<lambda>r. k (StatsReply r))) []"
  using assms
  by (simp_all add: follows_page_prog_def mutes_page_prog_def common_prog_def evidence_prog_def get_follows_prog_def
      get_followers_prog_def node_info_prog_def stats_prog_def read_follows_def split: option.split)

lemma ok_resolve:
  "(\<And>x. ok (k x) [(FollowersLock, m), (FollowsLock, m')]) \<Longrightarrow> ok (resolve_prog ids k) [(FollowersLock, m), (FollowsLock, m')]"
  by (simp add: resolve_prog_def)

lemma ok_release_adjacency: "ok p [] \<Longrightarrow> ok (release_adjacency p) [(FollowersLock, m), (FollowsLock, m')]"
  by (simp add: release_adjacency_def)

lemma ok_with_adjacency:
  "(\<And>g. ok (body g) [(FollowersLock, Shared), (FollowsLock, Shared)]) \<Longrightarrow> ok (with_adjacency_prog body) []"
  by (simp add: with_adjacency_prog_def)

lemma ok_finish:
  "(\<And>x. ok (k x) [(FollowersLock, m), (FollowsLock, m')]) \<Longrightarrow>
     ok (finish_prog i j n ib mu a b s k) [(FollowersLock, m), (FollowsLock, m')]"
  by (simp add: finish_prog_def Let_def ok_resolve split: option.split)

lemma ok_distance: "(\<And>x. ok (k x) []) \<Longrightarrow> ok (distance_prog sh q k) []"
  by (simp add: distance_prog_def search_prog_def Let_def ok_with_adjacency ok_release_adjacency ok_finish split: option.split)

lemma ok_path: "(\<And>x. ok (k x) []) \<Longrightarrow> ok (path_prog sh q k) []"
  by (simp add: path_prog_def path_search_prog_def Let_def ok_with_adjacency ok_release_adjacency ok_resolve split: option.split)

lemma ok_call: "(\<And>r. ok (k r) []) \<Longrightarrow> ok (call_prog sh c k) []"
  by (cases c) (auto intro: ok_node ok_follows ok_mutes ok_load ok_distance ok_path ok_readers)

lemma ok_calls: "ok (calls_prog sh cs rs) []"
  by (induction cs arbitrary: rs) (auto intro: ok_call)

lemma graph_pool_ordered: "pool_ordered lock_rank (graph_pool sh g css)"
  unfolding graph_pool_def by (rule pool_start_ordered) (auto intro: ok_calls)

end
