(* ===== verification/GraphMoments.thy ===== *)
theory GraphMoments
  imports LockLogic GraphThreads
begin

text \<open>
  Concurrent calls take effect one at a time. The writes of any number of threads, interleaved lock
  by lock, amount to a sequence of atomic writes (\<open>graph_write\<close>): creating a node is one, accepting a
  list is one. Each reply is the one the call gives, run alone, on the graph some prefix of that
  sequence leads to, and the prefixes follow the order of the calls of a thread. The instance of the
  logic is: what each lock protects, and the graph a history of writes leads to.
\<close>

section \<open>What the locks protect\<close>

fun same_lock :: "shards \<Rightarrow> graph_lock \<Rightarrow> wot_graph \<Rightarrow> wot_graph \<Rightarrow> bool" where
  "same_lock sh ConnLock g g' = True"
| "same_lock sh MutationLock g g' = (g = g')"
| "same_lock sh FollowsLock g g' = (follows g = follows g')"
| "same_lock sh FollowersLock g g' = (followers g = followers g')"
| "same_lock sh PubkeysLock g g' = (id_to_pubkey g = id_to_pubkey g')"
| "same_lock sh MetadataLock g g' = (node_infos g = node_infos g')"
| "same_lock sh MutesLock g g' = (mutes g = mutes g')"
| "same_lock sh (NamesShard n) g g' = (\<forall>pk. names_shard sh pk = n \<longrightarrow> pubkey_to_id g pk = pubkey_to_id g' pk)"
| "same_lock sh (InternedShard n) g g' =
     (filter (\<lambda>a. interned_shard sh (arc_str a) = n) (interned (interner g)) =
      filter (\<lambda>a. interned_shard sh (arc_str a) = n) (interned (interner g')))"

text \<open>
  The locks whose data agrees with the replayed writes whenever nobody holds them exclusively. The
  metadata is not among them: \<open>update_follows\<close> writes it after it has published the new list.
\<close>

definition tracked_lock :: "graph_lock \<Rightarrow> bool" where
  "tracked_lock l \<longleftrightarrow> l \<in> {MutationLock, FollowsLock, FollowersLock, PubkeysLock, MutesLock}"

definition same_ids :: "wot_graph \<Rightarrow> wot_graph \<Rightarrow> bool" where
  "same_ids g g' \<longleftrightarrow> pubkey_to_id g = pubkey_to_id g'"

definition apply_write :: "graph_write \<Rightarrow> wot_graph \<Rightarrow> wot_graph" where
  "apply_write w g = (case run_write w g of None \<Rightarrow> g | Some g' \<Rightarrow> g')"

definition replay :: "wot_graph \<Rightarrow> graph_write history \<Rightarrow> wot_graph" where
  "replay g0 h = fold (\<lambda>e. apply_write (snd e)) h g0"

lemma replay_simps [simp]:
  "replay g0 [] = g0" "replay g0 (h @ h') = replay (replay g0 h) h'"
  "replay g0 ((i, w) # h) = replay (apply_write w g0) h"
  by (simp_all add: replay_def)

interpretation lin: object_spec "same_lock sh" tracked_lock MutationLock same_ids "replay g0" for sh g0
proof
  show "same_lock sh l s s" for l s by (cases l) simp_all
  show "same_lock sh l s s' \<Longrightarrow> same_lock sh l s' s" for l s s' by (cases l) simp_all
  show "same_lock sh l s s' \<Longrightarrow> same_lock sh l s' s'' \<Longrightarrow> same_lock sh l s s''" for l s s' s'' by (cases l) simp_all
qed (simp_all add: tracked_lock_def same_ids_def)

section \<open>Writes on known names\<close>

text \<open>Every id of a name is within the tables, well-formed or not.\<close>

definition ids_in_range :: "wot_graph \<Rightarrow> bool" where
  "ids_in_range g \<longleftrightarrow> length (node_infos g) = node_count g \<and> (\<forall>pk i. pubkey_to_id g pk = Some i \<longrightarrow> i < node_count g)"

lemma graph_wf_in_range: "graph_wf g \<Longrightarrow> ids_in_range g"
  by (simp add: graph_wf_def ids_in_range_def names_wf_def)

text \<open>\<open>grown g g'\<close>: what every write keeps.\<close>

definition grown :: "wot_graph \<Rightarrow> wot_graph \<Rightarrow> bool" where
  "grown g g' \<longleftrightarrow> pubkey_to_id g \<subseteq>\<^sub>m pubkey_to_id g' \<and> (ids_in_range g \<longrightarrow> ids_in_range g')"

lemma grown_refl [simp]: "grown g g"
  by (simp add: grown_def)

lemma grown_trans: "grown g g1 \<Longrightarrow> grown g1 g2 \<Longrightarrow> grown g g2"
  unfolding grown_def using map_le_trans by blast

lemma grown_same: "pubkey_to_id g' = pubkey_to_id g \<Longrightarrow> node_count g' = node_count g \<Longrightarrow>
    length (node_infos g') = length (node_infos g) \<Longrightarrow> grown g g'"
  by (simp add: grown_def ids_in_range_def)

lemma create_grown: "get_or_create_node_locked g pk = (nid, g') \<Longrightarrow>
    grown g g' \<and> pubkey_to_id g' pk = Some nid \<and> (\<forall>i. i < length (node_infos g) \<longrightarrow> index (node_infos g') i = index (node_infos g) i) \<and>
    mutes g' = mutes g"
proof -
  assume c: "get_or_create_node_locked g pk = (nid, g')"
  show ?thesis
  proof (cases "pubkey_to_id g pk")
    case None
    have u: "as_u32 (node_count g) \<le> node_count g" by (simp add: as_u32_def)
    have "i < Suc (node_count g)" if "ids_in_range g" "((pubkey_to_id g)(pk \<mapsto> as_u32 (node_count g))) pk' = Some i" for pk' i
      using that u by (auto simp: ids_in_range_def less_Suc_eq split: if_splits)
    then show ?thesis using c None
      by (auto simp: locked_fresh grown_def ids_in_range_def bump_def map_le_def nth_append index_def)
  next
    case (Some i)
    then show ?thesis using c by (simp add: locked_known)
  qed
qed

lemma creates_grown: "get_or_create_nodes g pks = (ids, g') \<Longrightarrow>
    grown g g' \<and> (\<forall>pk \<in> set pks. pubkey_to_id g' pk \<noteq> None) \<and>
    (ids_in_range g \<longrightarrow> (\<forall>i<node_count g. index (node_infos g') i = index (node_infos g) i)) \<and> mutes g' = mutes g"
proof (induction pks arbitrary: g ids)
  case (Cons pk pks)
  obtain nid g1 where 1: "get_or_create_node_locked g pk = (nid, g1)" by fastforce
  obtain ids' where 2: "get_or_create_nodes g1 pks = (ids', g')" using Cons.prems 1 by (auto split: prod.splits)
  note a = create_grown [OF 1] and b = Cons.IH [OF 2]
  have "pubkey_to_id g' pk \<noteq> None" using a b by (auto simp: grown_def map_le_def dom_def)
  moreover have "node_count g \<le> node_count g1" using 1 by (cases rule: locked_extends) (auto simp: extends_def)
  ultimately show ?case using a b grown_trans [of g g1 g'] by (auto simp: grown_def ids_in_range_def)
qed simp

text \<open>Creating known names changes nothing.\<close>

lemma creates_known:
  "\<forall>pk \<in> set pks. pubkey_to_id g pk \<noteq> None \<Longrightarrow>
     get_or_create_nodes g pks = (map (\<lambda>pk. the (pubkey_to_id g pk)) pks, g)"
  by (induction pks) (auto simp: locked_known)

lemma creates_ids:
  "get_or_create_nodes g pks = (ids, g') \<Longrightarrow> ids = map (\<lambda>pk. the (pubkey_to_id g' pk)) pks"
proof (induction pks arbitrary: g ids)
  case (Cons pk pks)
  obtain nid g1 where 1: "get_or_create_node_locked g pk = (nid, g1)" by fastforce
  obtain ids' where 2: "get_or_create_nodes g1 pks = (ids', g')" using Cons.prems 1 by (auto split: prod.splits)
  have "pubkey_to_id g1 pk = Some nid" "grown g1 g'" using create_grown [OF 1] creates_grown [OF 2] by simp_all
  then have "pubkey_to_id g' pk = Some nid" by (auto simp: grown_def map_le_def dom_def)
  then show ?case using Cons.IH [OF 2] Cons.prems 1 2 by simp
qed simp

lemma restore_loop_grown:
  "restore_loop ids work (g, tc, mc) = Some (g', tc', mc') \<Longrightarrow>
     pubkey_to_id g' = pubkey_to_id g \<and> node_count g' = node_count g \<and> length (node_infos g') = length (node_infos g)"
proof (induction work arbitrary: g tc mc)
  case (Cons w work)
  obtain nid node where w: "w = (nid, node)" by (cases w)
  then obtain g1 tc1 mc1 g2 tc2 mc2 where s: "restore_follows ids nid node (g, tc, mc) = Some (g1, tc1, mc1)"
    "restore_mutes ids nid node (g1, tc1, mc1) = Some (g2, tc2, mc2)"
    "restore_loop ids work (g2, tc2, mc2) = Some (g', tc', mc')"
    using Cons.prems by (auto split: option.splits)
  have "pubkey_to_id g1 = pubkey_to_id g \<and> node_count g1 = node_count g \<and> length (node_infos g1) = length (node_infos g)"
    using s(1) by (auto simp: restore_follows_def Let_def split: option.splits if_splits)
  moreover have "pubkey_to_id g2 = pubkey_to_id g1 \<and> node_count g2 = node_count g1 \<and> length (node_infos g2) = length (node_infos g1)"
    using s(2) by (auto simp: restore_mutes_def Let_def split: option.splits if_splits)
  ultimately show ?case using Cons.IH [OF s(3)] by simp
qed simp

lemma write_grown: "grown g (apply_write w g)"
proof (cases w)
  case (WriteNode pk)
  then show ?thesis
    using create_grown [of g pk "fst (get_or_create_node_locked g pk)" "snd (get_or_create_node_locked g pk)"]
    by (simp add: apply_write_def get_or_create_node_eq)
next
  case (WriteFollows a l e t)
  obtain nid g1 where 1: "get_or_create_node_locked g a = (nid, g1)" by fastforce
  obtain ids g2 where 2: "get_or_create_nodes g1 l = (ids, g2)" by fastforce
  note b = create_grown [OF 1] creates_grown [OF 2]
  have g2: "grown g g2" "grown g g1" using b grown_trans by blast+
  have "grown g2 (set_node_info nid x (replace_follows nid (sort_dedup ids) g2))" for x
    by (rule grown_same) (auto simp: set_node_info_def replace_follows_def Let_def bump_def split: prod.split)
  then show ?thesis
    using WriteFollows 1 2 grown_trans [OF g2(1)] g2(2) by (auto simp: apply_write_def update_follows_def Let_def)
next
  case (WriteMutes a l e t)
  obtain nid g1 where 1: "get_or_create_node_locked g a = (nid, g1)" by fastforce
  obtain ids g2 where 2: "get_or_create_nodes g1 l = (ids, g2)" by fastforce
  note b = create_grown [OF 1] creates_grown [OF 2]
  have g2: "grown g g2" "grown g g1" using b grown_trans by blast+
  have "grown g2 (bump (g2\<lparr>mutes := x\<rparr>))" for x
    by (rule grown_same) (auto simp: bump_def)
  then show ?thesis
    using WriteMutes 1 2 grown_trans [OF g2(1)] g2(2) by (auto simp: apply_write_def update_mutes_def Let_def)
next
  case (WriteSnapshot nodes)
  obtain ids g1 where 1: "get_or_create_nodes g (map snap_pubkey nodes) = (ids, g1)" by fastforce
  have g1: "grown g g1" using creates_grown [OF 1] by simp
  show ?thesis
  proof (cases "restore_nodes g nodes")
    case None
    then show ?thesis using WriteSnapshot by (simp add: apply_write_def)
  next
    case (Some g')
    have "grown g1 g'"
      using Some 1
      by (intro grown_same) (auto simp: restore_nodes_def Let_def bump_def dest!: restore_loop_grown split: option.splits if_splits)
    then show ?thesis using grown_trans [OF g1] WriteSnapshot Some by (simp add: apply_write_def)
  qed
qed

lemma replay_grown: "grown g (replay g h)"
proof (induction h arbitrary: g)
  case (Cons e h)
  then show ?case using write_grown [of g "snd e"] grown_trans by (cases e) force
qed simp

lemma replay_names: "pubkey_to_id (replay g0 h) pk = Some i \<Longrightarrow> pubkey_to_id (replay g0 (h @ evs)) pk = Some i"
  using replay_grown [of "replay g0 h" evs] by (auto simp: grown_def map_le_def dom_def)

section \<open>An update, split into the creation of its nodes and the rest\<close>

lemma follows_split:
  assumes g: "ids_in_range g" and 1: "get_or_create_node_locked g a = (nid, g1)"
  shows "(case index (node_infos g1) nid of
        Some (Some info) \<Rightarrow> \<not> accepts_event (kind3_created_at info) (kind3_event_id info) t e | _ \<Rightarrow> False) \<Longrightarrow>
      update_follows g1 a l e t = (False, g1)"
    "\<not> (case index (node_infos g1) nid of
        Some (Some info) \<Rightarrow> \<not> accepts_event (kind3_created_at info) (kind3_event_id info) t e | _ \<Rightarrow> False) \<Longrightarrow>
      get_or_create_nodes g1 l = (ids, g2) \<Longrightarrow>
      update_follows g2 a l e t =
        (True, set_node_info nid \<lparr>kind3_event_id = e, kind3_created_at = t\<rparr> (replace_follows nid (sort_dedup ids) g2))"
proof -
  have g1: "grown g g1" "pubkey_to_id g1 a = Some nid" using create_grown [OF 1] by simp_all
  note k1 = locked_known [OF g1(2)]
  show "update_follows g1 a l e t = (False, g1)"
    if "case index (node_infos g1) nid of
        Some (Some info) \<Rightarrow> \<not> accepts_event (kind3_created_at info) (kind3_event_id info) t e | _ \<Rightarrow> False"
    using that k1 by (simp add: update_follows_def Let_def)
  assume ns: "\<not> (case index (node_infos g1) nid of
        Some (Some info) \<Rightarrow> \<not> accepts_event (kind3_created_at info) (kind3_event_id info) t e | _ \<Rightarrow> False)"
    and 2: "get_or_create_nodes g1 l = (ids, g2)"
  note b = creates_grown [OF 2]
  have k2: "pubkey_to_id g2 a = Some nid" using b g1 by (auto simp: grown_def map_le_def dom_def)
  have "nid < node_count g1" using g g1 by (auto simp: grown_def ids_in_range_def)
  then have i: "index (node_infos g2) nid = index (node_infos g1) nid" using b g g1 by (auto simp: grown_def)
  have "get_or_create_nodes g2 l = (ids, g2)" using creates_known [of l g2] creates_ids [OF 2] b by simp
  then show "update_follows g2 a l e t =
      (True, set_node_info nid \<lparr>kind3_event_id = e, kind3_created_at = t\<rparr> (replace_follows nid (sort_dedup ids) g2))"
    using ns i locked_known [OF k2] by (simp add: update_follows_def Let_def)
qed

lemma mutes_split:
  assumes 1: "get_or_create_node_locked g a = (nid, g1)"
  shows "(case map_of (mutes g1) nid of
        Some old \<Rightarrow> \<not> accepts_event (mute_created_at old) (mute_event_id old) t e | None \<Rightarrow> False) \<Longrightarrow>
      update_mutes g1 a l e t = (False, g1)"
    "\<not> (case map_of (mutes g1) nid of
        Some old \<Rightarrow> \<not> accepts_event (mute_created_at old) (mute_event_id old) t e | None \<Rightarrow> False) \<Longrightarrow>
      get_or_create_nodes g1 l = (ids, g2) \<Longrightarrow>
      update_mutes g2 a l e t =
        (True, bump (set_mutes nid \<lparr>mute_ids = sort_dedup ids, mute_event_id = e, mute_created_at = t\<rparr> g2))"
proof -
  have g1: "pubkey_to_id g1 a = Some nid" using create_grown [OF 1] by simp
  note k1 = locked_known [OF g1]
  show "update_mutes g1 a l e t = (False, g1)"
    if "case map_of (mutes g1) nid of
        Some old \<Rightarrow> \<not> accepts_event (mute_created_at old) (mute_event_id old) t e | None \<Rightarrow> False"
    using that k1 by (simp add: update_mutes_def Let_def)
  assume ns: "\<not> (case map_of (mutes g1) nid of
        Some old \<Rightarrow> \<not> accepts_event (mute_created_at old) (mute_event_id old) t e | None \<Rightarrow> False)"
    and 2: "get_or_create_nodes g1 l = (ids, g2)"
  note b = creates_grown [OF 2]
  have k2: "pubkey_to_id g2 a = Some nid" using b g1 by (auto simp: grown_def map_le_def dom_def)
  have "get_or_create_nodes g2 l = (ids, g2)" using creates_known [of l g2] creates_ids [OF 2] b by simp
  then show "update_mutes g2 a l e t =
      (True, bump (set_mutes nid \<lparr>mute_ids = sort_dedup ids, mute_event_id = e, mute_created_at = t\<rparr> g2))"
    using ns b locked_known [OF k2] by (simp add: update_mutes_def set_mutes_def Let_def)
qed

end
