(* ===== verification/GraphSafe.thy ===== *)
theory GraphSafe
  imports GraphMoments
begin

text \<open>
  Each program of the graph is safe for the atomic writes: step by step, what it changes while it
  holds the locks is covered by the events of its call, and what it reads is what the replayed writes
  say. The lemmas follow the programs, in continuation style.
\<close>

section \<open>Nodes\<close>

abbreviation writer :: "graph_lock guards" where
  "writer \<equiv> [(MutationLock, Exclusive)]"

abbreviation tables :: "graph_lock guards" where
  "tables \<equiv> [(MetadataLock, Exclusive), (PubkeysLock, Exclusive), (FollowersLock, Exclusive), (FollowsLock, Exclusive),
     (MutationLock, Exclusive)]"

lemma safe_names_writer:
  assumes "(MutationLock, Exclusive) \<in> set hs" "drop_guard (NamesShard (names_shard sh pk)) hs = hs"
    "same_ids s (replay g0 h)" "lin.safe sh g0 i \<Phi> (k (pubkey_to_id s pk)) hs s h"
  shows "lin.safe sh g0 i \<Phi> (names_prog sh pk k) hs s h"
  unfolding names_prog_def
  by (rule lin.safe_Acquire_whole [OF assms(1)], rule lin.safe_Get_whole, use assms in simp, rule lin.safe_Release_silent)
    (use assms in \<open>simp_all add: tracked_lock_def\<close>)

lemma safe_interned_writer:
  assumes "(MutationLock, Exclusive) \<in> set hs" "drop_guard (InternedShard (interned_shard sh a)) hs = hs"
    "same_ids s (replay g0 h)" "lin.safe sh g0 i \<Phi> (k (interner_get (interner s) a)) hs s h"
  shows "lin.safe sh g0 i \<Phi> (interned_prog sh a k) hs s h"
  unfolding interned_prog_def
  by (rule lin.safe_Acquire_whole [OF assms(1)], rule lin.safe_Get_whole, use assms in simp, rule lin.safe_Release_silent)
    (use assms in \<open>simp_all add: tracked_lock_def\<close>)

lemma same_ids_refl [simp]: "same_ids g g"
  by (simp add: same_ids_def)

text \<open>\<open>intern\<close> changes the interner to what the function computes.\<close>

lemma safe_intern:
  assumes ids: "same_ids s (replay g0 h)"
    and k: "lin.safe sh g0 i \<Phi> (k (fst (intern (interner s) pk))) tables (s\<lparr>interner := snd (intern (interner s) pk)\<rparr>) h"
  shows "lin.safe sh g0 i \<Phi> (intern_prog sh pk k) tables s h"
proof (cases "interner_get (interner s) pk")
  case (Some e)
  then show ?thesis
    unfolding intern_prog_def using k ids
    by (intro safe_interned_writer) (simp_all add: intern_def)
next
  case None
  define a where "a = \<lparr>arc_ptr = next_ptr (interner s), arc_str = pk\<rparr>"
  have str [simp]: "arc_str a = pk" by (simp add: a_def)
  let ?l = "InternedShard (interned_shard sh pk)"
  let ?s1 = "allocate_arc s"
  let ?s2 = "insert_arc a ?s1"
  have res: "intern (interner s) pk = (case interner_get (interner ?s2) pk of Some e \<Rightarrow> e | None \<Rightarrow> a, interner ?s2)"
    using None by (simp add: intern_def intern_slow_def Let_def allocate_arc_def insert_arc_def a_def split: option.split)
  have s2: "?s2 = s\<lparr>interner := interner ?s2\<rparr>" by (simp add: allocate_arc_def insert_arc_def)
  have i: "same_ids ?s1 (replay g0 h)" "same_ids ?s2 (replay g0 h)"
    using ids by (simp_all add: same_ids_def allocate_arc_def insert_arc_def)
  have last: "lin.safe sh g0 i \<Phi> (interned_prog sh pk (\<lambda>now. k (case now of Some e \<Rightarrow> e | None \<Rightarrow> a))) tables ?s2 h"
    by (rule safe_interned_writer) (use k i res s2 in simp_all)
  have 1: "same_lock sh l s ?s1" if "(l, Exclusive) \<notin> set tables" for l
    using that by (cases l) (simp_all add: allocate_arc_def)
  have 2: "same_lock sh l ?s1 ?s2" if "(l, Exclusive) \<notin> set ((?l, Exclusive) # tables)" for l
    using that by (cases l) (auto simp: allocate_arc_def insert_arc_def interner_or_insert_def split: option.split)
  show ?thesis
    unfolding intern_prog_def
    apply (rule safe_interned_writer)
       apply (use ids None in simp_all)
    apply (rule lin.safe_Get_whole, simp)
    apply (simp only: Let_def a_def [symmetric])
    apply (rule lin.safe_Put_silent, simp, rule i(1), rule 1, assumption)
    apply (rule lin.safe_Acquire_whole, simp)
    apply (rule lin.safe_Put_silent, simp, rule i(2), rule 2, assumption)
    apply (rule lin.safe_Release_silent [OF _ i(2)], simp)
     apply (simp add: tracked_lock_def)
    apply (simp add: last)
    done
qed

lemma safe_release_tables:
  assumes "same_ids s (replay g0 h)" "follows s = follows (replay g0 h)" "followers s = followers (replay g0 h)"
    "id_to_pubkey s = id_to_pubkey (replay g0 h)" "lin.safe sh g0 i \<Phi> p writer s h"
  shows "lin.safe sh g0 i \<Phi> (release_tables p) tables s h"
  unfolding release_tables_def
  by (rule lin.safe_Release_silent; use assms in \<open>simp add: tracked_lock_def\<close>)+

lemma safe_push_tables:
  assumes ids: "same_ids s (replay g0 h)"
    and k: "lin.safe sh g0 i \<Phi> p tables
      (s\<lparr>id_to_pubkey := id_to_pubkey s @ [arc_str a], follows := follows s @ [[]], followers := followers s @ [[]],
         node_infos := node_infos s @ [None]\<rparr>) h"
  shows "lin.safe sh g0 i \<Phi> (push_tables a p) tables s h"
proof -
  have keep: "same_lock sh l s (s\<lparr>id_to_pubkey := x\<rparr>)" "same_lock sh l s (s\<lparr>follows := y\<rparr>)"
    "same_lock sh l s (s\<lparr>followers := y\<rparr>)" "same_lock sh l s (s\<lparr>node_infos := z\<rparr>)"
    if "(l, Exclusive) \<notin> set tables" for l s x y z
    using that by (cases l; simp)+
  show ?thesis
    unfolding push_tables_def
    apply (rule lin.safe_Put_silent, simp, use ids in \<open>simp add: same_ids_def\<close>, rule keep(1), assumption)
    apply (rule lin.safe_Put_silent, simp, use ids in \<open>simp add: same_ids_def\<close>, rule keep(2), assumption)
    apply (rule lin.safe_Put_silent, simp, use ids in \<open>simp add: same_ids_def\<close>, rule keep(3), assumption)
    apply (rule lin.safe_Put_silent, simp, use ids in \<open>simp add: same_ids_def\<close>, rule keep(4), assumption)
    using k by simp
qed

text \<open>
  Creating a node is one event, which takes effect when its name becomes known; the tables the other
  threads read are released only when they agree with it.
\<close>

lemma safe_create:
  assumes eq: "replay g0 h = s"
    and k: "\<And>nid s' evs. get_or_create_node_locked s pk = (nid, s') \<Longrightarrow> replay g0 (h @ evs) = s' \<Longrightarrow>
      evs = [] \<or> evs = [(i, WriteNode pk)] \<Longrightarrow> lin.safe sh g0 i \<Phi> (k nid) writer s' (h @ evs)"
  shows "lin.safe sh g0 i \<Phi> (create_prog sh pk k) writer s h"
proof (cases "pubkey_to_id s pk")
  case (Some nid)
  have "lin.safe sh g0 i \<Phi> (k nid) writer s (h @ [])" by (rule k) (simp_all add: Some locked_known eq)
  then show ?thesis unfolding create_prog_def by (intro safe_names_writer) (simp_all add: Some eq)
next
  case None
  let ?nid = "as_u32 (length (id_to_pubkey s))"
  let ?ev = "[(i, WriteNode pk)]"
  define it where "it = snd (intern (interner s) pk)"
  define s1 where "s1 = s\<lparr>interner := it\<rparr>"
  define s2 where "s2 = s1\<lparr>id_to_pubkey := id_to_pubkey s @ [pk], follows := follows s @ [[]], followers := followers s @ [[]],
    node_infos := node_infos s @ [None]\<rparr>"
  define s3 where "s3 = set_name pk ?nid s2"
  have made: "get_or_create_node_locked s pk = (?nid, bump s3)"
    unfolding locked_fresh [OF None] s3_def s2_def s1_def it_def by (simp add: set_name_def bump_def)
  have after: "replay g0 (h @ ?ev) = bump s3"
    using made by (simp add: eq apply_write_def get_or_create_node_eq)
  have cont: "lin.safe sh g0 i \<Phi> (k ?nid) writer (bump s3) (h @ ?ev)" by (rule k [OF made after]) simp
  have i3: "same_ids s3 (replay g0 (h @ ?ev))" "same_ids (bump s3) (replay g0 (h @ ?ev))"
    unfolding after by (simp_all add: same_ids_def bump_def)
  have i2: "same_ids s1 (replay g0 h)" "same_ids s2 (replay g0 h)"
    unfolding eq by (simp_all add: same_ids_def s1_def s2_def)
  let ?l = "NamesShard (names_shard sh pk)"
  have keep: "same_lock sh l s2 s3" if "(l, Exclusive) \<notin> set ((?l, Exclusive) # tables)" for l
    using that by (cases l) (auto simp: s3_def set_name_def)
  have keep': "same_lock sh l (replay g0 h) (replay g0 (h @ ?ev))"
    if "(l, Exclusive) \<notin> set tables" "tracked_lock l" for l
    using that unfolding after eq
    by (cases l) (auto simp: tracked_lock_def s3_def s2_def s1_def set_name_def bump_def)
  have put: "lin.change sh g0 i ((?l, Exclusive) # tables) s2 h s3 ?ev"
    unfolding lin.change_def using i3(1) keep keep' by auto
  have keep_bump: "same_lock sh l g (bump g)" if "(l, Exclusive) \<notin> set tables" for l g
    using that by (cases l) (simp_all add: bump_def)
  show ?thesis
    unfolding create_prog_def
    apply (rule safe_names_writer)
       apply (simp_all add: eq None)
    apply (rule lin.safe_Acquire_whole, simp)+
    apply (rule safe_names_writer)
       apply (simp_all add: eq None)
    apply (rule safe_intern, simp add: eq)
    apply (simp only: it_def [symmetric] s1_def [symmetric] intern_str)
    apply (rule lin.safe_Get_whole, simp)
    apply (simp only: Let_def)
    apply (rule safe_push_tables [OF i2(1)])
    apply (rule lin.safe_Acquire_whole, simp)
    apply (rule lin.safe_Put_whole [where evs = ?ev])
      apply simp
     apply (use put in \<open>simp add: s3_def s2_def s1_def\<close>)
    apply (rule lin.safe_Release_silent)
       apply simp
      apply (use i3 in \<open>simp add: s3_def s2_def s1_def\<close>)
     apply (simp add: tracked_lock_def)
    apply simp
    apply (rule lin.safe_Put_silent, simp, use i3 in \<open>simp add: s3_def s2_def s1_def\<close>, rule keep_bump, assumption)
    apply (rule safe_release_tables)
    using cont after by (simp_all add: s3_def s2_def s1_def same_ids_def)
qed

lemma safe_creates:
  assumes eq: "replay g0 h = s"
    and k: "\<And>ids s' evs. get_or_create_nodes s pks = (ids, s') \<Longrightarrow> replay g0 (h @ evs) = s' \<Longrightarrow>
      set evs \<subseteq> (\<lambda>pk. (i, WriteNode pk)) ` set pks \<Longrightarrow> lin.safe sh g0 i \<Phi> (k ids) writer s' (h @ evs)"
  shows "lin.safe sh g0 i \<Phi> (creates_prog sh pks k) writer s h"
  using assms
proof (induction pks arbitrary: k s h)
  case Nil
  then show ?case using Nil(2) [of "[]" s "[]"] by simp
next
  case (Cons pk pks)
  show ?case
    unfolding creates_prog.simps
  proof (rule safe_create [OF Cons.prems(1)])
    fix nid s1 ev
    assume 1: "get_or_create_node_locked s pk = (nid, s1)" "replay g0 (h @ ev) = s1" "ev = [] \<or> ev = [(i, WriteNode pk)]"
    show "lin.safe sh g0 i \<Phi> (creates_prog sh pks (\<lambda>ids. k (nid # ids))) writer s1 (h @ ev)"
    proof (rule Cons.IH [OF 1(2)])
      fix ids s2 evs
      assume 2: "get_or_create_nodes s1 pks = (ids, s2)" "replay g0 ((h @ ev) @ evs) = s2"
        "set evs \<subseteq> (\<lambda>pk. (i, WriteNode pk)) ` set pks"
      have "lin.safe sh g0 i \<Phi> (k (nid # ids)) writer s2 (h @ (ev @ evs))"
        by (rule Cons.prems(2)) (use 1 2 in auto)
      then show "lin.safe sh g0 i \<Phi> (k (nid # ids)) writer s2 ((h @ ev) @ evs)" by simp
    qed
  qed
qed

text \<open>Taking and dropping \<open>mutation\<close>.\<close>

lemma safe_lock:
  assumes "\<And>evs. i \<notin> fst ` set evs \<Longrightarrow> lin.safe sh g0 i \<Phi> p writer (replay g0 (h @ evs)) (h @ evs)"
  shows "lin.safe sh g0 i \<Phi> (Acquire MutationLock Exclusive p) [] s h"
  using assms by (auto simp: lin.safe.simps lin.rely_def tracked_lock_def)

lemma safe_unlock:
  assumes "replay g0 h = s" "replay g0 (h @ evs) = s" "fst ` set evs \<subseteq> {i}" "lin.safe sh g0 i \<Phi> p [] s (h @ evs)"
  shows "lin.safe sh g0 i \<Phi> (Release MutationLock p) writer s h"
proof (rule lin.safe_Release_whole [where evs = evs])
  show "lin.change sh g0 i writer s h s evs"
    unfolding lin.change_def using assms by (simp add: lin.same_refl del: replay_simps)
qed (use assms in \<open>simp_all del: replay_simps\<close>)

section \<open>Readers\<close>

text \<open>A look-up of a name by a thread that holds nothing else.\<close>

lemma safe_names:
  assumes k: "\<And>s' evs. i \<notin> fst ` set evs \<Longrightarrow>
      lin.safe sh g0 i \<Phi> (k (pubkey_to_id (replay g0 (h @ evs)) pk)) [] s' (h @ evs)"
  shows "lin.safe sh g0 i \<Phi> (names_prog sh pk k) [] s h"
proof -
  let ?l = "NamesShard (names_shard sh pk)"
  have "lin.safe sh g0 i \<Phi> (Release ?l (k (pubkey_to_id s2 pk))) [(?l, Shared)] s2 h2"
    if 1: "lin.rely sh g0 i [] s h s1 h1" and 2: "lin.rely sh g0 i [(?l, Shared)] s1 h1 s2 h2" for s1 h1 s2 h2
  proof (rule lin.safe_Release_reader)
    fix s3 h3
    assume 3: "lin.rely sh g0 i [(?l, Shared)] s2 h2 s3 h3"
    obtain e1 e2 e3 where e': "h1 = h @ e1" "h2 = h1 @ e2" "h3 = h2 @ e3"
      "i \<notin> fst ` set e1" "i \<notin> fst ` set e2" "i \<notin> fst ` set e3"
      using 1 2 3 unfolding lin.rely_def by blast
    then have e: "h1 = h @ e1" "h2 = h1 @ e2" "h3 = h2 @ e3" "i \<notin> fst ` set (e1 @ e2 @ e3)" by (simp_all add: image_Un)
    have "pubkey_to_id s2 pk = pubkey_to_id s3 pk" using 3 by (auto simp: lin.rely_def)
    moreover have "pubkey_to_id s3 = pubkey_to_id (replay g0 h3)" using 3 by (simp add: lin.rely_def lin.sees_def same_ids_def)
    moreover have "lin.safe sh g0 i \<Phi> (k (pubkey_to_id (replay g0 (h @ (e1 @ e2 @ e3))) pk)) [] s3 (h @ (e1 @ e2 @ e3))"
      by (rule k) (use e(4) in simp)
    ultimately show "lin.safe sh g0 i \<Phi> (k (pubkey_to_id s2 pk)) (drop_guard ?l [(?l, Shared)]) s3 h3" using e by simp
  qed simp
  then show ?thesis unfolding names_prog_def by (simp add: lin.safe.simps)
qed

lemma safe_node:
  assumes k: "\<And>s' evs nds. i \<notin> fst ` set evs \<Longrightarrow> nds = [] \<or> nds = [(i, WriteNode pk)] \<Longrightarrow>
      lin.safe sh g0 i \<Phi> (k (fst (get_or_create_node (replay g0 (h @ evs @ nds)) pk))) [] s' (h @ evs @ nds)"
  shows "lin.safe sh g0 i \<Phi> (node_prog sh pk k) [] s h"
  unfolding node_prog_def
proof (rule safe_names)
  fix s1 and e1 :: "graph_write history"
  assume e1: "i \<notin> fst ` set e1"
  show "lin.safe sh g0 i \<Phi>
      (case pubkey_to_id (replay g0 (h @ e1)) pk of
         Some nid \<Rightarrow> k nid
       | None \<Rightarrow> Acquire MutationLock Exclusive (create_prog sh pk (\<lambda>nid. Release MutationLock (k nid)))) [] s1 (h @ e1)"
  proof (cases "pubkey_to_id (replay g0 (h @ e1)) pk")
    case (Some nid)
    then show ?thesis using k [OF e1, of "[]" s1] by (simp add: get_or_create_node_def)
  next
    case None
    have "lin.safe sh g0 i \<Phi> (create_prog sh pk (\<lambda>nid. Release MutationLock (k nid))) writer
        (replay g0 ((h @ e1) @ e2)) ((h @ e1) @ e2)" if e2: "i \<notin> fst ` set e2" for e2
    proof (rule safe_create [OF refl])
      fix nid s' ev
      assume c: "get_or_create_node_locked (replay g0 ((h @ e1) @ e2)) pk = (nid, s')"
        "replay g0 (((h @ e1) @ e2) @ ev) = s'" "ev = [] \<or> ev = [(i, WriteNode pk)]"
      have "get_or_create_node s' pk = (nid, s')" using create_grown [OF c(1)] by (simp add: get_or_create_node_def)
      moreover have "lin.safe sh g0 i \<Phi> (k (fst (get_or_create_node (replay g0 (h @ (e1 @ e2) @ ev)) pk))) [] s' (h @ (e1 @ e2) @ ev)"
        by (rule k) (use e1 e2 c(3) in auto)
      ultimately have "lin.safe sh g0 i \<Phi> (k nid) [] s' ((((h @ e1) @ e2) @ ev) @ [])" using c(2) by simp
      then show "lin.safe sh g0 i \<Phi> (Release MutationLock (k nid)) writer s' (((h @ e1) @ e2) @ ev)"
        by (rule safe_unlock [rotated 3]) (use c(2) in simp_all)
    qed
    then show ?thesis using None by (auto intro: safe_lock)
  qed
qed

section \<open>Updates\<close>

text \<open>
  The new follow list is published, as the event of the whole update, before the metadata is written;
  both adjacency locks are held until the vectors agree.
\<close>

lemma safe_replace:
  fixes s :: wot_graph and nid :: nat and new :: "nat list"
  defines "s3 \<equiv> replace_follows nid new s"
  assumes eq: "replay g0 h = s"
    and R: "same_ids s3 (replay g0 (h @ [(i, w)]))" "follows s3 = follows (replay g0 (h @ [(i, w)]))"
      "followers s3 = followers (replay g0 (h @ [(i, w)]))" "id_to_pubkey s3 = id_to_pubkey (replay g0 (h @ [(i, w)]))"
      "mutes s3 = mutes (replay g0 (h @ [(i, w)]))"
    and k: "lin.safe sh g0 i \<Phi> p writer s3 (h @ [(i, w)])"
  shows "lin.safe sh g0 i \<Phi> (replace_prog nid new p) writer s h"
proof -
  let ?R = "replay g0 (h @ [(i, w)])"
  let ?g = "[(FollowersLock, Exclusive), (FollowsLock, Exclusive), (MutationLock, Exclusive)]"
  define old where "old = (case index (follows s) nid of Some l \<Rightarrow> l | None \<Rightarrow> [])"
  obtain rm ad where d: "diff_sorted old new = (rm, ad)" by fastforce
  define a1 where "a1 = s\<lparr>followers := fold (remove_follower nid) rm (followers s)\<rparr>"
  define a2 where "a2 = a1\<lparr>follows := (follows a1)[nid := new]\<rparr>"
  define a3 where "a3 = a2\<lparr>followers := fold (add_follower nid) ad (followers a2)\<rparr>"
  have s3: "s3 = (if rm \<noteq> [] \<or> ad \<noteq> [] then bump a3 else a3)"
    unfolding s3_def replace_follows_def Let_def old_def [symmetric] d a3_def a2_def a1_def by simp
  have same3: "pubkey_to_id s3 = pubkey_to_id s" "id_to_pubkey s3 = id_to_pubkey s" "mutes s3 = mutes s"
    "follows s3 = follows a3" "followers s3 = followers a3" "pubkey_to_id a3 = pubkey_to_id s"
    "pubkey_to_id a2 = pubkey_to_id s" "pubkey_to_id a1 = pubkey_to_id s"
    by (simp_all add: s3 a3_def a2_def a1_def bump_def)
  have ids: "same_ids a1 ?R" "same_ids a2 ?R" "same_ids a3 ?R" using R(1) same3 by (simp_all add: same_ids_def)
  have keep: "same_lock sh l s a1" "same_lock sh l a1 a2" "same_lock sh l a2 a3" "same_lock sh l a3 (bump a3)"
    if "(l, Exclusive) \<notin> set ?g" for l
    using that by (cases l; simp add: a1_def a2_def a3_def bump_def)+
  have keepR: "same_lock sh l (replay g0 h) ?R" if "(l, Exclusive) \<notin> set ?g" "tracked_lock l" for l
    using that R(4,5) same3(2,3) unfolding eq by (cases l) (simp_all add: tracked_lock_def del: replay_simps)
  have ch: "lin.change sh g0 i ?g s h a1 [(i, w)]"
    unfolding lin.change_def using ids(1) keep(1) keepR by (simp del: replay_simps)
  let ?unlock = "Release FollowersLock (Release FollowsLock p)"
  have un: "lin.safe sh g0 i \<Phi> ?unlock ?g s3 (h @ [(i, w)])"
    by (rule lin.safe_Release_silent, simp, use R(1) in simp, use R(3) in simp, rule lin.safe_Release_silent)
      (use R k in \<open>simp_all\<close>)
  have fin: "lin.safe sh g0 i \<Phi> (if rm \<noteq> [] \<or> ad \<noteq> [] then Put bump ?unlock else ?unlock) ?g a3 (h @ [(i, w)])"
  proof (cases "rm \<noteq> [] \<or> ad \<noteq> []")
    case True
    then have b: "bump a3 = s3" by (simp add: s3)
    have "lin.safe sh g0 i \<Phi> (Put bump ?unlock) ?g a3 (h @ [(i, w)])"
      by (rule lin.safe_Put_silent, simp, use R(1) b in simp, rule keep(4), assumption, use un b in simp)
    then show ?thesis using True by (simp only: if_True)
  next
    case False
    then have "a3 = s3" by (simp only: s3 if_False)
    then show ?thesis using un False by (simp only: if_False)
  qed
  show ?thesis
    unfolding replace_prog_def
    apply (rule lin.safe_Acquire_whole, simp)
    apply (rule lin.safe_Get_whole, simp)
    apply (rule lin.safe_Release_silent, simp, simp add: eq, simp)
    apply (simp only: old_def [symmetric] Let_def d prod.case)
    apply (simp only: drop_guard_Cons drop_guard_Nil if_True if_False graph_lock.distinct simp_thms)
    apply (rule lin.safe_Acquire_whole, simp)
    apply (rule lin.safe_Acquire_whole, simp)
    apply (rule lin.safe_Put_whole, simp, simp only: a1_def [symmetric], rule ch)
    apply (simp only: a1_def [symmetric])
    apply (rule lin.safe_Put_silent, simp, simp only: a2_def [symmetric], rule ids(2), simp only: a2_def [symmetric], rule keep(2), assumption)
    apply (simp only: a2_def [symmetric])
    apply (rule lin.safe_Put_silent, simp, simp only: a3_def [symmetric], rule ids(3), simp only: a3_def [symmetric], rule keep(3), assumption)
    apply (simp only: a3_def [symmetric])
    apply (rule fin)
    done
qed

lemma safe_follows:
  assumes g0: "ids_in_range g0"
    and k: "\<And>s' evs nds. i \<notin> fst ` set evs \<Longrightarrow> set nds \<subseteq> (\<lambda>pk. (i, WriteNode pk)) ` insert a (set l) \<Longrightarrow>
      lin.safe sh g0 i \<Phi> (k (fst (update_follows (replay g0 (h @ evs @ nds)) a l e t))) [] s'
        (h @ evs @ nds @ [(i, WriteFollows a l e t)])"
  shows "lin.safe sh g0 i \<Phi> (follows_prog sh a l e t k) [] s h"
  unfolding follows_prog_def
proof (rule safe_lock, rule safe_create [OF refl])
  fix evs nid s1 ev
  assume evs: "i \<notin> fst ` set evs" and 1: "get_or_create_node_locked (replay g0 (h @ evs)) a = (nid, s1)"
    "replay g0 ((h @ evs) @ ev) = s1" "ev = [] \<or> ev = [(i, WriteNode a)]"
  let ?w = "(i, WriteFollows a l e t)"
  let ?H = "(h @ evs) @ ev"
  have rng: "ids_in_range (replay g0 (h @ evs))" using replay_grown [of g0 "h @ evs"] g0 unfolding grown_def by blast
  let ?stale = "case index (node_infos s1) nid of
      Some (Some info) \<Rightarrow> \<not> accepts_event (kind3_created_at info) (kind3_event_id info) t e | _ \<Rightarrow> False"
  let ?info = "\<lparr>kind3_event_id = e, kind3_created_at = t\<rparr>"
  let ?rest = "\<lambda>ids. replace_prog nid (sort_dedup ids)
      (Acquire MetadataLock Exclusive (Put (set_node_info nid ?info)
        (Release MetadataLock (Release MutationLock (k True)))))"
  have body: "lin.safe sh g0 i \<Phi> (if ?stale then Release MutationLock (k False) else creates_prog sh l ?rest) writer s1 ?H"
  proof (cases ?stale)
    case True
    note st = follows_split(1) [OF rng 1(1) True]
    have r: "replay g0 (?H @ [?w]) = s1" using 1(2) st by (simp add: apply_write_def)
    have "lin.safe sh g0 i \<Phi> (k (fst (update_follows (replay g0 (h @ evs @ ev)) a l e t))) [] s1 (h @ evs @ ev @ [?w])"
      by (rule k) (use evs 1(3) in auto)
    then have c: "lin.safe sh g0 i \<Phi> (k False) [] s1 (?H @ [?w])" using st 1(2) by simp
    have "lin.safe sh g0 i \<Phi> (Release MutationLock (k False)) writer s1 ?H"
      by (rule safe_unlock [OF 1(2) r _ c]) simp
    then show ?thesis using True by (simp only: if_True)
  next
    case False
    have "lin.safe sh g0 i \<Phi> (creates_prog sh l ?rest) writer s1 ?H"
    proof (rule safe_creates [OF 1(2)])
      fix ids s2 nds
      assume 2: "get_or_create_nodes s1 l = (ids, s2)" "replay g0 (?H @ nds) = s2"
        "set nds \<subseteq> (\<lambda>pk. (i, WriteNode pk)) ` set l"
      let ?s3 = "replace_follows nid (sort_dedup ids) s2"
      let ?H2 = "?H @ nds"
      note st = follows_split(2) [OF rng 1(1) False 2(1)]
      have r: "replay g0 (?H2 @ [?w]) = set_node_info nid ?info ?s3"
        using 2(2) st by (simp add: apply_write_def)
      have "lin.safe sh g0 i \<Phi> (k (fst (update_follows (replay g0 (h @ evs @ (ev @ nds))) a l e t))) []
          (set_node_info nid ?info ?s3) (h @ evs @ (ev @ nds) @ [?w])"
        by (rule k) (use evs 1(3) 2(3) in auto)
      then have c: "lin.safe sh g0 i \<Phi> (k True) [] (set_node_info nid ?info ?s3) ((?H2 @ [?w]) @ [])"
        using st 2(2) by simp
      have un: "lin.safe sh g0 i \<Phi> (Release MutationLock (k True)) writer (set_node_info nid ?info ?s3) (?H2 @ [?w])"
        by (rule safe_unlock [OF r _ _ c]) (use r in simp_all)
      have keep: "same_lock sh l' ?s3 (set_node_info nid ?info ?s3)"
        if "(l', Exclusive) \<notin> set [(MetadataLock, Exclusive), (MutationLock, Exclusive)]" for l'
        using that by (cases l') (simp_all add: set_node_info_def)
      show "lin.safe sh g0 i \<Phi> (?rest ids) writer s2 ?H2"
      proof (rule safe_replace [where w = "WriteFollows a l e t", OF 2(2)])
        show "lin.safe sh g0 i \<Phi> (Acquire MetadataLock Exclusive (Put (set_node_info nid ?info)
            (Release MetadataLock (Release MutationLock (k True))))) writer ?s3 (?H2 @ [?w])"
          apply (rule lin.safe_Acquire_whole, simp)
          apply (rule lin.safe_Put_silent, simp)
            apply (simp only: r same_ids_refl)
           apply (rule keep, assumption)
          apply (rule lin.safe_Release_silent, simp)
            apply (simp only: r same_ids_refl)
           apply (simp add: tracked_lock_def)
          using un by simp
      qed (unfold r, simp_all add: same_ids_def set_node_info_def)
    qed
    then show ?thesis using False by (simp only: if_False)
  qed
  show "lin.safe sh g0 i \<Phi> (Acquire MetadataLock Shared (Get (\<lambda>g. Release MetadataLock
      (if case index (node_infos g) nid of
          Some (Some info) \<Rightarrow> \<not> accepts_event (kind3_created_at info) (kind3_event_id info) t e | _ \<Rightarrow> False
       then Release MutationLock (k False) else creates_prog sh l ?rest)))) writer s1 ?H"
    apply (rule lin.safe_Acquire_whole, simp)
    apply (rule lin.safe_Get_whole, simp)
    apply (rule lin.safe_Release_silent, simp)
      apply (simp only: 1(2) same_ids_refl)
     apply (simp add: tracked_lock_def)
    using body by (simp only: drop_guard_Cons drop_guard_Nil if_True if_False graph_lock.distinct simp_thms)
qed

lemma safe_mutes:
  assumes k: "\<And>s' evs nds. i \<notin> fst ` set evs \<Longrightarrow> set nds \<subseteq> (\<lambda>pk. (i, WriteNode pk)) ` insert a (set l) \<Longrightarrow>
      lin.safe sh g0 i \<Phi> (k (fst (update_mutes (replay g0 (h @ evs @ nds)) a l e t))) [] s'
        (h @ evs @ nds @ [(i, WriteMutes a l e t)])"
  shows "lin.safe sh g0 i \<Phi> (mutes_prog sh a l e t k) [] s h"
  unfolding mutes_prog_def
proof (rule safe_lock, rule safe_create [OF refl])
  fix evs nid s1 ev
  assume evs: "i \<notin> fst ` set evs" and 1: "get_or_create_node_locked (replay g0 (h @ evs)) a = (nid, s1)"
    "replay g0 ((h @ evs) @ ev) = s1" "ev = [] \<or> ev = [(i, WriteNode a)]"
  let ?w = "(i, WriteMutes a l e t)"
  let ?H = "(h @ evs) @ ev"
  let ?stale = "case map_of (mutes s1) nid of
      Some old \<Rightarrow> \<not> accepts_event (mute_created_at old) (mute_event_id old) t e | None \<Rightarrow> False"
  let ?l = "\<lambda>ids. \<lparr>mute_ids = sort_dedup ids, mute_event_id = e, mute_created_at = t\<rparr>"
  let ?rest = "\<lambda>ids. Acquire MutesLock Exclusive (Put (set_mutes nid (?l ids))
      (Put bump (Release MutesLock (Release MutationLock (k True)))))"
  have body: "lin.safe sh g0 i \<Phi> (if ?stale then Release MutationLock (k False) else creates_prog sh l ?rest) writer s1 ?H"
  proof (cases ?stale)
    case True
    note st = mutes_split(1) [OF 1(1) True]
    have r: "replay g0 (?H @ [?w]) = s1" using 1(2) st by (simp add: apply_write_def)
    have "lin.safe sh g0 i \<Phi> (k (fst (update_mutes (replay g0 (h @ evs @ ev)) a l e t))) [] s1 (h @ evs @ ev @ [?w])"
      by (rule k) (use evs 1(3) in auto)
    then have c: "lin.safe sh g0 i \<Phi> (k False) [] s1 (?H @ [?w])" using st 1(2) by simp
    have "lin.safe sh g0 i \<Phi> (Release MutationLock (k False)) writer s1 ?H"
      by (rule safe_unlock [OF 1(2) r _ c]) simp
    then show ?thesis using True by (simp only: if_True)
  next
    case False
    have "lin.safe sh g0 i \<Phi> (creates_prog sh l ?rest) writer s1 ?H"
    proof (rule safe_creates [OF 1(2)])
      fix ids s2 nds
      assume 2: "get_or_create_nodes s1 l = (ids, s2)" "replay g0 (?H @ nds) = s2"
        "set nds \<subseteq> (\<lambda>pk. (i, WriteNode pk)) ` set l"
      let ?s3 = "set_mutes nid (?l ids) s2"
      let ?H2 = "?H @ nds"
      let ?g = "[(MutesLock, Exclusive), (MutationLock, Exclusive)]"
      note st = mutes_split(2) [OF 1(1) False 2(1)]
      have r: "replay g0 (?H2 @ [?w]) = bump ?s3" using 2(2) st by (simp add: apply_write_def)
      have "lin.safe sh g0 i \<Phi> (k (fst (update_mutes (replay g0 (h @ evs @ (ev @ nds))) a l e t))) []
          (bump ?s3) (h @ evs @ (ev @ nds) @ [?w])"
        by (rule k) (use evs 1(3) 2(3) in auto)
      then have c: "lin.safe sh g0 i \<Phi> (k True) [] (bump ?s3) ((?H2 @ [?w]) @ [])" using st 2(2) by simp
      have un: "lin.safe sh g0 i \<Phi> (Release MutationLock (k True)) writer (bump ?s3) (?H2 @ [?w])"
        by (rule safe_unlock [OF r _ _ c]) (use r in simp_all)
      have keep: "same_lock sh l' s2 ?s3" "same_lock sh l' ?s3 (bump ?s3)" if "(l', Exclusive) \<notin> set ?g" for l'
        using that by (cases l'; simp add: set_mutes_def bump_def)+
      have keepR: "same_lock sh l' (replay g0 ?H2) (replay g0 (?H2 @ [?w]))"
        if "(l', Exclusive) \<notin> set ?g" "tracked_lock l'" for l'
        using that unfolding r 2(2) by (cases l') (simp_all add: tracked_lock_def set_mutes_def bump_def)
      have ids: "same_ids ?s3 (replay g0 (?H2 @ [?w]))" unfolding r by (simp add: same_ids_def bump_def)
      have ch: "lin.change sh g0 i ?g s2 ?H2 ?s3 [?w]"
        unfolding lin.change_def using ids keep(1) keepR by (simp del: replay_simps)
      show "lin.safe sh g0 i \<Phi> (?rest ids) writer s2 ?H2"
        apply (rule lin.safe_Acquire_whole, simp)
        apply (rule lin.safe_Put_whole, simp, rule ch)
        apply (rule lin.safe_Put_silent, simp)
          apply (simp only: r same_ids_refl)
         apply (rule keep(2), assumption)
        apply (rule lin.safe_Release_silent, simp)
          apply (simp only: r same_ids_refl)
         apply (simp only: r same_lock.simps)
        using un by simp
    qed
    then show ?thesis using False by (simp only: if_False)
  qed
  show "lin.safe sh g0 i \<Phi> (Acquire MutesLock Shared (Get (\<lambda>g. Release MutesLock
      (if case map_of (mutes g) nid of
          Some old \<Rightarrow> \<not> accepts_event (mute_created_at old) (mute_event_id old) t e | None \<Rightarrow> False
       then Release MutationLock (k False) else creates_prog sh l ?rest)))) writer s1 ?H"
    apply (rule lin.safe_Acquire_whole, simp)
    apply (rule lin.safe_Get_whole, simp)
    apply (rule lin.safe_Release_silent, simp)
      apply (simp only: 1(2) same_ids_refl)
     apply simp
    using body by (simp only: drop_guard_Cons drop_guard_Nil if_True if_False graph_lock.distinct simp_thms)
qed

end
