(* ===== verification/GraphReads.thy ===== *)
theory GraphReads
  imports GraphSafe
begin

text \<open>
  The readers are safe, and their replies are those of one moment. A reader that looks up names and
  then locks the vectors sees the vectors of a later moment than the names, but a name keeps its id,
  so the reply is that of the later one. Mute evidence is the exception: a key that is unknown when it
  is looked up stays unknown in the reply.
\<close>

section \<open>The reply of a call\<close>

text \<open>The reply \<open>r\<close> is the one of the call \<open>c\<close> at the end of the history \<open>h\<close>.\<close>

fun reply_at :: "wot_graph \<Rightarrow> graph_write history \<Rightarrow> graph_call \<Rightarrow> graph_reply \<Rightarrow> bool" where
  "reply_at g0 h (CallNode pk) r = (r = NodeReply (fst (get_or_create_node (replay g0 h) pk)))"
| "reply_at g0 h (CallFollows a l e t) r = (r = WroteReply (fst (update_follows (replay g0 h) a l e t)))"
| "reply_at g0 h (CallMutes a l e t) r = (r = WroteReply (fst (update_mutes (replay g0 h) a l e t)))"
| "reply_at g0 h (CallLoad snapshot) r = False"
| "reply_at g0 h CallDatabase r = (r = DatabaseReply)"
| "reply_at g0 h (AskDistance q) r = (r = DistanceReply (map_option fst (compute_distance (replay g0 h) bfs_state_new q)))"
| "reply_at g0 h (AskPath q) r = (r = PathReply (compute_path (replay g0 h) q))"
| "reply_at g0 h (AskFollowsPage pk offset limit) r = (r = PageReply (get_follows_page (replay g0 h) pk offset limit))"
| "reply_at g0 h (AskMutesPage pk offset limit) r = (r = PageReply (get_mutes_page (replay g0 h) pk offset limit))"
| "reply_at g0 h (AskCommon a b) r = (r = CommonReply (common_follows (replay g0 h) a b))"
| "reply_at g0 h (AskEvidence a b) r = False"
| "reply_at g0 h (AskFollows pk) r = (r = NamesReply (get_follows (replay g0 h) pk))"
| "reply_at g0 h (AskFollowers pk) r = (r = NamesReply (get_followers (replay g0 h) pk))"
| "reply_at g0 h (AskInfo pk) r = False"
| "reply_at g0 h AskStats r = (r = StatsReply (stats (replay g0 h)))"

text \<open>
  The reply of a call that began at the end of \<open>hb\<close>, after the further events \<open>evs\<close>. Mute evidence is
  read for two ids looked up earlier in the call; every other reply belongs to one moment.
\<close>

fun reply_since :: "wot_graph \<Rightarrow> graph_write history \<Rightarrow> graph_write history \<Rightarrow> graph_call \<Rightarrow> graph_reply \<Rightarrow> bool" where
  "reply_since g0 hb evs (AskEvidence a b) r =
     (\<exists>h1 h2 h3. evs = h1 @ h2 @ h3 \<and>
        r = EvidenceReply (evidence_of_ids (replay g0 (hb @ evs)) (get_node_id (replay g0 (hb @ h1)) a)
              (get_node_id (replay g0 (hb @ h1 @ h2)) b)))"
| "reply_since g0 hb evs c r = reply_at g0 (hb @ evs) c r"

lemma reply_at_since: "reply_at g0 (hb @ evs) c r \<Longrightarrow> reply_since g0 hb evs c r"
  by (cases c) simp_all

lemma reply_since_shift: "reply_since g0 (hb @ e) evs c r \<Longrightarrow> reply_since g0 hb (e @ evs) c r"
proof (cases c)
  case (AskEvidence a b)
  assume "reply_since g0 (hb @ e) evs c r"
  then obtain h1 h2 h3 where "evs = h1 @ h2 @ h3"
    "r = EvidenceReply (evidence_of_ids (replay g0 (hb @ (e @ h1) @ h2 @ h3)) (get_node_id (replay g0 (hb @ (e @ h1))) a)
       (get_node_id (replay g0 (hb @ (e @ h1) @ h2)) b))"
    using AskEvidence by (auto simp del: replay_simps)
  then show ?thesis
    unfolding AskEvidence reply_since.simps by (intro exI [of _ "e @ h1"] exI [of _ h2] exI [of _ h3]) (simp del: replay_simps)
qed (simp_all del: replay_simps)

text \<open>The calls covered: all but the load at startup and the metadata query.\<close>

fun live_call :: "graph_call \<Rightarrow> bool" where
  "live_call (CallLoad _) = False"
| "live_call (AskInfo _) = False"
| "live_call _ = True"

section \<open>Reading under shared locks\<close>

text \<open>Safe from the end of \<open>h\<close> on, however far the others have run ahead.\<close>

definition later_safe ::
    "shards \<Rightarrow> wot_graph \<Rightarrow> nat \<Rightarrow> ('r \<Rightarrow> graph_write history \<Rightarrow> bool) \<Rightarrow> 'r graph_prog \<Rightarrow> graph_lock guards \<Rightarrow>
     graph_write history \<Rightarrow> bool" where
  "later_safe sh g0 i \<Phi> p hs h \<longleftrightarrow> (\<forall>s evs. i \<notin> fst ` set evs \<longrightarrow> lin.safe sh g0 i \<Phi> p hs s (h @ evs))"

lemma later_safeD: "later_safe sh g0 i \<Phi> p hs h \<Longrightarrow> lin.safe sh g0 i \<Phi> p hs s h"
  unfolding later_safe_def using spec [of _ "[]"] by (metis append_Nil2 empty_iff image_empty list.set(1))

lemma later_safe_more: "later_safe sh g0 i \<Phi> p hs h \<Longrightarrow> i \<notin> fst ` set evs \<Longrightarrow> later_safe sh g0 i \<Phi> p hs (h @ evs)"
  unfolding later_safe_def by (metis UnE append.assoc image_Un set_append)

lemma rely_hist: "lin.rely sh g0 i hs s h s' h' \<Longrightarrow> \<exists>evs. h' = h @ evs \<and> i \<notin> fst ` set evs"
  by (simp add: lin.rely_def)

lemma rely_append:
  assumes "lin.rely sh g0 i hs s (h @ evs) s' h'" "i \<notin> fst ` set evs"
  obtains evs' where "h' = h @ evs'" "i \<notin> fst ` set evs'"
proof -
  obtain e where "h' = (h @ evs) @ e" "i \<notin> fst ` set e" using rely_hist [OF assms(1)] by blast
  then have "h' = h @ (evs @ e)" "i \<notin> fst ` set (evs @ e)" using assms(2) by (simp_all add: image_Un)
  then show thesis by (rule that)
qed

lemma later_Release:
  assumes "(l, Exclusive) \<notin> set hs" "later_safe sh g0 i \<Phi> p (drop_guard l hs) h"
  shows "later_safe sh g0 i \<Phi> (Release l p) hs h"
  unfolding later_safe_def
proof (intro allI impI lin.safe_Release_reader [OF assms(1)])
  fix s evs s' h'
  assume "i \<notin> fst ` set evs" "lin.rely sh g0 i hs s (h @ evs) s' h'"
  then show "lin.safe sh g0 i \<Phi> p (drop_guard l hs) s' h'"
    using assms(2) unfolding later_safe_def by (metis rely_append)
qed

lemma later_Acquire:
  assumes "later_safe sh g0 i \<Phi> p ((l, m) # hs) h"
  shows "later_safe sh g0 i \<Phi> (Acquire l m p) hs h"
  using assms rely_append [of sh g0 i hs _ h] unfolding later_safe_def lin.safe.simps by metis

lemma later_Get:
  assumes "\<And>s evs. i \<notin> fst ` set evs \<Longrightarrow> lin.sees sh g0 hs s (h @ evs) \<Longrightarrow> lin.safe sh g0 i \<Phi> (k s) hs s (h @ evs)"
  shows "later_safe sh g0 i \<Phi> (Get k) hs h"
  unfolding later_safe_def lin.safe.simps
proof (intro allI impI)
  fix s evs s' h'
  assume r: "i \<notin> fst ` set evs" "lin.rely sh g0 i hs s (h @ evs) s' h'"
  then obtain evs' where "h' = h @ evs'" "i \<notin> fst ` set evs'" using rely_append by metis
  then show "lin.safe sh g0 i \<Phi> (k s') hs s' h'" using assms lin.rely_sees [OF r(2)] by blast
qed

lemma later_names:
  assumes "\<And>evs. i \<notin> fst ` set evs \<Longrightarrow> later_safe sh g0 i \<Phi> (k (pubkey_to_id (replay g0 (h @ evs)) pk)) [] (h @ evs)"
  shows "later_safe sh g0 i \<Phi> (names_prog sh pk k) [] h"
  unfolding later_safe_def
proof (intro allI impI safe_names)
  fix s and evs evs' :: "graph_write history" and s'
  assume "i \<notin> fst ` set evs" "i \<notin> fst ` set evs'"
  then have "i \<notin> fst ` set (evs @ evs')" by (simp add: image_Un)
  from later_safeD [OF assms [OF this]]
  show "lin.safe sh g0 i \<Phi> (k (pubkey_to_id (replay g0 ((h @ evs) @ evs')) pk)) [] s' ((h @ evs) @ evs')"
    by (simp only: append.assoc)
qed

lemma sees_fields:
  assumes "lin.sees sh g0 hs s h"
  shows "(FollowsLock, Shared) \<in> set hs \<Longrightarrow> follows s = follows (replay g0 h)"
    "(FollowersLock, Shared) \<in> set hs \<Longrightarrow> followers s = followers (replay g0 h)"
    "(PubkeysLock, Shared) \<in> set hs \<Longrightarrow> id_to_pubkey s = id_to_pubkey (replay g0 h)"
    "(MutesLock, Shared) \<in> set hs \<Longrightarrow> mutes s = mutes (replay g0 h)"
  using assms unfolding lin.sees_def tracked_lock_def by (metis insert_iff same_lock.simps)+

lemma rely_fields:
  assumes "lin.rely sh g0 i hs s h s' h'"
  shows "(FollowsLock, m) \<in> set hs \<Longrightarrow> follows s' = follows s"
    "(FollowersLock, m) \<in> set hs \<Longrightarrow> followers s' = followers s"
    "(PubkeysLock, m) \<in> set hs \<Longrightarrow> id_to_pubkey s' = id_to_pubkey s"
    "(MutesLock, m) \<in> set hs \<Longrightarrow> mutes s' = mutes s"
  using assms unfolding lin.rely_def by (metis same_lock.simps)+

section \<open>Pages, intersections, evidence\<close>

text \<open>A caller that goes on with any reply of the call, at whatever moment it was right.\<close>

definition goes_on ::
    "shards \<Rightarrow> wot_graph \<Rightarrow> nat \<Rightarrow> ('r \<Rightarrow> graph_write history \<Rightarrow> bool) \<Rightarrow> graph_call \<Rightarrow> (graph_reply \<Rightarrow> 'r graph_prog) \<Rightarrow>
     graph_write history \<Rightarrow> bool" where
  "goes_on sh g0 i \<Phi> c k h \<longleftrightarrow>
     (\<forall>evs r. i \<notin> fst ` set evs \<longrightarrow> reply_since g0 h evs c r \<longrightarrow> later_safe sh g0 i \<Phi> (k r) [] (h @ evs))"

lemma goes_onD: "goes_on sh g0 i \<Phi> c k h \<Longrightarrow> i \<notin> fst ` set evs \<Longrightarrow> reply_at g0 (h @ evs) c r \<Longrightarrow>
    later_safe sh g0 i \<Phi> (k r) [] (h @ evs)"
  unfolding goes_on_def using reply_at_since by metis

text \<open>Two names, one after the other.\<close>

lemma appended: "i \<notin> fst ` set e1 \<Longrightarrow> i \<notin> fst ` set e2 \<Longrightarrow> i \<notin> fst ` set (e1 @ e2)"
  by (simp add: image_Un)

lemma later_read_follows:
  assumes f: "\<And>g g'. follows g = follows g' \<Longrightarrow> id_to_pubkey g = id_to_pubkey g' \<Longrightarrow> f g = f g'"
    and k: "\<And>evs. i \<notin> fst ` set evs \<Longrightarrow> later_safe sh g0 i \<Phi> (k (f (replay g0 (h @ evs)))) [] (h @ evs)"
  shows "later_safe sh g0 i \<Phi> (read_follows f k) [] h"
  unfolding read_follows_def
proof (rule later_Acquire, rule later_Acquire, rule later_Get)
  fix s evs
  assume e: "i \<notin> fst ` set evs" and v: "lin.sees sh g0 [(PubkeysLock, Shared), (FollowsLock, Shared)] s (h @ evs)"
  have eq: "f s = f (replay g0 (h @ evs))" by (rule f) (use sees_fields [OF v] in simp_all)
  have "later_safe sh g0 i \<Phi> (Release PubkeysLock (Release FollowsLock (k (f s))))
      [(PubkeysLock, Shared), (FollowsLock, Shared)] (h @ evs)"
    by (rule later_Release, simp, rule later_Release) (use k [OF e] eq in simp_all)
  then show "lin.safe sh g0 i \<Phi> (Release PubkeysLock (Release FollowsLock (k (f s))))
      [(PubkeysLock, Shared), (FollowsLock, Shared)] s (h @ evs)" by (rule later_safeD)
qed

lemma resolve_cong: "id_to_pubkey g = id_to_pubkey g' \<Longrightarrow> resolve_pubkeys_arc g = resolve_pubkeys_arc g'"
proof -
  assume "id_to_pubkey g = id_to_pubkey g'"
  then have "get_pubkey_arc g = get_pubkey_arc g'" by (simp add: fun_eq_iff get_pubkey_arc_def)
  then show ?thesis unfolding resolve_pubkeys_arc_def by simp
qed

lemma safe_follows_page:
  assumes k: "goes_on sh g0 i \<Phi> (AskFollowsPage pk offset limit) k h"
  shows "later_safe sh g0 i \<Phi> (follows_page_prog sh pk offset limit (\<lambda>r. k (PageReply r))) [] h"
  unfolding follows_page_prog_def
proof (rule later_names)
  fix e1 :: "graph_write history"
  assume e1: "i \<notin> fst ` set e1"
  let ?f = "\<lambda>nid g. case index (follows g) nid of None \<Rightarrow> Some None | Some ids \<Rightarrow> map_option Some (page_of g ids offset limit)"
  show "later_safe sh g0 i \<Phi>
     (case pubkey_to_id (replay g0 (h @ e1)) pk of None \<Rightarrow> k (PageReply (Some None))
      | Some nid \<Rightarrow> read_follows (?f nid) (\<lambda>r. k (PageReply r))) [] (h @ e1)"
  proof (cases "pubkey_to_id (replay g0 (h @ e1)) pk")
    case None
    then show ?thesis using goes_onD [OF k e1] by (simp add: get_follows_page_def get_node_id_def del: replay_simps)
  next
    case (Some nid)
    have "later_safe sh g0 i \<Phi> (read_follows (?f nid) (\<lambda>r. k (PageReply r))) [] (h @ e1)"
    proof (rule later_read_follows)
      fix e2 :: "graph_write history"
      assume e2: "i \<notin> fst ` set e2"
      have "pubkey_to_id (replay g0 (h @ e1 @ e2)) pk = Some nid" using replay_names [OF Some, of e2] by (simp only: append.assoc)
      then show "later_safe sh g0 i \<Phi> (k (PageReply (?f nid (replay g0 ((h @ e1) @ e2))))) [] ((h @ e1) @ e2)"
        using goes_onD [OF k appended [OF e1 e2]]
        by (simp add: get_follows_page_def get_node_id_def del: replay_simps cong: option.case_cong)
    qed (simp add: page_of_def cong: option.case_cong)
    then show ?thesis using Some by (simp del: replay_simps)
  qed
qed

lemma safe_mutes_page:
  assumes k: "goes_on sh g0 i \<Phi> (AskMutesPage pk offset limit) k h"
  shows "later_safe sh g0 i \<Phi> (mutes_page_prog sh pk offset limit (\<lambda>r. k (PageReply r))) [] h"
  unfolding mutes_page_prog_def
proof (rule later_names)
  fix e1 :: "graph_write history"
  assume e1: "i \<notin> fst ` set e1"
  let ?f = "\<lambda>nid g. case map_of (mutes g) nid of None \<Rightarrow> Some None | Some l \<Rightarrow> map_option Some (page_of g (mute_ids l) offset limit)"
  let ?hs = "[(MutesLock, Shared), (PubkeysLock, Shared)]"
  let ?rest = "\<lambda>nid g. Release MutesLock (Release PubkeysLock (k (PageReply (?f nid g))))"
  show "later_safe sh g0 i \<Phi>
     (case pubkey_to_id (replay g0 (h @ e1)) pk of None \<Rightarrow> k (PageReply (Some None))
      | Some nid \<Rightarrow> Acquire PubkeysLock Shared (Acquire MutesLock Shared (Get (?rest nid)))) [] (h @ e1)"
  proof (cases "pubkey_to_id (replay g0 (h @ e1)) pk")
    case None
    then show ?thesis using goes_onD [OF k e1] by (simp add: get_mutes_page_def get_node_id_def del: replay_simps)
  next
    case (Some nid)
    have "later_safe sh g0 i \<Phi> (Acquire PubkeysLock Shared (Acquire MutesLock Shared (Get (?rest nid)))) [] (h @ e1)"
    proof (rule later_Acquire, rule later_Acquire, rule later_Get)
      fix s and e2 :: "graph_write history"
      assume e2: "i \<notin> fst ` set e2" and v: "lin.sees sh g0 ?hs s ((h @ e1) @ e2)"
      have "pubkey_to_id (replay g0 (h @ e1 @ e2)) pk = Some nid" using replay_names [OF Some, of e2] by (simp only: append.assoc)
      then have "get_mutes_page (replay g0 (h @ e1 @ e2)) pk offset limit = ?f nid s"
        using sees_fields [OF v]
        by (simp add: get_mutes_page_def get_node_id_def page_of_def del: replay_simps cong: option.case_cong)
      then have "later_safe sh g0 i \<Phi> (k (PageReply (?f nid s))) [] ((h @ e1) @ e2)"
        using goes_onD [OF k appended [OF e1 e2], of "PageReply (?f nid s)"] by (simp del: replay_simps)
      then have "later_safe sh g0 i \<Phi> (?rest nid s) ?hs ((h @ e1) @ e2)"
        by (intro later_Release) simp_all
      then show "lin.safe sh g0 i \<Phi> (?rest nid s) ?hs s ((h @ e1) @ e2)" by (rule later_safeD)
    qed
    then show ?thesis using Some by (simp del: replay_simps)
  qed
qed

lemma safe_common:
  assumes k: "goes_on sh g0 i \<Phi> (AskCommon a b) k h"
  shows "later_safe sh g0 i \<Phi> (common_prog sh a b (\<lambda>r. k (CommonReply r))) [] h"
  unfolding common_prog_def
proof (rule later_names, rule later_names)
  fix e1 e2 :: "graph_write history"
  assume e1: "i \<notin> fst ` set e1" and e2: "i \<notin> fst ` set e2"
  note e12 = appended [OF e1 e2]
  let ?f = "\<lambda>f t g. case (index (follows g) f, index (follows g) t) of
      (Some a, Some b) \<Rightarrow> collect_all (index (id_to_pubkey g)) (intersect_sorted a b) | _ \<Rightarrow> None"
  show "later_safe sh g0 i \<Phi>
     (case (pubkey_to_id (replay g0 (h @ e1)) a, pubkey_to_id (replay g0 ((h @ e1) @ e2)) b) of
        (Some f, Some t) \<Rightarrow> read_follows (?f f t) (\<lambda>r. k (CommonReply r))
      | _ \<Rightarrow> k (CommonReply (Some []))) [] ((h @ e1) @ e2)"
  proof (cases "pubkey_to_id (replay g0 (h @ e1)) a")
    case None
    then have "later_safe sh g0 i \<Phi> (k (CommonReply (Some []))) [] (h @ e1)"
      using goes_onD [OF k e1] by (simp add: common_follows_def get_node_id_def del: replay_simps)
    then show ?thesis using None later_safe_more [OF _ e2] by (simp del: replay_simps append_assoc)
  next
    case f: (Some f)
    have f2: "pubkey_to_id (replay g0 ((h @ e1) @ e2)) a = Some f" by (rule replay_names [OF f])
    show ?thesis
    proof (cases "pubkey_to_id (replay g0 ((h @ e1) @ e2)) b")
      case None
      then have "later_safe sh g0 i \<Phi> (k (CommonReply (Some []))) [] (h @ e1 @ e2)"
        using goes_onD [OF k e12, of "CommonReply (Some [])"] f2
        by (simp add: common_follows_def get_node_id_def del: replay_simps)
      then show ?thesis using None f by (simp del: replay_simps)
    next
      case t: (Some t)
      have "later_safe sh g0 i \<Phi> (read_follows (?f f t) (\<lambda>r. k (CommonReply r))) [] ((h @ e1) @ e2)"
      proof (rule later_read_follows)
        fix e3 :: "graph_write history"
        assume e3: "i \<notin> fst ` set e3"
        have "common_follows (replay g0 (((h @ e1) @ e2) @ e3)) a b = ?f f t (replay g0 (((h @ e1) @ e2) @ e3))"
          using replay_names [OF f2, of e3] replay_names [OF t, of e3]
          by (simp add: common_follows_def get_node_id_def del: replay_simps append_assoc)
        then show "later_safe sh g0 i \<Phi> (k (CommonReply (?f f t (replay g0 (((h @ e1) @ e2) @ e3))))) [] (((h @ e1) @ e2) @ e3)"
          using goes_onD [OF k appended [OF e12 e3], of "CommonReply (?f f t (replay g0 (((h @ e1) @ e2) @ e3)))"]
          by (simp only: reply_at.simps append.assoc)
      qed (simp cong: option.case_cong)
      then show ?thesis using f t by (simp del: replay_simps append_assoc)
    qed
  qed
qed

lemma evidence_cong:
  assumes "follows g = follows g'" "id_to_pubkey g = id_to_pubkey g'" "mutes g = mutes g'"
  shows "evidence_of_ids g f t = evidence_of_ids g' f t"
proof -
  have "has_mute_edge g = has_mute_edge g'" "mute_list_known g = mute_list_known g'"
    using assms(3) by (simp_all add: fun_eq_iff has_mute_edge_def mute_list_known_def cong: option.case_cong)
  then show ?thesis using assms(1,2) by (simp add: evidence_of_ids_def cong: option.case_cong)
qed

lemma safe_evidence:
  assumes k: "goes_on sh g0 i \<Phi> (AskEvidence a b) k h"
  shows "later_safe sh g0 i \<Phi> (evidence_prog sh a b (\<lambda>r. k (EvidenceReply r))) [] h"
  unfolding evidence_prog_def
proof (rule later_names, rule later_names, rule later_Acquire, rule later_Acquire, rule later_Acquire, rule later_Get)
  fix e1 e2 e3 :: "graph_write history" and s
  let ?hs = "[(MutesLock, Shared), (PubkeysLock, Shared), (FollowsLock, Shared)]"
  let ?H = "((h @ e1) @ e2) @ e3"
  let ?f = "pubkey_to_id (replay g0 (h @ e1)) a" and ?t = "pubkey_to_id (replay g0 ((h @ e1) @ e2)) b"
  assume e: "i \<notin> fst ` set e1" "i \<notin> fst ` set e2" "i \<notin> fst ` set e3" and v: "lin.sees sh g0 ?hs s ?H"
  have "evidence_of_ids s ?f ?t = evidence_of_ids (replay g0 ?H) ?f ?t"
    by (rule evidence_cong) (use sees_fields [OF v] in simp_all)
  then have "reply_since g0 h (e1 @ e2 @ e3) (AskEvidence a b) (EvidenceReply (evidence_of_ids s ?f ?t))"
    unfolding reply_since.simps get_node_id_def
    by (intro exI [of _ e1] exI [of _ e2] exI [of _ e3]) (simp only: append.assoc simp_thms)
  then have "later_safe sh g0 i \<Phi> (k (EvidenceReply (evidence_of_ids s ?f ?t))) [] ?H"
    using k appended [OF e(1) appended [OF e(2,3)]] unfolding goes_on_def append.assoc by blast
  then have "later_safe sh g0 i \<Phi> (Release MutesLock (Release PubkeysLock (Release FollowsLock
      (k (EvidenceReply (evidence_of_ids s ?f ?t)))))) ?hs ?H"
    by (intro later_Release) simp_all
  then show "lin.safe sh g0 i \<Phi> (Release MutesLock (Release PubkeysLock (Release FollowsLock
      (k (EvidenceReply (evidence_of_ids s ?f ?t)))))) ?hs s ?H" by (rule later_safeD)
qed

lemma safe_get_follows:
  assumes k: "goes_on sh g0 i \<Phi> (AskFollows pk) k h"
  shows "later_safe sh g0 i \<Phi> (get_follows_prog sh pk (\<lambda>r. k (NamesReply r))) [] h"
  unfolding get_follows_prog_def
proof (rule later_names)
  fix e1 :: "graph_write history"
  assume e1: "i \<notin> fst ` set e1"
  let ?f = "\<lambda>nid g. map_option (resolve_pubkeys_arc g) (index (follows g) nid)"
  show "later_safe sh g0 i \<Phi>
     (case pubkey_to_id (replay g0 (h @ e1)) pk of None \<Rightarrow> k (NamesReply None)
      | Some nid \<Rightarrow> read_follows (?f nid) (\<lambda>r. k (NamesReply r))) [] (h @ e1)"
  proof (cases "pubkey_to_id (replay g0 (h @ e1)) pk")
    case None
    then show ?thesis using goes_onD [OF k e1] by (simp add: get_follows_def get_node_id_def del: replay_simps)
  next
    case (Some nid)
    have "later_safe sh g0 i \<Phi> (read_follows (?f nid) (\<lambda>r. k (NamesReply r))) [] (h @ e1)"
    proof (rule later_read_follows)
      fix e2 :: "graph_write history"
      assume e2: "i \<notin> fst ` set e2"
      have "pubkey_to_id (replay g0 (h @ e1 @ e2)) pk = Some nid" using replay_names [OF Some, of e2] by (simp only: append.assoc)
      then show "later_safe sh g0 i \<Phi> (k (NamesReply (?f nid (replay g0 ((h @ e1) @ e2))))) [] ((h @ e1) @ e2)"
        using goes_onD [OF k appended [OF e1 e2]] by (simp add: get_follows_def get_node_id_def del: replay_simps)
    next
      fix g g' :: wot_graph
      assume g: "follows g = follows g'" "id_to_pubkey g = id_to_pubkey g'"
      show "?f nid g = ?f nid g'" unfolding g(1) resolve_cong [OF g(2)] ..
    qed
    then show ?thesis using Some by (simp del: replay_simps)
  qed
qed

lemma safe_get_followers:
  assumes k: "goes_on sh g0 i \<Phi> (AskFollowers pk) k h"
  shows "later_safe sh g0 i \<Phi> (get_followers_prog sh pk (\<lambda>r. k (NamesReply r))) [] h"
  unfolding get_followers_prog_def
proof (rule later_names)
  fix e1 :: "graph_write history"
  assume e1: "i \<notin> fst ` set e1"
  let ?f = "\<lambda>nid g. map_option (resolve_pubkeys_arc g) (index (followers g) nid)"
  let ?hs = "[(PubkeysLock, Shared), (FollowersLock, Shared)]"
  let ?rest = "\<lambda>nid g. Release PubkeysLock (Release FollowersLock (k (NamesReply (?f nid g))))"
  show "later_safe sh g0 i \<Phi>
     (case pubkey_to_id (replay g0 (h @ e1)) pk of None \<Rightarrow> k (NamesReply None)
      | Some nid \<Rightarrow> Acquire FollowersLock Shared (Acquire PubkeysLock Shared (Get (?rest nid)))) [] (h @ e1)"
  proof (cases "pubkey_to_id (replay g0 (h @ e1)) pk")
    case None
    then show ?thesis using goes_onD [OF k e1] by (simp add: get_followers_def get_node_id_def del: replay_simps)
  next
    case (Some nid)
    have "later_safe sh g0 i \<Phi> (Acquire FollowersLock Shared (Acquire PubkeysLock Shared (Get (?rest nid)))) [] (h @ e1)"
    proof (rule later_Acquire, rule later_Acquire, rule later_Get)
      fix s and e2 :: "graph_write history"
      assume e2: "i \<notin> fst ` set e2" and v: "lin.sees sh g0 ?hs s ((h @ e1) @ e2)"
      have p: "pubkey_to_id (replay g0 (h @ e1 @ e2)) pk = Some nid" using replay_names [OF Some, of e2] by (simp only: append.assoc)
      have "resolve_pubkeys_arc s = resolve_pubkeys_arc (replay g0 ((h @ e1) @ e2))"
        by (rule resolve_cong) (use sees_fields [OF v] in simp)
      then have "get_followers (replay g0 (h @ e1 @ e2)) pk = ?f nid s"
        using sees_fields [OF v] p by (simp add: get_followers_def get_node_id_def del: replay_simps)
      then have "later_safe sh g0 i \<Phi> (k (NamesReply (?f nid s))) [] ((h @ e1) @ e2)"
        using goes_onD [OF k appended [OF e1 e2], of "NamesReply (?f nid s)"] by (simp del: replay_simps)
      then have "later_safe sh g0 i \<Phi> (?rest nid s) ?hs ((h @ e1) @ e2)"
        by (intro later_Release) simp_all
      then show "lin.safe sh g0 i \<Phi> (?rest nid s) ?hs s ((h @ e1) @ e2)" by (rule later_safeD)
    qed
    then show ?thesis using Some by (simp del: replay_simps)
  qed
qed

section \<open>Statistics\<close>

lemma safe_stats:
  assumes k: "goes_on sh g0 i \<Phi> AskStats k h"
  shows "later_safe sh g0 i \<Phi> (stats_prog (\<lambda>r. k (StatsReply r))) [] h"
  unfolding stats_prog_def
proof (rule later_Acquire, rule later_Acquire, rule later_Get)
  fix s1 :: wot_graph and e1 :: "graph_write history"
  assume e1: "i \<notin> fst ` set e1"
  let ?h1 = "[(PubkeysLock, Shared), (FollowsLock, Shared)]"
  let ?h2 = "(MutesLock, Shared) # ?h1"
  let ?r = "\<lambda>g g'. \<lparr>stat_node_count = length (id_to_pubkey g), stat_edge_count = sum_list (map length (follows g)),
      stat_nodes_with_follows = length (filter (\<lambda>l. l \<noteq> []) (follows g)),
      stat_mute_edge_count = sum_list (map (\<lambda>(_, l). length (mute_ids l)) (mutes g')),
      stat_nodes_with_mute_lists = length (mutes g')\<rparr>"
  let ?rest = "\<lambda>g'. Release MutesLock (Release PubkeysLock (Release FollowsLock (k (StatsReply (?r s1 g')))))"
  show "lin.safe sh g0 i \<Phi> (Acquire MutesLock Shared (Get ?rest)) ?h1 s1 (h @ e1)"
    unfolding lin.safe.simps(2,4)
  proof (intro allI impI)
    fix s2 h2 s3 h3
    assume a: "lin.rely sh g0 i ?h1 s1 (h @ e1) s2 h2" "lin.rely sh g0 i ?h2 s2 h2 s3 h3"
    obtain e2 where e2: "h2 = h @ e2" "i \<notin> fst ` set e2" using rely_append [OF a(1) e1] .
    obtain e3 where e3: "h3 = h @ e3" "i \<notin> fst ` set e3" using rely_append [OF a(2) [unfolded e2(1)] e2(2)] .
    have "follows s3 = follows s1" "id_to_pubkey s3 = id_to_pubkey s1"
      using rely_fields [OF a(1), where m = Shared] rely_fields [OF a(2), where m = Shared] by simp_all
    then have "?r s1 s3 = stats (replay g0 (h @ e3))"
      using sees_fields [OF lin.rely_sees [OF a(2)]] unfolding stats_def e3(1) by (simp del: replay_simps)
    then have "later_safe sh g0 i \<Phi> (k (StatsReply (?r s1 s3))) [] (h @ e3)"
      using goes_onD [OF k e3(2), of "StatsReply (?r s1 s3)"] by (simp del: replay_simps)
    then have "later_safe sh g0 i \<Phi> (?rest s3) ?h2 (h @ e3)" by (intro later_Release) simp_all
    then show "lin.safe sh g0 i \<Phi> (?rest s3) ?h2 s3 h3" unfolding e3(1) by (rule later_safeD)
  qed
qed

section \<open>Searches\<close>

abbreviation adjacency_guards :: "graph_lock guards" where
  "adjacency_guards \<equiv> [(FollowersLock, Shared), (FollowsLock, Shared)]"

text \<open>Within a search that has read the vectors \<open>out\<close> and \<open>inn\<close>.\<close>

definition searching :: "wot_graph \<Rightarrow> graph_write history \<Rightarrow> nat list list \<Rightarrow> nat list list \<Rightarrow> bool" where
  "searching g0 h out inn \<longleftrightarrow> follows (replay g0 h) = out \<and> followers (replay g0 h) = inn"

lemma later_adjacency:
  assumes "\<And>s evs. i \<notin> fst ` set evs \<Longrightarrow> searching g0 (h @ evs) (follows s) (followers s) \<Longrightarrow>
      lin.safe sh g0 i \<Phi> (body s) adjacency_guards s (h @ evs)"
  shows "later_safe sh g0 i \<Phi> (with_adjacency_prog body) [] h"
  unfolding with_adjacency_prog_def
proof (rule later_Acquire, rule later_Acquire, rule later_Get)
  fix s evs
  assume "i \<notin> fst ` set evs" "lin.sees sh g0 adjacency_guards s (h @ evs)"
  then show "lin.safe sh g0 i \<Phi> (body s) adjacency_guards s (h @ evs)"
    using assms sees_fields [of sh g0 adjacency_guards s "h @ evs"] by (simp add: searching_def del: replay_simps)
qed

lemma safe_release_adjacency:
  "later_safe sh g0 i \<Phi> p [] h \<Longrightarrow> lin.safe sh g0 i \<Phi> (release_adjacency p) adjacency_guards s h"
  unfolding release_adjacency_def by (rule later_safeD, rule later_Release, simp, rule later_Release) simp_all

lemma safe_resolve:
  assumes s: "searching g0 h (follows s) (followers s)"
    and k: "\<And>s' evs. i \<notin> fst ` set evs \<Longrightarrow> searching g0 (h @ evs) (follows s) (followers s) \<Longrightarrow>
      later_safe sh g0 i \<Phi> (p (resolve_pubkeys_arc (replay g0 (h @ evs)) ids)) [] (h @ evs)"
  shows "lin.safe sh g0 i \<Phi> (resolve_prog ids (\<lambda>names. release_adjacency (p names))) adjacency_guards s h"
  unfolding resolve_prog_def lin.safe.simps(2,4)
proof (intro allI impI)
  fix s2 h2 s3 h3
  let ?hs = "(PubkeysLock, Shared) # adjacency_guards"
  assume a: "lin.rely sh g0 i adjacency_guards s h s2 h2" "lin.rely sh g0 i ?hs s2 h2 s3 h3"
  obtain e2 where e2: "h2 = h @ e2" "i \<notin> fst ` set e2" using rely_hist [OF a(1)] by blast
  obtain e3 where e3: "h3 = h @ e3" "i \<notin> fst ` set e3" using rely_append [OF a(2) [unfolded e2(1)] e2(2)] .
  have "follows s3 = follows s" "followers s3 = followers s"
    using rely_fields [OF a(1), where m = Shared] rely_fields [OF a(2), where m = Shared] by simp_all
  then have sr: "searching g0 (h @ e3) (follows s) (followers s)"
    using sees_fields [OF lin.rely_sees [OF a(2)]] unfolding searching_def e3(1) by simp
  have "resolve_pubkeys_arc s3 = resolve_pubkeys_arc (replay g0 (h @ e3))"
    by (rule resolve_cong) (use sees_fields [OF lin.rely_sees [OF a(2)]] e3(1) in simp)
  then have "later_safe sh g0 i \<Phi> (p (resolve_pubkeys_arc s3 ids)) [] (h @ e3)" using k [OF e3(2) sr] by simp
  then have "later_safe sh g0 i \<Phi> (Release PubkeysLock (release_adjacency (p (resolve_pubkeys_arc s3 ids)))) ?hs (h @ e3)"
    unfolding release_adjacency_def by (intro later_Release) simp_all
  then show "lin.safe sh g0 i \<Phi> (Release PubkeysLock (release_adjacency (p (resolve_pubkeys_arc s3 ids)))) ?hs s3 h3"
    unfolding e3(1) by (rule later_safeD)
qed

text \<open>The end of the search, compared with the function.\<close>

lemma finish_prog_cases:
  fixes sr :: bfs_search and k :: "distance_result \<Rightarrow> 'r graph_prog"
  obtains (resolve) ids r where
    "finish_prog fid tid n ib mu a b sr k = resolve_prog ids (\<lambda>names. k (r\<lparr>bridges := Some names\<rparr>))"
    "\<And>g. fst (finish_search g fid tid n ib mu a b sr) = r\<lparr>bridges := Some (resolve_pubkeys_arc g ids)\<rparr>"
  | (direct) r where
    "finish_prog fid tid n ib mu a b sr k = k r"
    "\<And>g. fst (finish_search g fid tid n ib mu a b sr) = r"
proof (cases "best_distance sr")
  case None
  then show ?thesis by (intro direct) (simp_all add: finish_prog_def finish_search_def)
next
  case (Some x)
  show ?thesis
  proof (cases "x \<le> n")
    case False
    then show ?thesis using Some by (intro direct) (simp_all add: finish_prog_def finish_search_def)
  next
    case True
    show ?thesis
    proof (cases ib)
      case False
      then show ?thesis using Some True by (intro direct) (simp_all add: finish_prog_def finish_search_def Let_def)
    next
      case ib: True
      obtain seen ids where "collect_bridges fid tid (meeting_nodes sr) (bridge_set sr, bridge_ids sr) = (seen, ids)"
        by fastforce
      then show ?thesis using Some True ib
        by (intro resolve [of ids "\<lparr>dr_from = a, dr_to = b, hops = Some x, path_count = total_paths (meeting_nodes sr),
          mutual_follow = mu, bridges = None\<rparr>"]) (simp_all add: finish_prog_def finish_search_def Let_def)
    qed
  qed
qed

text \<open>What the search computes from the vectors and the names alone.\<close>

lemma distance_of_vectors:
  assumes "dq_from q \<noteq> dq_to q" "pubkey_to_id G (dq_from q) = Some x" "pubkey_to_id G (dq_to q) = Some y"
    "follows G = out" "followers G = inn"
  shows "compute_distance G bfs_state_new q =
    (if 0 < unat (dq_max_hops q) \<and> is_direct out x y then
       Some (\<lparr>dr_from = dq_from q, dr_to = dq_to q, hops = Some 1, path_count = 1,
              mutual_follow = (is_direct out x y \<and> is_direct out y x),
              bridges = (if dq_include_bridges q then Some [] else None)\<rparr>, bfs_state_new)
     else map_option (finish_search G x y (unat (dq_max_hops q)) (dq_include_bridges q)
            (is_direct out x y \<and> is_direct out y x) (dq_from q) (dq_to q))
       (bfs_loop out inn (unat (dq_max_hops q)) (start_search (bfs_clear bfs_state_new) x y)))"
  using assms by (simp add: compute_distance_def get_node_id_and_arc_def bidirectional_bfs_def Let_def)

lemma safe_search:
  assumes ne: "dq_from q \<noteq> dq_to q"
    and f: "pubkey_to_id (replay g0 H) (dq_from q) = Some x" and t: "pubkey_to_id (replay g0 H) (dq_to q) = Some y"
    and k: "goes_on sh g0 i \<Phi> (AskDistance q) k H"
  shows "later_safe sh g0 i \<Phi> (search_prog q x y (\<lambda>r. k (DistanceReply r))) [] H"
  unfolding search_prog_def
proof (rule later_adjacency)
  fix s :: wot_graph and e3 :: "graph_write history"
  assume e3: "i \<notin> fst ` set e3" and sr: "searching g0 (H @ e3) (follows s) (followers s)"
  let ?n = "unat (dq_max_hops q)" and ?out = "follows s" and ?inn = "followers s"
  let ?mu = "is_direct ?out x y \<and> is_direct ?out y x"
  let ?loop = "bfs_loop ?out ?inn ?n (start_search (bfs_clear bfs_state_new) x y)"
  let ?direct = "\<lparr>dr_from = dq_from q, dr_to = dq_to q, hops = Some 1, path_count = 1, mutual_follow = ?mu,
      bridges = (if dq_include_bridges q then Some [] else None)\<rparr>"
  let ?fin = "\<lambda>z. finish_prog x y ?n (dq_include_bridges q) ?mu (dq_from q) (dq_to q) z
      (\<lambda>r. release_adjacency (k (DistanceReply (Some r))))"
  have search: "compute_distance (replay g0 (H @ e)) bfs_state_new q =
      (if 0 < ?n \<and> is_direct ?out x y then Some (?direct, bfs_state_new)
       else map_option (finish_search (replay g0 (H @ e)) x y ?n (dq_include_bridges q) ?mu (dq_from q) (dq_to q)) ?loop)"
    if "searching g0 (H @ e) ?out ?inn" for e
    by (rule distance_of_vectors [OF ne replay_names [OF f] replay_names [OF t]])
      (use that in \<open>simp_all add: searching_def del: replay_simps\<close>)
  have go: "later_safe sh g0 i \<Phi> (k (DistanceReply r)) [] (H @ e)"
    if "i \<notin> fst ` set e" "r = map_option fst (compute_distance (replay g0 (H @ e)) bfs_state_new q)" for e r
    by (rule goes_onD [OF k that(1)]) (simp only: reply_at.simps that(2))
  have "lin.safe sh g0 i \<Phi> (if 0 < ?n \<and> is_direct ?out x y then release_adjacency (k (DistanceReply (Some ?direct)))
      else case ?loop of None \<Rightarrow> release_adjacency (k (DistanceReply None)) | Some z \<Rightarrow> ?fin z) adjacency_guards s (H @ e3)"
  proof (cases "0 < ?n \<and> is_direct ?out x y")
    case True
    show ?thesis
      unfolding if_P [OF True] by (rule safe_release_adjacency, rule go [OF e3]) (simp only: search [OF sr] if_P [OF True] option.map fst_conv)
  next
    case dir: False
    show ?thesis
    proof (cases ?loop)
      case None
      show ?thesis
        unfolding if_not_P [OF dir] None option.case
        by (rule safe_release_adjacency, rule go [OF e3]) (simp only: search [OF sr] if_not_P [OF dir] None option.map)
    next
      case (Some z)
      let ?res = "\<lambda>G. fst (finish_search G x y ?n (dq_include_bridges q) ?mu (dq_from q) (dq_to q) z)"
      have go2: "later_safe sh g0 i \<Phi> (k (DistanceReply (Some (?res (replay g0 (H @ e)))))) [] (H @ e)"
        if "i \<notin> fst ` set e" "searching g0 (H @ e) ?out ?inn" for e
        by (rule go [OF that(1)]) (simp only: search [OF that(2)] if_not_P [OF dir] Some option.map)
      have "lin.safe sh g0 i \<Phi> (?fin z) adjacency_guards s (H @ e3)"
      proof (cases rule: finish_prog_cases [of x y ?n "dq_include_bridges q" ?mu "dq_from q" "dq_to q" z
            "\<lambda>r. release_adjacency (k (DistanceReply (Some r)))"])
        case (resolve ids r)
        have "later_safe sh g0 i \<Phi> (k (DistanceReply (Some (r\<lparr>bridges := Some (resolve_pubkeys_arc (replay g0 ((H @ e3) @ e4)) ids)\<rparr>))))
            [] ((H @ e3) @ e4)"
          if "i \<notin> fst ` set e4" "searching g0 ((H @ e3) @ e4) ?out ?inn" for e4
          using go2 [OF appended [OF e3 that(1)]] that(2) unfolding resolve(2) by (simp only: append.assoc)
        then show ?thesis unfolding resolve(1) by (rule safe_resolve [OF sr])
      next
        case (direct r)
        show ?thesis unfolding direct(1) using go2 [OF e3 sr] unfolding direct(2) by (rule safe_release_adjacency)
      qed
      then show ?thesis unfolding if_not_P [OF dir] Some option.case .
    qed
  qed
  then show "lin.safe sh g0 i \<Phi> (let mutual = ?mu in
      if 0 < ?n \<and> is_direct ?out x y
      then release_adjacency (k (DistanceReply (Some \<lparr>dr_from = dq_from q, dr_to = dq_to q, hops = Some 1, path_count = 1,
        mutual_follow = mutual, bridges = (if dq_include_bridges q then Some [] else None)\<rparr>)))
      else case ?loop of None \<Rightarrow> release_adjacency (k (DistanceReply None))
        | Some z \<Rightarrow> finish_prog x y ?n (dq_include_bridges q) mutual (dq_from q) (dq_to q) z
            (\<lambda>r. release_adjacency (k (DistanceReply (Some r))))) adjacency_guards s (H @ e3)"
    by (simp only: Let_def)
qed

text \<open>The two look-ups before a search.\<close>

lemma goes_on_more: "goes_on sh g0 i \<Phi> c k h \<Longrightarrow> i \<notin> fst ` set evs \<Longrightarrow> goes_on sh g0 i \<Phi> c k (h @ evs)"
  unfolding goes_on_def append.assoc using appended reply_since_shift by metis

lemma safe_two_names:
  assumes none: "\<And>e. i \<notin> fst ` set e \<Longrightarrow>
      pubkey_to_id (replay g0 (h @ e)) a = None \<or> pubkey_to_id (replay g0 (h @ e)) a \<noteq> None \<and> pubkey_to_id (replay g0 (h @ e)) b = None \<Longrightarrow>
      later_safe sh g0 i \<Phi> none [] (h @ e)"
    and both: "\<And>e x y. i \<notin> fst ` set e \<Longrightarrow> pubkey_to_id (replay g0 (h @ e)) a = Some x \<Longrightarrow>
      pubkey_to_id (replay g0 (h @ e)) b = Some y \<Longrightarrow> later_safe sh g0 i \<Phi> (both x y) [] (h @ e)"
  shows "later_safe sh g0 i \<Phi> (names_prog sh a (\<lambda>f. case f of None \<Rightarrow> none
      | Some x \<Rightarrow> names_prog sh b (\<lambda>t. case t of None \<Rightarrow> none | Some y \<Rightarrow> both x y))) [] h"
proof (rule later_names)
  fix e1 :: "graph_write history"
  assume e1: "i \<notin> fst ` set e1"
  show "later_safe sh g0 i \<Phi> (case pubkey_to_id (replay g0 (h @ e1)) a of None \<Rightarrow> none
      | Some x \<Rightarrow> names_prog sh b (\<lambda>t. case t of None \<Rightarrow> none | Some y \<Rightarrow> both x y)) [] (h @ e1)"
  proof (cases "pubkey_to_id (replay g0 (h @ e1)) a")
    case None
    show ?thesis unfolding None option.case by (rule none [OF e1]) (use None in blast)
  next
    case f: (Some x)
    show ?thesis
      unfolding f option.case
    proof (rule later_names)
      fix e2 :: "graph_write history"
      assume e2: "i \<notin> fst ` set e2"
      note e = appended [OF e1 e2]
      have f2: "pubkey_to_id (replay g0 (h @ e1 @ e2)) a = Some x" using replay_names [OF f, of e2] by (simp only: append.assoc)
      show "later_safe sh g0 i \<Phi> (case pubkey_to_id (replay g0 ((h @ e1) @ e2)) b of None \<Rightarrow> none | Some y \<Rightarrow> both x y)
          [] ((h @ e1) @ e2)"
        unfolding append.assoc
        using none [OF e] both [OF e f2] f2
        by (cases "pubkey_to_id (replay g0 (h @ e1 @ e2)) b") (simp_all del: replay_simps)
    qed
  qed
qed

lemma safe_one_name:
  assumes "\<And>e. i \<notin> fst ` set e \<Longrightarrow> later_safe sh g0 i \<Phi> p [] (h @ e)"
  shows "later_safe sh g0 i \<Phi> (names_prog sh a (\<lambda>_. p)) [] h"
  using assms by (rule later_names)

lemma safe_distance:
  assumes k: "goes_on sh g0 i \<Phi> (AskDistance q) k h"
  shows "later_safe sh g0 i \<Phi> (distance_prog sh q (\<lambda>r. k (DistanceReply r))) [] h"
proof (cases "dq_from q = dq_to q")
  case True
  then show ?thesis
    unfolding distance_prog_def if_P [OF True]
    by (intro safe_one_name goes_onD [OF k])
      (simp_all add: compute_distance_def get_pubkey_arc_by_str_def del: replay_simps split: option.split)
next
  case ne: False
  show ?thesis
    unfolding distance_prog_def if_not_P [OF ne]
  proof (rule safe_two_names)
    fix e :: "graph_write history"
    assume e: "i \<notin> fst ` set e"
    assume "pubkey_to_id (replay g0 (h @ e)) (dq_from q) = None \<or>
      pubkey_to_id (replay g0 (h @ e)) (dq_from q) \<noteq> None \<and> pubkey_to_id (replay g0 (h @ e)) (dq_to q) = None"
    then show "later_safe sh g0 i \<Phi> (k (DistanceReply (Some (not_found (dq_from q) (dq_to q))))) [] (h @ e)"
      using ne by (intro goes_onD [OF k e]) (auto simp: compute_distance_def get_node_id_and_arc_def simp del: replay_simps)
  next
    fix x y and e :: "graph_write history"
    assume "i \<notin> fst ` set e" "pubkey_to_id (replay g0 (h @ e)) (dq_from q) = Some x" "pubkey_to_id (replay g0 (h @ e)) (dq_to q) = Some y"
    then show "later_safe sh g0 i \<Phi> (search_prog q x y (\<lambda>r. k (DistanceReply r))) [] (h @ e)"
      using safe_search [OF ne] goes_on_more [OF k] by blast
  qed
qed

lemma path_of_vectors:
  assumes "pq_from q \<noteq> pq_to q" "pubkey_to_id G (pq_from q) = Some x" "pubkey_to_id G (pq_to q) = Some y"
    "follows G = out" "followers G = inn"
  shows "compute_path G q =
    (if 0 < unat (pq_max_hops q) \<and> is_direct out x y then Some (path_answer q (Some []))
     else case path_loop out inn (unat (pq_max_hops q)) (path_side_new x, path_side_new y, None) of
         None \<Rightarrow> None
       | Some (F, B, None) \<Rightarrow> Some (path_answer q None)
       | Some (F, B, Some meet) \<Rightarrow>
           map_option (\<lambda>ids. path_answer q (Some (resolve_pubkeys_arc G ids))) (trace_path x y F B meet))"
  using assms
  by (simp add: compute_path_def get_node_id_and_arc_def search_path_def path_answer_def option.map_comp comp_def
      split: option.split prod.split)

lemma safe_path_search:
  assumes ne: "pq_from q \<noteq> pq_to q"
    and f: "pubkey_to_id (replay g0 H) (pq_from q) = Some x" and t: "pubkey_to_id (replay g0 H) (pq_to q) = Some y"
    and k: "goes_on sh g0 i \<Phi> (AskPath q) k H"
  shows "later_safe sh g0 i \<Phi> (path_search_prog q x y (\<lambda>r. k (PathReply r))) [] H"
  unfolding path_search_prog_def
proof (rule later_adjacency)
  fix s :: wot_graph and e3 :: "graph_write history"
  assume e3: "i \<notin> fst ` set e3" and sr: "searching g0 (H @ e3) (follows s) (followers s)"
  let ?n = "unat (pq_max_hops q)" and ?out = "follows s" and ?inn = "followers s"
  let ?loop = "path_loop ?out ?inn ?n (path_side_new x, path_side_new y, None)"
  let ?found = "\<lambda>ids. resolve_prog ids (\<lambda>names. release_adjacency (k (PathReply (Some (path_answer q (Some names))))))"
  note search = path_of_vectors [OF ne replay_names [OF f] replay_names [OF t], of _ ?out ?inn]
  have go: "lin.safe sh g0 i \<Phi> (release_adjacency (k (PathReply r))) adjacency_guards s (H @ e3)"
    if "r = compute_path (replay g0 (H @ e3)) q" for r
    by (rule safe_release_adjacency, rule goes_onD [OF k e3]) (simp only: reply_at.simps that)
  have cp: "compute_path (replay g0 (H @ e)) q =
    (if 0 < ?n \<and> is_direct ?out x y then Some (path_answer q (Some []))
     else case ?loop of None \<Rightarrow> None
       | Some (F, B, None) \<Rightarrow> Some (path_answer q None)
       | Some (F, B, Some meet) \<Rightarrow>
           map_option (\<lambda>ids. path_answer q (Some (resolve_pubkeys_arc (replay g0 (H @ e)) ids))) (trace_path x y F B meet))"
    if "searching g0 (H @ e) ?out ?inn" for e
    by (rule search) (use that in \<open>simp_all add: searching_def del: replay_simps\<close>)
  show "lin.safe sh g0 i \<Phi> (if 0 < ?n \<and> is_direct ?out x y then release_adjacency (k (PathReply (Some (path_answer q (Some [])))))
      else case ?loop of None \<Rightarrow> release_adjacency (k (PathReply None))
        | Some (F, B, None) \<Rightarrow> release_adjacency (k (PathReply (Some (path_answer q None))))
        | Some (F, B, Some meet) \<Rightarrow>
            (case trace_path x y F B meet of None \<Rightarrow> release_adjacency (k (PathReply None)) | Some ids \<Rightarrow> ?found ids))
      adjacency_guards s (H @ e3)"
  proof (cases "0 < ?n \<and> is_direct ?out x y")
    case True
    show ?thesis unfolding if_P [OF True] by (rule go) (simp only: cp [OF sr] if_P [OF True])
  next
    case dir: False
    note cp' = cp [unfolded if_not_P [OF dir]]
    show ?thesis
    proof (cases ?loop)
      case None
      show ?thesis unfolding if_not_P [OF dir] None option.case by (rule go) (simp only: cp' [OF sr] None option.case)
    next
      case (Some st)
      obtain F B meet where st: "st = (F, B, meet)" by (cases st)
      note loop = Some [unfolded st]
      show ?thesis
      proof (cases meet)
        case None
        show ?thesis
          unfolding if_not_P [OF dir] loop None option.case prod.case
          by (rule go) (simp only: cp' [OF sr] loop None option.case prod.case)
      next
        case m: (Some m)
        show ?thesis
        proof (cases "trace_path x y F B m")
          case None
          show ?thesis
            unfolding if_not_P [OF dir] loop m option.case prod.case None
            by (rule go) (simp only: cp' [OF sr] loop m option.case prod.case None option.map)
        next
          case ids: (Some ids)
          have "later_safe sh g0 i \<Phi> (k (PathReply (Some (path_answer q (Some (resolve_pubkeys_arc (replay g0 ((H @ e3) @ e4)) ids))))))
              [] ((H @ e3) @ e4)"
            if "i \<notin> fst ` set e4" "searching g0 ((H @ e3) @ e4) ?out ?inn" for e4
            unfolding append.assoc
            by (rule goes_onD [OF k appended [OF e3 that(1)]])
              (simp only: reply_at.simps cp' [OF that(2) [unfolded append.assoc]] loop m option.case prod.case ids option.map)
          then show ?thesis
            unfolding if_not_P [OF dir] loop m option.case prod.case ids by (rule safe_resolve [OF sr])
        qed
      qed
    qed
  qed
qed

lemma safe_path:
  assumes k: "goes_on sh g0 i \<Phi> (AskPath q) k h"
  shows "later_safe sh g0 i \<Phi> (path_prog sh q (\<lambda>r. k (PathReply r))) [] h"
proof (cases "pq_from q = pq_to q")
  case True
  then show ?thesis
    unfolding path_prog_def if_P [OF True]
    by (intro safe_one_name goes_onD [OF k])
      (simp_all add: compute_path_def path_answer_def get_pubkey_arc_by_str_def Let_def del: replay_simps split: option.split)
next
  case ne: False
  show ?thesis
    unfolding path_prog_def if_not_P [OF ne]
  proof (rule safe_two_names)
    fix e :: "graph_write history"
    assume e: "i \<notin> fst ` set e"
    assume "pubkey_to_id (replay g0 (h @ e)) (pq_from q) = None \<or>
      pubkey_to_id (replay g0 (h @ e)) (pq_from q) \<noteq> None \<and> pubkey_to_id (replay g0 (h @ e)) (pq_to q) = None"
    then show "later_safe sh g0 i \<Phi> (k (PathReply (Some (path_answer q None)))) [] (h @ e)"
      using ne by (intro goes_onD [OF k e]) (auto simp: compute_path_def path_answer_def get_node_id_and_arc_def simp del: replay_simps)
  next
    fix x y and e :: "graph_write history"
    assume "i \<notin> fst ` set e" "pubkey_to_id (replay g0 (h @ e)) (pq_from q) = Some x" "pubkey_to_id (replay g0 (h @ e)) (pq_to q) = Some y"
    then show "later_safe sh g0 i \<Phi> (path_search_prog q x y (\<lambda>r. k (PathReply r))) [] (h @ e)"
      using safe_path_search [OF ne] goes_on_more [OF k] by blast
  qed
qed

end
