(* ===== verification/GraphLinear.thy ===== *)
theory GraphLinear
  imports GraphReads
begin

text \<open>
  Concurrent calls are linearizable. \<open>linear_trace\<close> is the specification: calls, atomic writes and
  replies in one order, every reply right at a moment within its call. \<open>service\<close> is the machine:
  threads that begin any call at any time, go on as the locks let them, and are answered. Every run of
  it has such a trace.
\<close>

section \<open>The specification\<close>

fun call_write :: "graph_call \<Rightarrow> graph_write option" where
  "call_write (CallFollows a l e t) = Some (WriteFollows a l e t)"
| "call_write (CallMutes a l e t) = Some (WriteMutes a l e t)"
| "call_write _ = None"

text \<open>The keys a call may create nodes for.\<close>

fun call_keys :: "graph_call \<Rightarrow> string set" where
  "call_keys (CallNode pk) = {pk}"
| "call_keys (CallFollows a l e t) = insert a (set l)"
| "call_keys (CallMutes a l e t) = insert a (set l)"
| "call_keys _ = {}"

definition call_events :: "nat \<Rightarrow> graph_call \<Rightarrow> graph_write history" where
  "call_events i c = (case call_write c of None \<Rightarrow> [] | Some w \<Rightarrow> [(i, w)])"

text \<open>
  \<open>call_done g0 i c hb r h\<close>: since the end of \<open>hb\<close> thread \<open>i\<close> has made the call \<open>c\<close>, and nothing else,
  with the reply \<open>r\<close>. Its events stand together: the nodes the call created, then its write. The reply
  is right for the graph before the write; the others' events came before and after.
\<close>

definition call_done ::
    "wot_graph \<Rightarrow> nat \<Rightarrow> graph_call \<Rightarrow> graph_write history \<Rightarrow> graph_reply \<Rightarrow> graph_write history \<Rightarrow> bool" where
  "call_done g0 i c hb r h \<longleftrightarrow>
     (\<exists>evs nds evs'. h = hb @ evs @ nds @ call_events i c @ evs' \<and> i \<notin> fst ` set evs \<and> i \<notin> fst ` set evs' \<and>
        set nds \<subseteq> (\<lambda>pk. (i, WriteNode pk)) ` call_keys c \<and> reply_since g0 hb (evs @ nds) c r)"

text \<open>A trace: the calls and replies of all threads and the writes that took effect, in one order.\<close>

datatype trace_item = Called nat graph_call | Wrote nat graph_write | Answered nat graph_reply

fun is_write :: "trace_item \<Rightarrow> bool" where
  "is_write (Wrote i w) = True"
| "is_write _ = False"

fun writes_of :: "trace_item list \<Rightarrow> graph_write history" where
  "writes_of [] = []"
| "writes_of (Wrote i w # T) = (i, w) # writes_of T"
| "writes_of (Called i c # T) = writes_of T"
| "writes_of (Answered i r # T) = writes_of T"

type_synonym open_calls = "nat \<Rightarrow> (graph_call \<times> graph_write history) option"

text \<open>
  Linearizable traces. A thread writes only within a call, and a reply needs that the call was done
  within the part of the trace since it began. \<open>open_calls\<close> are the calls in progress, each with the
  history at its beginning.
\<close>

inductive linear_trace :: "wot_graph \<Rightarrow> trace_item list \<Rightarrow> open_calls \<Rightarrow> bool" for g0 where
  Quiet: "linear_trace g0 [] Map.empty"
| Calls: "linear_trace g0 T op \<Longrightarrow> op i = None \<Longrightarrow> linear_trace g0 (T @ [Called i c]) (op(i \<mapsto> (c, writes_of T)))"
| Writes: "linear_trace g0 T op \<Longrightarrow> op i = Some (c, hb) \<Longrightarrow> linear_trace g0 (T @ [Wrote i w]) op"
| Answers: "linear_trace g0 T op \<Longrightarrow> op i = Some (c, hb) \<Longrightarrow> call_done g0 i c hb r (writes_of T) \<Longrightarrow>
    linear_trace g0 (T @ [Answered i r]) (op(i := None))"

lemma writes_of_append [simp]: "writes_of (T @ T') = writes_of T @ writes_of T'"
  by (induction T rule: writes_of.induct) simp_all

text \<open>Once its calls are answered, a thread has written nodes and the lists of its calls only.\<close>

lemma linear_trace_own:
  "linear_trace g0 T op \<Longrightarrow>
    (case op i of None \<Rightarrow> \<forall>nodes. (i, WriteSnapshot nodes) \<notin> set (writes_of T)
     | Some (c, hb) \<Rightarrow> \<forall>nodes. (i, WriteSnapshot nodes) \<notin> set hb)"
proof (induction rule: linear_trace.induct)
  case (Answers T op j c hb r)
  show ?case
  proof (cases "j = i")
    case True
    have old: "(i, WriteSnapshot nodes) \<notin> set hb" for nodes using Answers.IH Answers.hyps(2) True by simp
    obtain evs nds evs' where h: "writes_of T = hb @ evs @ nds @ call_events i c @ evs'" "i \<notin> fst ` set evs" "i \<notin> fst ` set evs'"
      "set nds \<subseteq> (\<lambda>pk. (i, WriteNode pk)) ` call_keys c"
      using Answers.hyps(3) True by (auto simp: call_done_def)
    have "(i, WriteSnapshot nodes) \<notin> set (call_events i c)" for nodes by (cases c) (simp_all add: call_events_def)
    then have "(i, WriteSnapshot nodes) \<notin> set (writes_of T)" for nodes
      using old h by (force simp: h(1))
    then show ?thesis using True by simp
  next
    case False
    then show ?thesis using Answers.IH by (auto split: option.splits)
  qed
qed (auto split: option.splits)

lemma replay_run_writes:
  "(\<And>e nodes. e \<in> set h \<Longrightarrow> snd e \<noteq> WriteSnapshot nodes) \<Longrightarrow> run_writes (map snd h) g = Some (replay g h)"
proof (induction h arbitrary: g)
  case (Cons e h)
  have "run_write (snd e) g = Some (apply_write (snd e) g)"
  proof (cases "snd e")
    case (WriteSnapshot nodes)
    then show ?thesis using Cons.prems [of e nodes] by simp
  qed (simp_all add: apply_write_def)
  then show ?case using Cons by (cases e) simp
qed simp

section \<open>Every thread is safe\<close>

lemma safe_database:
  assumes "goes_on sh g0 i \<Phi> CallDatabase k h"
  shows "later_safe sh g0 i \<Phi> (call_prog sh CallDatabase k) [] h"
proof -
  have k: "later_safe sh g0 i \<Phi> (k DatabaseReply) [] h" using goes_onD [OF assms, of "[]"] by simp
  have "later_safe sh g0 i \<Phi> (Release ConnLock (k DatabaseReply)) [(ConnLock, Exclusive)] h"
    unfolding later_safe_def lin.safe.simps
  proof (intro allI impI)
    fix s evs s' h'
    assume e: "i \<notin> fst ` set evs" and r: "lin.rely sh g0 i [(ConnLock, Exclusive)] s (h @ evs) s' h'"
    obtain e2 where e2: "h' = h @ e2" "i \<notin> fst ` set e2" using rely_append [OF r e] .
    have "lin.change sh g0 i [(ConnLock, Exclusive)] s' h' s' []"
      by (rule lin.change_silent [OF _ lin.same_refl]) (use lin.rely_sees [OF r] in \<open>simp add: lin.sees_def\<close>)
    moreover have "lin.safe sh g0 i \<Phi> (k DatabaseReply) [] s' h'" using k e2 by (simp add: later_safe_def)
    ultimately show "\<exists>evs. lin.change sh g0 i [(ConnLock, Exclusive)] s' h' s' evs \<and>
        ((ConnLock, Exclusive) \<in> set [(ConnLock, Exclusive)] \<longrightarrow> tracked_lock ConnLock \<longrightarrow> same_lock sh ConnLock s' (replay g0 (h' @ evs))) \<and>
        lin.safe sh g0 i \<Phi> (k DatabaseReply) (drop_guard ConnLock [(ConnLock, Exclusive)]) s' (h' @ evs)"
      by (intro exI [of _ "[]"]) simp
  qed
  then show ?thesis unfolding call_prog.simps by (rule later_Acquire)
qed

lemma safe_reader_call:
  assumes "call_write c = None" "live_call c" "\<And>pk. c \<noteq> CallNode pk" and k: "goes_on sh g0 i \<Phi> c k h"
  shows "later_safe sh g0 i \<Phi> (call_prog sh c k) [] h"
proof (cases c)
  case CallDatabase
  then show ?thesis using safe_database k by simp
next
  case (AskDistance q)
  then show ?thesis using safe_distance k by simp
next
  case (AskPath q)
  then show ?thesis using safe_path k by simp
next
  case (AskFollowsPage pk offset limit)
  then show ?thesis using safe_follows_page k by simp
next
  case (AskMutesPage pk offset limit)
  then show ?thesis using safe_mutes_page k by simp
next
  case (AskCommon a b)
  then show ?thesis using safe_common k by simp
next
  case (AskEvidence a b)
  then show ?thesis using safe_evidence k by simp
next
  case (AskFollows pk)
  then show ?thesis using safe_get_follows k by simp
next
  case (AskFollowers pk)
  then show ?thesis using safe_get_followers k by simp
next
  case AskStats
  then show ?thesis using safe_stats k by simp
qed (use assms in auto)

text \<open>A call, and what its caller may rely on.\<close>

lemma safe_call:
  assumes g0: "ids_in_range g0" and live: "live_call c"
    and k: "\<And>evs nds evs' r s'. i \<notin> fst ` set evs \<Longrightarrow> i \<notin> fst ` set evs' \<Longrightarrow>
      set nds \<subseteq> (\<lambda>pk. (i, WriteNode pk)) ` call_keys c \<Longrightarrow> reply_since g0 h (evs @ nds) c r \<Longrightarrow>
      lin.safe sh g0 i \<Phi> (k r) [] s' (h @ evs @ nds @ call_events i c @ evs')"
  shows "lin.safe sh g0 i \<Phi> (call_prog sh c k) [] s h"
proof -
  have reads: "goes_on sh g0 i \<Phi> c k h" if "call_write c = None"
    unfolding goes_on_def later_safe_def
  proof (intro allI impI)
    fix evs evs' :: "graph_write history" and r s'
    assume "i \<notin> fst ` set evs" "reply_since g0 h evs c r" "i \<notin> fst ` set evs'"
    then show "lin.safe sh g0 i \<Phi> (k r) [] s' ((h @ evs) @ evs')"
      using k [of evs evs' "[]" r s'] that by (simp add: call_events_def)
  qed
  have read: ?thesis if "call_write c = None" "\<And>pk. c \<noteq> CallNode pk"
    by (rule later_safeD, rule safe_reader_call [OF that(1) live that(2) reads [OF that(1)]])
  show ?thesis
  proof (cases c)
    case (CallNode pk)
    show ?thesis
      unfolding CallNode call_prog.simps
    proof (rule safe_node)
      fix s' and evs nds :: "graph_write history"
      assume e: "i \<notin> fst ` set evs" "nds = [] \<or> nds = [(i, WriteNode pk)]"
      show "lin.safe sh g0 i \<Phi> (k (NodeReply (fst (get_or_create_node (replay g0 (h @ evs @ nds)) pk)))) [] s' (h @ evs @ nds)"
        using k [of evs "[]" nds _ s'] e CallNode by (auto simp: call_events_def simp del: replay_simps)
    qed
  next
    case (CallFollows a l e t)
    show ?thesis
      unfolding CallFollows call_prog.simps
    proof (rule safe_follows [OF g0])
      fix s' and evs nds :: "graph_write history"
      assume e: "i \<notin> fst ` set evs" "set nds \<subseteq> (\<lambda>pk. (i, WriteNode pk)) ` insert a (set l)"
      show "lin.safe sh g0 i \<Phi> (k (WroteReply (fst (update_follows (replay g0 (h @ evs @ nds)) a l e t)))) [] s'
          (h @ evs @ nds @ [(i, WriteFollows a l e t)])"
        using k [of evs "[]" nds _ s'] e CallFollows by (simp add: call_events_def del: replay_simps)
    qed
  next
    case (CallMutes a l e t)
    show ?thesis
      unfolding CallMutes call_prog.simps
    proof (rule safe_mutes)
      fix s' and evs nds :: "graph_write history"
      assume e: "i \<notin> fst ` set evs" "set nds \<subseteq> (\<lambda>pk. (i, WriteNode pk)) ` insert a (set l)"
      show "lin.safe sh g0 i \<Phi> (k (WroteReply (fst (update_mutes (replay g0 (h @ evs @ nds)) a l e t)))) [] s'
          (h @ evs @ nds @ [(i, WriteMutes a l e t)])"
        using k [of evs "[]" nds _ s'] e CallMutes by (simp add: call_events_def del: replay_simps)
    qed
  qed (rule read; simp)+
qed

lemma safe_call_done:
  assumes "ids_in_range g0" "live_call c"
  shows "lin.safe sh g0 i (\<lambda>r h. call_done g0 i c hb r h) (call_prog sh c Return) [] s hb"
proof (rule safe_call [OF assms])
  fix evs nds evs' :: "graph_write history" and r s'
  assume e: "i \<notin> fst ` set evs" "i \<notin> fst ` set evs'" "set nds \<subseteq> (\<lambda>pk. (i, WriteNode pk)) ` call_keys c"
    "reply_since g0 hb (evs @ nds) c r"
  show "lin.safe sh g0 i (\<lambda>r h. call_done g0 i c hb r h) (Return r) [] s' (hb @ evs @ nds @ call_events i c @ evs')"
    unfolding lin.safe.simps
  proof (intro allI impI)
    fix s2 h2
    assume "lin.rely sh g0 i [] s' (hb @ evs @ nds @ call_events i c @ evs') s2 h2"
    then obtain e2 where e2: "h2 = (hb @ evs @ nds @ call_events i c @ evs') @ e2" "i \<notin> fst ` set e2"
      using rely_hist by blast
    have "h2 = hb @ evs @ nds @ call_events i c @ (evs' @ e2)" unfolding e2(1) by (simp only: append.assoc)
    then show "call_done g0 i c hb r h2" unfolding call_done_def using e(1,3,4) appended [OF e(2) e2(2)] by blast
  qed
qed

lemma safe_calls:
  fixes h :: "graph_write history"
  assumes "ids_in_range g0" "\<forall>c \<in> set cs. live_call c"
  shows "lin.safe sh g0 i (\<lambda>_ _. True) (calls_prog sh cs rs) [] s h"
  using assms(2)
proof (induction cs arbitrary: rs s h)
  case Nil
  then show ?case by (simp add: lin.safe.simps)
next
  case (Cons c cs)
  show ?case
    unfolding calls_prog.simps by (rule safe_call [OF assms(1)]) (use Cons in simp_all)
qed

theorem pool_keeps:
  assumes g0: "ids_in_range g0" and live: "\<forall>cs \<in> set css. \<forall>c \<in> set cs. live_call c"
    and run: "pool_run admits (graph_pool sh g0 css) c" and step: "pool_next admits c i = Some c'"
    and j: "j < length css" "j \<noteq> i" "(l, m) \<in> set (thr_held (pool_threads c ! j))"
  shows "same_lock sh l (pool_state c) (pool_state c')"
proof -
  let ?ps = "map (\<lambda>cs. calls_prog sh cs []) css"
  have start: "graph_pool sh g0 css = pool_start (replay g0 []) ?ps" by (simp add: graph_pool_def)
  have safe: "lin.safe sh g0 i (\<lambda>_ _. True) (?ps ! i) [] (replay g0 []) []" if "i < length ?ps" for i
  proof -
    have "css ! i \<in> set css" using that by simp
    then have "\<forall>c \<in> set (css ! i). live_call c" using live by blast
    then show ?thesis using safe_calls [OF g0] that by simp
  qed
  show ?thesis using lin.run_keeps [OF run [unfolded start] safe step _ j(2,3)] j(1) by simp
qed

section \<open>Any interleaving of any calls\<close>

text \<open>
  Threads that call the graph at will. A thread without an open call may begin one, a thread within a
  call goes on when the locks let it, and a finished call is answered.
\<close>

record service =
  srv_pool :: "(graph_lock, wot_graph, graph_reply) pool"
  srv_open :: "nat \<Rightarrow> graph_call option"
  srv_log :: "trace_item list"

datatype action = Invoke nat graph_call | Proceed nat | Answer nat

definition service_start :: "wot_graph \<Rightarrow> nat \<Rightarrow> service" where
  "service_start g n =
     \<lparr>srv_pool = pool_start g (replicate n (Return DatabaseReply)), srv_open = Map.empty, srv_log = []\<rparr>"

definition take_up :: "nat \<Rightarrow> graph_reply graph_prog \<Rightarrow> (graph_lock, wot_graph, graph_reply) pool \<Rightarrow> (graph_lock, wot_graph, graph_reply) pool" where
  "take_up i p c = c\<lparr>pool_threads := (pool_threads c)[i := \<lparr>thr_held = [], thr_prog = p\<rparr>]\<rparr>"

fun service_step ::
    "((graph_lock, wot_graph, graph_reply) pool \<Rightarrow> nat \<Rightarrow> bool) \<Rightarrow> shards \<Rightarrow> action \<Rightarrow> service \<Rightarrow> service option" where
  "service_step admits sh (Invoke i c) v =
     (if i < length (pool_threads (srv_pool v)) \<and> srv_open v i = None
      then Some \<lparr>srv_pool = take_up i (call_prog sh c Return) (srv_pool v),
                 srv_open = (srv_open v)(i \<mapsto> c), srv_log = srv_log v @ [Called i c]\<rparr>
      else None)"
| "service_step admits sh (Proceed i) v =
     (if srv_open v i = None then None
      else map_option (\<lambda>p. v\<lparr>srv_pool := p\<rparr>) (pool_next admits (srv_pool v) i))"
| "service_step admits sh (Answer i) v =
     (if srv_open v i = None then None
      else case result_of (pool_threads (srv_pool v) ! i) of
             None \<Rightarrow> None
           | Some r \<Rightarrow> Some (v\<lparr>srv_open := (srv_open v)(i := None), srv_log := srv_log v @ [Answered i r]\<rparr>))"

fun service_run ::
    "((graph_lock, wot_graph, graph_reply) pool \<Rightarrow> nat \<Rightarrow> bool) \<Rightarrow> shards \<Rightarrow> action list \<Rightarrow> service \<Rightarrow> service option" where
  "service_run admits sh [] v = Some v"
| "service_run admits sh (a # as) v = Option.bind (service_step admits sh a v) (service_run admits sh as)"

section \<open>The invariant of a service\<close>

definition call_goals :: "wot_graph \<Rightarrow> open_calls \<Rightarrow> nat \<Rightarrow> graph_reply \<Rightarrow> graph_write history \<Rightarrow> bool" where
  "call_goals g0 op i r h = (case op i of None \<Rightarrow> True | Some (c, hb) \<Rightarrow> call_done g0 i c hb r h)"

definition service_inv :: "shards \<Rightarrow> wot_graph \<Rightarrow> nat \<Rightarrow> service \<Rightarrow> trace_item list \<Rightarrow> open_calls \<Rightarrow> bool" where
  "service_inv sh g0 n v T op \<longleftrightarrow>
     length (pool_threads (srv_pool v)) = n \<and> linear_trace g0 T op \<and>
     filter (\<lambda>x. \<not> is_write x) T = srv_log v \<and> (\<forall>i. map_option fst (op i) = srv_open v i) \<and>
     pool_ordered lock_rank (srv_pool v) \<and> lin.in_step sh g0 (call_goals g0 op) (srv_pool v) (writes_of T) \<and>
     (\<forall>i<n. op i = None \<longrightarrow> finished (pool_threads (srv_pool v) ! i)) \<and> (\<forall>i\<ge>n. op i = None)"

lemma finished_free:
  fixes c :: "(graph_lock, wot_graph, 'r) pool"
  assumes "pool_ordered lock_rank c" "i < length (pool_threads c)" "finished (pool_threads c ! i)"
  shows "thr_held (pool_threads c ! i) = []"
proof -
  have "ok (thr_prog (pool_threads c ! i)) (thr_held (pool_threads c ! i))"
    using assms(1,2) by (simp add: pool_ordered_def)
  then show ?thesis using assms(3) by (cases "thr_prog (pool_threads c ! i)") (simp_all add: finished_def)
qed

lemma service_start_inv: "service_inv sh g0 n (service_start g0 n) [] Map.empty"
proof -
  let ?ps = "replicate n (Return DatabaseReply :: graph_reply graph_prog)"
  have "lin.in_step sh g0 (call_goals g0 Map.empty) (pool_start (replay g0 []) ?ps) []"
    by (rule lin.start_in_step) (simp add: lin.safe.simps call_goals_def)
  moreover have "pool_ordered lock_rank (pool_start g0 ?ps)" by (rule pool_start_ordered) simp
  moreover have "finished (pool_threads (pool_start g0 ?ps) ! i)" if "i < n" for i
    using that by (simp add: pool_start_def finished_def)
  ultimately show ?thesis
    by (simp add: service_inv_def service_start_def Quiet) (simp add: pool_start_def)
qed

lemma wrote_trace:
  "linear_trace g0 T op \<Longrightarrow> op i = Some (c, hb) \<Longrightarrow> fst ` set evs \<subseteq> {i} \<Longrightarrow>
    linear_trace g0 (T @ map (\<lambda>(j, w). Wrote j w) evs) op \<and> writes_of (map (\<lambda>(j, w). Wrote j w) evs) = evs \<and>
    filter (\<lambda>x. \<not> is_write x) (map (\<lambda>(j, w). Wrote j w) evs) = []"
proof (induction evs arbitrary: T)
  case (Cons e evs)
  obtain w where e: "e = (i, w)" using Cons.prems(3) by (cases e) auto
  have "linear_trace g0 (T @ [Wrote i w]) op" using Writes Cons.prems(1,2) by blast
  from Cons.IH [OF this Cons.prems(2)] show ?case using Cons.prems(3) e by simp
qed simp

lemma invoke_inv:
  assumes inv: "service_inv sh g0 n v T op" and g0: "ids_in_range g0" and live: "live_call c"
    and step: "service_step admits sh (Invoke i c) v = Some v'"
  shows "service_inv sh g0 n v' (T @ [Called i c]) (op(i \<mapsto> (c, writes_of T)))"
proof -
  let ?c = "srv_pool v" and ?op = "op(i \<mapsto> (c, writes_of T))" and ?t = "\<lparr>thr_held = [], thr_prog = call_prog sh c Return\<rparr>"
  have f: "i < n" "srv_open v i = None" "length (pool_threads ?c) = n"
    and v': "v' = \<lparr>srv_pool = take_up i (call_prog sh c Return) ?c, srv_open = (srv_open v)(i \<mapsto> c), srv_log = srv_log v @ [Called i c]\<rparr>"
    using step inv by (auto simp: service_inv_def split: if_splits)
  have op: "op i = None" using inv f(2) by (simp add: service_inv_def) (metis option.map_disc_iff)
  have ord: "pool_ordered lock_rank ?c" using inv by (simp add: service_inv_def)
  have held: "thr_held (pool_threads ?c ! i) = []"
    using finished_free [OF ord] inv op f by (simp add: service_inv_def)
  have "call_goals g0 ?op i = (\<lambda>r h. call_done g0 i c (writes_of T) r h)" by (simp add: call_goals_def fun_eq_iff)
  then have "lin.safe sh g0 i (call_goals g0 ?op i) (thr_prog ?t) [] (pool_state ?c) (writes_of T)"
    using safe_call_done [OF g0 live] by simp
  then have "lin.in_step sh g0 (call_goals g0 ?op) (?c\<lparr>pool_threads := (pool_threads ?c)[i := ?t]\<rparr>) (writes_of T)"
    by (intro lin.install_in_step [of sh g0 "call_goals g0 op"])
      (use inv held in \<open>simp_all add: service_inv_def call_goals_def fun_eq_iff\<close>)
  moreover have "ordered lock_rank (call_prog sh c Return) []" using ok_call [of Return sh c] by simp
  then have "pool_ordered lock_rank (take_up i (call_prog sh c Return) ?c)"
    using ord set_update_subset_insert [of "pool_threads ?c" i ?t] by (auto simp: pool_ordered_def take_up_def)
  ultimately show ?thesis
    using inv Calls [of g0 T op i c] op f unfolding service_inv_def v'
    by (auto simp: take_up_def nth_list_update)
qed

lemma proceed_inv:
  assumes inv: "service_inv sh g0 n v T op" and step: "service_step admits sh (Proceed i) v = Some v'"
  shows "\<exists>T'. service_inv sh g0 n v' T' op"
proof -
  let ?c = "srv_pool v"
  obtain d where o: "srv_open v i \<noteq> None" and d: "pool_next admits ?c i = Some d" and v': "v' = v\<lparr>srv_pool := d\<rparr>"
    using step by (auto split: if_splits)
  have "map_option fst (op i) = srv_open v i" using inv by (simp add: service_inv_def)
  then obtain c hb where op: "op i = Some (c, hb)" using o by (cases "op i") auto
  have "lin.in_step sh g0 (call_goals g0 op) ?c (writes_of T)" using inv by (simp add: service_inv_def)
  from lin.next_in_step [OF this d] obtain evs where
    evs: "lin.in_step sh g0 (call_goals g0 op) d (writes_of T @ evs)" "fst ` set evs \<subseteq> {i}" by blast
  let ?T = "T @ map (\<lambda>(j, w). Wrote j w) evs"
  have t: "linear_trace g0 ?T op" "writes_of ?T = writes_of T @ evs" "filter (\<lambda>x. \<not> is_write x) ?T = filter (\<lambda>x. \<not> is_write x) T"
    using wrote_trace [of g0 T op i c hb evs] op evs(2) inv by (simp_all add: service_inv_def)
  have ord: "pool_ordered lock_rank d" using pool_next_ordered [OF d] inv by (simp add: service_inv_def)
  have len: "length (pool_threads d) = length (pool_threads ?c)" and same: "\<And>j. j \<noteq> i \<Longrightarrow> pool_threads d ! j = pool_threads ?c ! j"
    using d by (auto simp: pool_next_Some)
  have "service_inv sh g0 n v' ?T op"
    unfolding service_inv_def v' t(2,3) using inv t(1) ord evs(1) len same op
    by (simp add: service_inv_def) (metis option.distinct(1))
  then show ?thesis by blast
qed

lemma answer_inv:
  assumes inv: "service_inv sh g0 n v T op" and step: "service_step admits sh (Answer i) v = Some v'"
  shows "\<exists>T'. service_inv sh g0 n v' T' (op(i := None))"
proof -
  let ?c = "srv_pool v"
  obtain r where o: "srv_open v i \<noteq> None" and r: "result_of (pool_threads ?c ! i) = Some r"
    and v': "v' = v\<lparr>srv_open := (srv_open v)(i := None), srv_log := srv_log v @ [Answered i r]\<rparr>"
    using step by (auto split: if_splits option.splits)
  have "map_option fst (op i) = srv_open v i" using inv by (simp add: service_inv_def)
  then obtain c hb where op: "op i = Some (c, hb)" using o by (cases "op i") auto
  have i: "i < length (pool_threads ?c)" using inv op by (simp add: service_inv_def) (metis not_le option.distinct(1))
  have prog: "thr_prog (pool_threads ?c ! i) = Return r" using r by (auto simp: result_of_def split: prog.splits)
  have inn: "lin.in_step sh g0 (call_goals g0 op) ?c (writes_of T)" using inv by (simp add: service_inv_def)
  have made: "call_done g0 i c hb r (writes_of T)"
    using lin.in_step_result [OF inn i prog] op by (simp add: call_goals_def)
  have fin: "finished (pool_threads ?c ! i)" using prog by (simp add: finished_def)
  have held: "thr_held (pool_threads ?c ! i) = []" using finished_free [OF _ i fin] inv by (simp add: service_inv_def)
  have any: "call_goals g0 (op(i := None)) i = (\<lambda>r h. True)" by (simp add: call_goals_def fun_eq_iff)
  have "lin.in_step sh g0 (call_goals g0 (op(i := None))) (?c\<lparr>pool_threads := (pool_threads ?c)[i := pool_threads ?c ! i]\<rparr>) (writes_of T)"
    by (rule lin.install_in_step [OF inn held held])
      (simp add: any prog lin.safe.simps, simp add: call_goals_def fun_eq_iff)
  then have inn': "lin.in_step sh g0 (call_goals g0 (op(i := None))) ?c (writes_of T)" by simp
  have trace: "linear_trace g0 (T @ [Answered i r]) (op(i := None))"
    using Answers [of g0 T op i c hb r] op made inv by (simp add: service_inv_def)
  have "service_inv sh g0 n v' (T @ [Answered i r]) (op(i := None))"
    using inv trace inn' fin unfolding service_inv_def v' by auto
  then show ?thesis by blast
qed

fun live_action :: "action \<Rightarrow> bool" where
  "live_action (Invoke i c) = live_call c"
| "live_action _ = True"

lemma service_run_inv:
  assumes g0: "ids_in_range g0"
  shows "service_inv sh g0 n v T op \<Longrightarrow> \<forall>a \<in> set as. live_action a \<Longrightarrow> service_run admits sh as v = Some v' \<Longrightarrow>
    \<exists>T' op'. service_inv sh g0 n v' T' op'"
proof (induction as arbitrary: v T op)
  case Nil
  then show ?case by auto
next
  case (Cons a as)
  obtain u where u: "service_step admits sh a v = Some u" "service_run admits sh as u = Some v'"
    using Cons.prems(3) by (auto simp: Option.bind_eq_Some_conv)
  have "\<exists>T1 op1. service_inv sh g0 n u T1 op1"
  proof (cases a)
    case (Invoke i c)
    then show ?thesis using invoke_inv [OF Cons.prems(1) g0, of c admits i u] u(1) Cons.prems(2) by auto
  next
    case (Proceed i)
    then show ?thesis using proceed_inv [OF Cons.prems(1), of admits i u] u(1) by auto
  next
    case (Answer i)
    then show ?thesis using answer_inv [OF Cons.prems(1), of admits i u] u(1) by auto
  qed
  then show ?case using Cons.IH u(2) Cons.prems(2) by auto
qed

theorem service_linear:
  assumes g0: "ids_in_range g0" and live: "\<forall>a \<in> set as. live_action a"
    and run: "service_run admits sh as (service_start g0 n) = Some v"
  shows "\<exists>T op. linear_trace g0 T op \<and> filter (\<lambda>x. \<not> is_write x) T = srv_log v \<and> (\<forall>i. map_option fst (op i) = srv_open v i) \<and>
    ((\<forall>i. srv_open v i = None) \<longrightarrow> run_writes (map snd (writes_of T)) g0 = Some (pool_state (srv_pool v)) \<and>
       (\<forall>w \<in> snd ` set (writes_of T). write_valid w))"
proof -
  let ?c = "srv_pool v"
  obtain T op where inv: "service_inv sh g0 n v T op"
    using service_run_inv [OF g0 service_start_inv live run] by blast
  have "run_writes (map snd (writes_of T)) g0 = Some (pool_state ?c) \<and> (\<forall>w \<in> snd ` set (writes_of T). write_valid w)"
    if idle: "\<forall>i. srv_open v i = None"
  proof -
    have op: "op i = None" for i using inv idle by (simp add: service_inv_def)
    have "thr_held t = []" if "t \<in> set (pool_threads ?c)" for t
      using that inv op finished_free [of ?c] by (auto simp: service_inv_def in_set_conv_nth)
    then have "lin.nobody_writes ?c MutationLock" by (simp add: lin.nobody_writes_def)
    then have "pool_state ?c = replay g0 (writes_of T)"
      using inv lin.whole_tracked lin.whole_same unfolding service_inv_def lin.in_step_def by blast
    moreover have lists: "snd e \<noteq> WriteSnapshot nodes" if "e \<in> set (writes_of T)" for e nodes
    proof -
      have "linear_trace g0 T op" using inv by (simp add: service_inv_def)
      from linear_trace_own [OF this, of "fst e"] have "(fst e, WriteSnapshot nodes) \<notin> set (writes_of T)" by (simp add: op)
      then show ?thesis using that by (cases e) auto
    qed
    then have "run_writes (map snd (writes_of T)) g0 = Some (replay g0 (writes_of T))" by (rule replay_run_writes)
    moreover have "write_valid w" if "w \<in> snd ` set (writes_of T)" for w
      using lists that by (cases w) force+
    ultimately show ?thesis by simp
  qed
  then show ?thesis using inv unfolding service_inv_def by blast
qed

end
