(* ===== verification/QuerySlots.thy ===== *)
theory QuerySlots
  imports HttpBatch Dvm
begin

text \<open>
  The query permits (\<open>query_slots\<close> of \<open>main.rs\<close>, taken in \<open>api/http.rs\<close> and \<open>api/dvm.rs\<close>): a fair
  semaphore that all computing requests share. A handler takes a permit at once or is refused; the
  vending machine, which handles one request after another, waits for one. A permit moves into the
  blocking task and is given back when the task ends, by a panic too, or is dropped before it has
  started; a client that goes away stops the handler, not the task. A permit given back goes to a
  waiting request first, as the semaphore of \<open>tokio\<close> promises.
\<close>

section \<open>Permits and their holders\<close>

datatype requester = HttpRequest nat | VendingMachine

record query_job =
  job_for :: requester
  job_started :: bool

text \<open>Where the vending machine stands: between requests, in \<open>acquire_owned\<close>, past it, or awaiting its task.\<close>

datatype dvm_turn = DvmFree | DvmWaiting | DvmGranted | DvmComputing

record query_slots =
  slots_free :: nat
  slots_jobs :: "query_job list"
  slots_dvm :: dvm_turn

definition query_slots_new :: query_slots where
  "query_slots_new = \<lparr>slots_free = 4, slots_jobs = [], slots_dvm = DvmFree\<rparr>"

datatype slot_event =
    HttpAsks nat
  | ClientGone nat
  | DvmAsks
  | DvmSpawns
  | DvmGoesOn
  | JobStarts nat
  | JobEnds nat
  | JobDropped nat

definition take_permit :: "query_slots \<Rightarrow> query_slots" where
  "take_permit s = s\<lparr>slots_free := slots_free s - 1\<rparr>"

definition spawn_job :: "requester \<Rightarrow> query_slots \<Rightarrow> query_slots" where
  "spawn_job r s = s\<lparr>slots_jobs := slots_jobs s @ [\<lparr>job_for = r, job_started = False\<rparr>]\<rparr>"

definition give_back :: "query_slots \<Rightarrow> query_slots" where
  "give_back s =
     (if slots_dvm s = DvmWaiting then s\<lparr>slots_dvm := DvmGranted\<rparr> else s\<lparr>slots_free := slots_free s + 1\<rparr>)"

definition remove_job :: "nat \<Rightarrow> query_slots \<Rightarrow> query_slots" where
  "remove_job n s = s\<lparr>slots_jobs := take n (slots_jobs s) @ drop (Suc n) (slots_jobs s)\<rparr>"

text \<open>One event; \<open>None\<close> where it cannot happen.\<close>

fun slot_step :: "slot_event \<Rightarrow> query_slots \<Rightarrow> query_slots option" where
  "slot_step (HttpAsks i) s =
     (case query_permit (slots_free s) of
        Err _ \<Rightarrow> Some s
      | Ok _ \<Rightarrow> Some (spawn_job (HttpRequest i) (take_permit s)))"
| "slot_step (ClientGone i) s = Some s"
| "slot_step DvmAsks s =
     (if slots_dvm s \<noteq> DvmFree then None
      else if slots_free s = 0 then Some (s\<lparr>slots_dvm := DvmWaiting\<rparr>)
      else Some (take_permit s\<lparr>slots_dvm := DvmGranted\<rparr>))"
| "slot_step DvmSpawns s =
     (if slots_dvm s = DvmGranted then Some (spawn_job VendingMachine (s\<lparr>slots_dvm := DvmComputing\<rparr>)) else None)"
| "slot_step DvmGoesOn s =
     (if slots_dvm s = DvmComputing \<and> VendingMachine \<notin> job_for ` set (slots_jobs s)
      then Some (s\<lparr>slots_dvm := DvmFree\<rparr>) else None)"
| "slot_step (JobStarts n) s =
     (case index (slots_jobs s) n of
        Some j \<Rightarrow> if job_started j then None
                   else Some (s\<lparr>slots_jobs := (slots_jobs s)[n := j\<lparr>job_started := True\<rparr>]\<rparr>)
      | None \<Rightarrow> None)"
| "slot_step (JobEnds n) s =
     (case index (slots_jobs s) n of
        Some j \<Rightarrow> if job_started j then Some (give_back (remove_job n s)) else None
      | None \<Rightarrow> None)"
| "slot_step (JobDropped n) s =
     (case index (slots_jobs s) n of
        Some j \<Rightarrow> if job_started j then None else Some (give_back (remove_job n s))
      | None \<Rightarrow> None)"

fun slot_run :: "slot_event list \<Rightarrow> query_slots \<Rightarrow> query_slots option" where
  "slot_run [] s = Some s"
| "slot_run (e # es) s = Option.bind (slot_step e s) (slot_run es)"

lemma slot_run_append: "slot_run (es @ es') s = Option.bind (slot_run es s) (slot_run es')"
  by (induction es arbitrary: s) (auto simp: Option.bind_assoc split: bind_split)

section \<open>The invariant\<close>

text \<open>Permits in the hands of a task or of the vending machine on its way to one.\<close>

definition permits_out :: "query_slots \<Rightarrow> nat" where
  "permits_out s = length (slots_jobs s) + (if slots_dvm s = DvmGranted then 1 else 0)"

definition dvm_jobs :: "query_slots \<Rightarrow> nat" where
  "dvm_jobs s = count_list (map job_for (slots_jobs s)) VendingMachine"

definition slots_ok :: "query_slots \<Rightarrow> bool" where
  "slots_ok s \<longleftrightarrow>
     slots_free s + permits_out s = 4 \<and>
     dvm_jobs s \<le> (if slots_dvm s = DvmComputing then 1 else 0) \<and>
     (slots_dvm s = DvmWaiting \<longrightarrow> slots_free s = 0)"

lemma slots_new_ok: "slots_ok query_slots_new"
  by (simp add: slots_ok_def permits_out_def dvm_jobs_def query_slots_new_def)

lemma no_dvm_jobs: "VendingMachine \<notin> job_for ` set (slots_jobs s) \<Longrightarrow> dvm_jobs s = 0"
  by (simp add: dvm_jobs_def count_list_0_iff)

lemma permit_step:
  assumes "slots_ok s" "0 < slots_free s"
  shows "slots_ok (spawn_job (HttpRequest i) (take_permit s))"
  using assms by (auto simp: slots_ok_def permits_out_def dvm_jobs_def spawn_job_def take_permit_def split: if_splits)

lemma remove_facts:
  assumes "n < length (slots_jobs s)"
  shows "length (slots_jobs (remove_job n s)) + 1 = length (slots_jobs s)" "dvm_jobs (remove_job n s) \<le> dvm_jobs s"
    "slots_dvm (remove_job n s) = slots_dvm s" "slots_free (remove_job n s) = slots_free s"
proof -
  have "slots_jobs s = take n (slots_jobs s) @ slots_jobs s ! n # drop (Suc n) (slots_jobs s)"
    using id_take_nth_drop [OF assms] .
  then have "map job_for (slots_jobs s) =
      map job_for (take n (slots_jobs s)) @ job_for (slots_jobs s ! n) # map job_for (drop (Suc n) (slots_jobs s))"
    by (metis list.simps(9) map_append)
  then show "dvm_jobs (remove_job n s) \<le> dvm_jobs s" unfolding dvm_jobs_def remove_job_def by simp
qed (use assms in \<open>auto simp: remove_job_def\<close>)

lemma give_back_ok:
  assumes "slots_ok s" "n < length (slots_jobs s)"
  shows "slots_ok (give_back (remove_job n s))"
    "permits_out (give_back (remove_job n s)) = (if slots_dvm s = DvmWaiting then permits_out s else permits_out s - 1)"
  using assms remove_facts [OF assms(2)]
  by (auto simp: slots_ok_def permits_out_def give_back_def dvm_jobs_def split: if_splits)

lemma started_ok:
  assumes "slots_ok s" "index (slots_jobs s) n = Some j"
  shows "slots_ok (s\<lparr>slots_jobs := (slots_jobs s)[n := j\<lparr>job_started := True\<rparr>]\<rparr>)"
proof -
  have n: "n < length (slots_jobs s)" "j = slots_jobs s ! n" using assms(2) by (auto simp: index_def split: if_splits)
  have "map job_for ((slots_jobs s)[n := j\<lparr>job_started := True\<rparr>]) = map job_for (slots_jobs s)"
    using n by (simp add: map_update list_update_same_conv)
  then show ?thesis using assms(1) by (simp add: slots_ok_def permits_out_def dvm_jobs_def del: map_update)
qed

lemma slot_step_ok:
  assumes "slot_step e s = Some s'" "slots_ok s"
  shows "slots_ok s'"
  using assms
proof (cases e)
  case (HttpAsks i)
  then show ?thesis using assms permit_step [OF assms(2)] guard_cases(5)
    by (cases "query_permit (slots_free s)") auto
next
  case DvmGoesOn
  then show ?thesis using assms no_dvm_jobs [of s]
    by (auto simp: slots_ok_def permits_out_def dvm_jobs_def split: if_splits)
next
  case (JobStarts n)
  then show ?thesis using assms started_ok [OF assms(2)] by (auto split: option.splits if_splits)
next
  case (JobEnds n)
  then show ?thesis using assms give_back_ok [OF assms(2)] by (auto simp: index_def split: option.splits if_splits)
next
  case (JobDropped n)
  then show ?thesis using assms give_back_ok [OF assms(2)] by (auto simp: index_def split: option.splits if_splits)
qed (auto simp: slots_ok_def permits_out_def dvm_jobs_def spawn_job_def take_permit_def split: if_splits)

lemma slot_run_ok: "slot_run es s = Some s' \<Longrightarrow> slots_ok s \<Longrightarrow> slots_ok s'"
  by (induction es arbitrary: s) (auto simp: bind_eq_Some_conv dest: slot_step_ok)

lemmas slots_reachable_ok = slot_run_ok [OF _ slots_new_ok]

section \<open>Nothing is lost\<close>

text \<open>The end of any task serves a waiting vending machine; nobody gets between.\<close>

lemma waiting_served:
  assumes "slots_ok s" "slots_dvm s = DvmWaiting"
  shows "length (slots_jobs s) = 4" "VendingMachine \<notin> job_for ` set (slots_jobs s)"
    "slot_step (HttpAsks i) s = Some s"
    "slot_step (JobEnds n) s = Some s' \<Longrightarrow> slots_dvm s' = DvmGranted"
proof -
  show "length (slots_jobs s) = 4" using assms by (simp add: slots_ok_def permits_out_def)
  have "dvm_jobs s = 0" using assms by (simp add: slots_ok_def)
  then show "VendingMachine \<notin> job_for ` set (slots_jobs s)" by (simp add: dvm_jobs_def count_list_0_iff)
  have "slots_free s = 0" using assms by (simp add: slots_ok_def)
  then show "slot_step (HttpAsks i) s = Some s" by (simp add: query_permit_def)
  show "slot_step (JobEnds n) s = Some s' \<Longrightarrow> slots_dvm s' = DvmGranted"
    using assms(2) by (auto simp: give_back_def remove_job_def split: option.splits if_splits)
qed

text \<open>The tasks that hold permits can be run to their end, and then every permit is back.\<close>

lemma first_job_ends:
  assumes "slots_jobs s = j # js"
  shows "\<exists>es. slot_run es s = Some (give_back (s\<lparr>slots_jobs := js\<rparr>))"
proof (cases "job_started j")
  case True
  then have "slot_run [JobEnds 0] s = Some (give_back (s\<lparr>slots_jobs := js\<rparr>))" using assms by (simp add: remove_job_def)
  then show ?thesis by blast
next
  case False
  then have "slot_run [JobStarts 0, JobEnds 0] s = Some (give_back (s\<lparr>slots_jobs := js\<rparr>))"
    using assms by (simp add: remove_job_def)
  then show ?thesis by blast
qed

lemma jobs_end: "\<exists>es s'. slot_run es s = Some s' \<and> slots_jobs s' = []"
proof (induction "slots_jobs s" arbitrary: s)
  case Nil
  then have "slot_run [] s = Some s \<and> slots_jobs s = []" by simp
  then show ?case by blast
next
  case (Cons j js)
  obtain es where es: "slot_run es s = Some (give_back (s\<lparr>slots_jobs := js\<rparr>))"
    using first_job_ends [OF Cons(2) [symmetric]] by blast
  have "js = slots_jobs (give_back (s\<lparr>slots_jobs := js\<rparr>))" by (simp add: give_back_def)
  then obtain es' s' where "slot_run es' (give_back (s\<lparr>slots_jobs := js\<rparr>)) = Some s' \<and> slots_jobs s' = []"
    using Cons(1) by blast
  then have "slot_run (es @ es') s = Some s' \<and> slots_jobs s' = []" using es by (simp add: slot_run_append)
  then show ?case by blast
qed

lemma slots_drain:
  assumes "slots_ok s"
  shows "\<exists>es s'. slot_run es s = Some s' \<and> slots_jobs s' = [] \<and> slots_dvm s' = DvmFree \<and> slots_free s' = 4"
proof -
  obtain es1 s1 where s1: "slot_run es1 s = Some s1" "slots_jobs s1 = []" using jobs_end by blast
  have ok1: "slots_ok s1" using slot_run_ok [OF s1(1) assms] .
  then have "slots_dvm s1 \<noteq> DvmWaiting" using s1(2) waiting_served(1) [OF ok1] by auto
  then consider "slots_dvm s1 = DvmFree" | "slots_dvm s1 = DvmComputing" | "slots_dvm s1 = DvmGranted"
    by (cases "slots_dvm s1") auto
  then obtain es2 where "case slot_run es2 s1 of None \<Rightarrow> False | Some s2 \<Rightarrow> slots_jobs s2 = [] \<and> slots_dvm s2 = DvmFree"
  proof cases
    case 1
    then show thesis using that [of "[]"] s1(2) by simp
  next
    case 2
    then show thesis using that [of "[DvmGoesOn]"] s1(2) by simp
  next
    case 3
    then show thesis using that [of "[DvmSpawns, JobStarts 0, JobEnds 0, DvmGoesOn]"] s1(2)
      by (simp add: spawn_job_def remove_job_def give_back_def)
  qed
  then obtain s2 where s2: "slot_run es2 s1 = Some s2" "slots_jobs s2 = []" "slots_dvm s2 = DvmFree"
    by (auto split: option.splits)
  moreover have "slots_free s2 = 4" using slot_run_ok [OF s2(1) ok1] s2(2,3) by (simp add: slots_ok_def permits_out_def)
  moreover have "slot_run (es1 @ es2) s = Some s2" using s1(1) s2(1) by (simp add: slot_run_append)
  ultimately show ?thesis by blast
qed

section \<open>Cached answers need no permit\<close>

lemma try_cache_slots: "try_cache ops (env\<lparr>free_slots := f\<rparr>) b c key m = try_cache ops env b c key m"
  by (simp add: try_cache_def cong: option.case_cong)

lemma look_up_slots:
  "look_up_targets ops (env\<lparr>free_slots := f\<rparr>) req from_id ts c computed misses =
   look_up_targets ops env req from_id ts c computed misses"
  by (induction ops env req from_id ts c computed misses rule: look_up_targets.induct)
    (simp_all add: try_cache_slots Let_def split: option.split)

text \<open>A batch all of whose targets are cached is answered alike however many permits are free.\<close>

lemma cached_batch_needs_no_permit:
  assumes "index_targets (br_targets req) = (uniques, indices, order)"
    and "look_up_targets ops env req (get_node_id (graph_at env 0) (br_from req)) (enumerate 0 uniques) c
           (replicate (length uniques) None) [] = (computed, [], c1)"
  shows "batch_distance ops (env\<lparr>free_slots := f\<rparr>) req c = batch_distance ops env req c"
  using assms by (simp add: batch_distance_def look_up_slots split: result.split)

text \<open>A refusal for want of a permit: the request had to compute and no permit was free.\<close>

lemma refused_distance:
  assumes "get_distance ops env p c = (Err e, c')" "error_status e = 503"
  shows "free_slots env 0 = 0 \<and>
    try_cache ops env (dp_bypass_cache p) (cache_moves env 2 c)
      (key_of_ids (get_node_id (graph_at env 0) (dp_from p)) (get_node_id (graph_at env 1) (dp_to p))
         (dp_max_hops p) (dp_include_bridges p)) 2 = None"
  using assms distance_guards_cases(2) [of p] guard_cases(6) [of "free_slots env 0"]
  by (auto simp: get_distance_def Let_def joined_def split: result.splits option.splits prod.splits if_splits)

end
