(* ===== verification/GraphCount.thy ===== *)
theory GraphCount
  imports GraphQuery
begin

text \<open>
  The counters of \<open>stats\<close> read off the observable graph: the nodes are the known keys, the edges the
  sum of the lists. Which keys an update makes known, and that a newer list that names the same keys
  leaves the revision alone.
\<close>

section \<open>Nodes and edges\<close>

lemma names_dom: "names_wf g \<Longrightarrow> dom (pubkey_to_id g) = set (id_to_pubkey g)"
  by (auto simp: names_wf_def in_set_conv_nth dom_def)

lemma node_count_dom: "graph_wf g \<Longrightarrow> stat_node_count (stats g) = card (dom (pubkey_to_id g))"
  using names_dom [OF graph_wf_names] graph_wf_names [of g] by (simp add: stats_def distinct_card names_wf_def)

lemma row_cell:
  assumes g: "graph_wf g" and i: "i < node_count g"
  shows "card (snd (follow_cell g (name_of g i))) = length (follows g ! i)"
proof -
  note w = graph_wf_ids(1,2) [OF g i]
  have "pubkey_to_id g (name_of g i) = Some i" using g i by (simp add: names_wf_iff name_of_def)
  then have "snd (follow_cell g (name_of g i)) = set (map (name_of g) (follows g ! i))" by (simp add: follow_cell_def)
  then show ?thesis using distinct_card [OF distinct_names [OF graph_wf_names [OF g] w]] by (metis length_map)
qed

lemma edge_count_dom:
  assumes g: "graph_wf g"
  shows "stat_edge_count (stats g) = (\<Sum>a \<in> dom (pubkey_to_id g). card (snd (follow_cell g a)))"
proof -
  let ?n = "node_count g"
  have len: "length (follows g) = ?n" using graph_wf_lengths [OF g] by simp
  have "dom (pubkey_to_id g) = name_of g ` {..<?n}"
    using names_dom [OF graph_wf_names [OF g]] by (auto simp: in_set_conv_nth name_of_def)
  then have "(\<Sum>a \<in> dom (pubkey_to_id g). card (snd (follow_cell g a))) =
      (\<Sum>i<?n. card (snd (follow_cell g (name_of g i))))"
    using sum.reindex [OF name_of_inj [OF graph_wf_names [OF g]]] by simp
  also have "\<dots> = (\<Sum>i<?n. length (follows g ! i))" using row_cell [OF g] by simp
  also have "\<dots> = sum_list (map length (follows g))" using len by (simp add: sum_list_sum_nth atLeast0LessThan)
  finally show ?thesis by (simp add: stats_def)
qed

lemma edge_count_cells:
  assumes g: "graph_wf g" and A: "finite A" "\<And>a. a \<notin> A \<Longrightarrow> snd (follow_cell g a) = {}"
  shows "stat_edge_count (stats g) = (\<Sum>a\<in>A. card (snd (follow_cell g a)))"
proof -
  let ?d = "dom (pubkey_to_id g)" and ?c = "\<lambda>a. card (snd (follow_cell g a))"
  have fin: "finite ?d" using names_dom [OF graph_wf_names [OF g]] by simp
  have "a \<notin> ?d \<Longrightarrow> ?c a = 0" "a \<notin> A \<Longrightarrow> ?c a = 0" for a using A(2) by (simp_all add: follow_cell_def domIff)
  then have zero: "\<forall>a \<in> (?d \<union> A) - ?d. ?c a = 0" "\<forall>a \<in> (?d \<union> A) - A. ?c a = 0" by blast+
  have "sum ?c ?d = sum ?c (?d \<union> A)" by (rule sum.mono_neutral_left [OF _ _ zero(1)]) (simp_all add: fin A(1))
  moreover have "sum ?c A = sum ?c (?d \<union> A)" by (rule sum.mono_neutral_left [OF _ _ zero(2)]) (simp_all add: fin A(1))
  ultimately show ?thesis using edge_count_dom [OF g] by simp
qed

section \<open>The keys an update makes known\<close>

lemma locked_dom:
  assumes "get_or_create_node_locked g a = (i, g')"
  shows "dom (pubkey_to_id g') = insert a (dom (pubkey_to_id g)) \<and> node_count g' \<le> node_count g + 1"
proof (cases "pubkey_to_id g a")
  case None
  then show ?thesis using assms by (auto simp: locked_fresh bump_def)
next
  case (Some j)
  then show ?thesis using assms by (auto simp: locked_known)
qed

lemma nodes_dom:
  "get_or_create_nodes g l = (ids, g') \<Longrightarrow>
    dom (pubkey_to_id g') = dom (pubkey_to_id g) \<union> set l \<and> node_count g' \<le> node_count g + length l"
proof (induction l arbitrary: g ids g')
  case (Cons a l)
  obtain i g1 where 1: "get_or_create_node_locked g a = (i, g1)" by fastforce
  obtain js g2 where 2: "get_or_create_nodes g1 l = (js, g2)" by fastforce
  have "g' = g2" using Cons(2) 1 2 by simp
  then show ?case using locked_dom [OF 1] Cons(1) [OF 2] by auto
qed simp

lemma store_follows_names:
  "pubkey_to_id (store_follows i ids info g) = pubkey_to_id g" "id_to_pubkey (store_follows i ids info g) = id_to_pubkey g"
  by (simp_all add: store_follows_def set_node_info_def replace_follows_def Let_def bump_def split: prod.split)

lemma update_dom:
  assumes "update_follows g a l eid ts = (b, g')"
  shows "dom (pubkey_to_id g') = insert a (dom (pubkey_to_id g)) \<union> (if b then set l else {}) \<and>
    node_count g' \<le> node_count g + 1 + length l"
  using assms
proof (cases rule: update_follows_cases)
  case (1 i g1)
  obtain ids g2 where 2: "get_or_create_nodes g1 l = (ids, g2)" by fastforce
  show ?thesis
    using locked_dom [OF 1(1)] nodes_dom [OF 2] 1(3,4) 2 by (cases b) (auto simp: store_follows_names)
qed

section \<open>A list that says the same\<close>

lemma nodes_known:
  "set l \<subseteq> dom (pubkey_to_id g) \<Longrightarrow> get_or_create_nodes g l = (map (\<lambda>a. the (pubkey_to_id g a)) l, g)"
  by (induction l) (auto simp: locked_known)

lemma same_list_same_revision:
  assumes g: "graph_wf g" and upd: "update_follows g a l eid ts = (b, g')"
    and same: "snd (follow_cell g a) = set l" and known: "a \<in> dom (pubkey_to_id g)"
  shows "revision g' = revision g"
  using upd
proof (cases rule: update_follows_cases)
  case (1 i g1)
  have i: "pubkey_to_id g a = Some i" "g1 = g" using known 1(1) by (auto simp: locked_known)
  note row = known_row [OF g i(1)]
  note ids = graph_wf_ids(1,2) [OF g row(1)]
  have set_l: "set l = name_of g ` set (follows g ! i)" using same i(1) by (simp add: follow_cell_def)
  then have sub: "set l \<subseteq> dom (pubkey_to_id g)"
    using ids(2) names_dom [OF graph_wf_names [OF g]] by (auto simp: name_of_def)
  let ?ids = "map (\<lambda>a. the (pubkey_to_id g a)) l"
  have "the (pubkey_to_id g (name_of g j)) = j" if "j < node_count g" for j
    using names_wf_iff [of g "name_of g j" j] g that by (simp add: name_of_def)
  then have "(\<lambda>j. the (pubkey_to_id g (name_of g j))) ` set (follows g ! i) = id ` set (follows g ! i)"
    using ids(2) by (intro image_cong) auto
  then have "set ?ids = set (follows g ! i)" using set_l by (simp add: image_image)
  then have "sort_dedup ?ids = follows g ! i" using ids(1) increasing_unique [OF increasing_sort_dedup ids(1)] by simp
  then have "diff_sorted (follows g ! i) (sort_dedup ?ids) = ([], [])"
    using diff_sorted_empty [OF ids(1) ids(1)] by simp
  then have "revision (store_follows i ?ids info g) = revision g" for info
    using row(2) by (simp add: store_follows_def set_node_info_def replace_follows_def)
  then show ?thesis using 1(3,4) i(2) nodes_known [OF sub] by (cases b) simp_all
qed

end
