(* ===== verification/DatabaseNames.thy ===== *)
theory DatabaseNames
  imports DatabaseBatch
begin

text \<open>
  A batch creates nodes for the keys it mentions and for no others: \<open>keeps_names\<close> is kept by every
  statement and carried through the control structure of a transaction.
\<close>

definition named_by :: "string set \<Rightarrow> database \<Rightarrow> bool" where
  "named_by S db \<longleftrightarrow> (\<forall>r \<in> set (nodes db). node_pubkey r \<in> S)"

definition keeps_names :: "string set \<Rightarrow> 'a sql \<Rightarrow> bool" where
  "keeps_names S m \<longleftrightarrow> (\<forall>n db x n' db'. m (n, db) = Ok (x, n', db') \<longrightarrow> named_by S db \<longrightarrow> named_by S db')"

lemma keeps_return [simp]: "keeps_names S (sql_return x)"
  by (simp add: keeps_names_def sql_return_def)

lemma keeps_bind: "keeps_names S m \<Longrightarrow> (\<And>x. keeps_names S (f x)) \<Longrightarrow> keeps_names S (sql_bind m f)"
  unfolding keeps_names_def sql_bind_def by (fastforce split: result.splits prod.splits)

lemma keeps_for: "(\<And>x acc. x \<in> set xs \<Longrightarrow> keeps_names S (f x acc)) \<Longrightarrow> keeps_names S (sql_for f xs acc)"
  by (induction xs arbitrary: acc) (simp_all add: keeps_bind)

lemma keeps_exec:
  "(\<And>db x db'. stmt db = Ok (x, db') \<Longrightarrow> named_by S db \<Longrightarrow> named_by S db') \<Longrightarrow> keeps_names S (exec env stmt)"
  by (fastforce simp: keeps_names_def exec_def split: if_splits result.splits)

lemma named_edges [simp]: "named_by S (set_edge_table mute es db) = named_by S db"
  by (simp add: named_by_def set_edge_table_def)

lemma keeps_statements:
  "keeps_names S (exec env plain_stmt)" "keeps_names S (exec env (get_node mute pk))" "keeps_names S (exec env (get_id mute pk))"
  "keeps_names S (exec env (old_edges mute i))" "keeps_names S (exec env (delete_edge mute i j))"
  "keeps_names S (exec env (insert_edge env mute i j))"
  by (rule keeps_exec;
      auto simp: plain_stmt_def get_node_def get_id_def old_edges_def delete_edge_def insert_edge_def split: result.splits option.splits if_splits)+

lemma keeps_insert: "pk \<in> S \<Longrightarrow> keeps_names S (exec env (insert_node env pk now))"
  by (rule keeps_exec) (auto simp: insert_node_def named_by_def split: if_splits)

lemma keeps_upsert: "fu_pubkey u \<in> S \<Longrightarrow> keeps_names S (exec env (upsert_list env mute u now))"
  by (rule keeps_exec)
    (auto simp: upsert_list_def upsert_follow_list_def upsert_mute_list_def named_by_def Let_def split: if_splits)

lemma keeps_drop: "keeps_names S (drop_target env mute i desired p u)"
  by (simp add: drop_target_def keeps_statements)

lemma keeps_add: "pk \<in> S \<Longrightarrow> keeps_names S (add_target env mute now i previous pk ids)"
  unfolding add_target_def
  by (auto intro!: keeps_bind keeps_insert keeps_statements split: option.split prod.split)

lemma keeps_replace:
  assumes "env_ok env" "fu_pubkey u \<in> S" "set (fu_follows u) \<subseteq> S"
  shows "keeps_names S (replace_list env mute now u ids)"
proof -
  have "pk \<in> S" if "pk \<in> set (order_desired env (remdups (fu_follows u)))" for pk
    using that env_order(3) [OF assms(1)] assms(3) by auto
  then show ?thesis
    unfolding replace_list_def Let_def
    using assms(2) by (auto intro!: keeps_bind keeps_for keeps_insert keeps_upsert keeps_statements keeps_drop keeps_add)
qed

lemma keeps_write:
  assumes "env_ok env" "fu_pubkey u \<in> S" "set (fu_follows u) \<subseteq> S"
  shows "keeps_names S (write_update env mute now u st)"
  unfolding write_update_def
  by (auto intro!: keeps_bind keeps_statements keeps_replace [OF assms] split: prod.split option.split)

lemma batch_names:
  assumes env: "env_ok env" and us: "\<And>u. u \<in> set us \<Longrightarrow> fu_pubkey u \<in> S \<and> set (fu_follows u) \<subseteq> S"
    and run: "update_lists_batch env now us mute db = (Ok n, db')" and db: "named_by S db"
  shows "named_by S db'"
proof -
  have "w \<in> set us" if "w \<in> set (order_winners env (map snd (winners_of us)))" for w
    using that env_order(1) [OF env] winners_of_keys [of us] by auto
  then have "keeps_names S (batch_transaction env now mute us)"
    unfolding batch_transaction_def
    using us by (auto intro!: keeps_bind keeps_for keeps_write [OF env] keeps_statements)
  then show ?thesis
    using run db unfolding keeps_names_def
    by (auto simp: update_lists_batch_def split: if_splits result.splits)
qed

lemma named_length:
  assumes "db_wf db" "named_by S db" "finite S"
  shows "length (nodes db) \<le> card S"
proof -
  have "length (nodes db) = card (node_pubkey ` set (nodes db))"
    using assms(1) distinct_card [of "map node_pubkey (nodes db)"] by (simp add: db_wf_def)
  also have "\<dots> \<le> card S" using assms(2,3) by (intro card_mono) (auto simp: named_by_def)
  finally show ?thesis .
qed

end
