(* ===== verification/Benchmark.thy ===== *)
theory Benchmark
  imports GraphCount DatabaseNames DatabaseLoad DatabaseOpen
begin

text \<open>
  The measuring program \<open>examples/graph_efficiency.rs\<close> without its clocks and prints: 5000 keys that
  follow 40 others each, written to a graph three times over, stored in a fresh database in chunks and
  restored from it; then many keys that all follow one hub, in both orders. \<open>unwrap\<close> of an error and
  the failing assertion are \<open>None\<close>.
\<close>

section \<open>Keys and lists\<close>

text \<open>\<open>{i:064x}\<close>: lower-case hexadecimal, padded with zeros.\<close>

definition hex_char :: "nat \<Rightarrow> char" where
  "hex_char d = char_of (if d < 10 then 48 + d else 87 + d)"

fun hex_digits :: "nat \<Rightarrow> nat \<Rightarrow> string" where
  "hex_digits 0 i = []"
| "hex_digits (Suc w) i = hex_digits w (i div 16) @ [hex_char (i mod 16)]"

definition bench_keys :: "nat \<Rightarrow> string list" where
  "bench_keys n = map (hex_digits 64) [0..<n]"

definition bench_list :: "string list \<Rightarrow> nat \<Rightarrow> string list" where
  "bench_list keys i = map (\<lambda>j. keys ! ((i + j * 97) mod length keys)) [1..<41]"

definition bench_lists :: "string list \<Rightarrow> string list list" where
  "bench_lists keys = map (bench_list keys) [0..<length keys]"

section \<open>The graph\<close>

definition graph_round :: "string \<Rightarrow> int \<Rightarrow> (nat \<Rightarrow> string \<Rightarrow> string list) \<Rightarrow> string list \<Rightarrow> wot_graph \<Rightarrow> wot_graph" where
  "graph_round eid ts list_of keys g =
     fold (\<lambda>(i, k) g. snd (update_follows g k (list_of i k) (Some eid) (Some ts))) (enumerate 0 keys) g"

definition graph_rounds :: "string list \<Rightarrow> string list list \<Rightarrow> wot_graph \<times> wot_graph \<times> wot_graph" where
  "graph_rounds keys followed =
     (let g1 = graph_round ''a'' 1 (\<lambda>i k. followed ! i) keys graph_new;
          g2 = graph_round ''b'' 2 (\<lambda>i k. followed ! i) keys g1;
          g3 = graph_round ''c'' 3 (\<lambda>i k. (followed ! i)[0 := k]) keys g2
      in (g1, g2, g3))"

section \<open>The database\<close>

fun chunks :: "nat \<Rightarrow> 'a list \<Rightarrow> 'a list list" where
  "chunks n [] = []"
| "chunks n (x # xs) = (x # take (n - 1) xs) # chunks n (drop (n - 1) xs)"

definition bench_update :: "string list \<Rightarrow> string list list \<Rightarrow> nat \<Rightarrow> follow_update_batch" where
  "bench_update keys followed i =
     \<lparr>fu_pubkey = keys ! i, fu_follows = followed ! i, fu_event_id = Some ''a'', fu_created_at = Some 1\<rparr>"

fun store_chunks ::
    "(nat \<Rightarrow> db_env) \<Rightarrow> int \<Rightarrow> string list \<Rightarrow> string list list \<Rightarrow> nat \<Rightarrow> nat list list \<Rightarrow> database \<Rightarrow> database option" where
  "store_chunks envs now keys followed n [] db = Some db"
| "store_chunks envs now keys followed n (c # cs) db =
     (case update_follows_batch (envs n) now (map (bench_update keys followed) c) db of
        (Err _, _) \<Rightarrow> None
      | (Ok _, db') \<Rightarrow> store_chunks envs now keys followed (Suc n) cs db')"

definition restore_checked :: "db_env \<Rightarrow> nat \<Rightarrow> database \<Rightarrow> wot_graph option" where
  "restore_checked env edge_count db =
     (case load_graph env db graph_new of
        Some (Ok _, g) \<Rightarrow> if stat_edge_count (stats g) = edge_count then Some g else None
      | _ \<Rightarrow> None)"

definition bench_restore ::
    "db_env \<Rightarrow> (nat \<Rightarrow> db_env) \<Rightarrow> db_env \<Rightarrow> int \<Rightarrow> nat \<Rightarrow> string list \<Rightarrow> string list list \<Rightarrow> wot_graph option" where
  "bench_restore open_env envs load_env now edge_count keys followed =
     (case open_database open_env empty_file of
        (Err _, _) \<Rightarrow> None
      | (Ok _, f) \<Rightarrow>
          (case store_chunks envs now keys followed 0 (chunks 100 [0..<length keys]) (file_rows f) of
             None \<Rightarrow> None
           | Some db \<Rightarrow> restore_checked load_env edge_count db))"

definition bench_trial ::
    "db_env \<Rightarrow> (nat \<Rightarrow> db_env) \<Rightarrow> db_env \<Rightarrow> int \<Rightarrow> ((wot_graph \<times> wot_graph \<times> wot_graph) \<times> wot_graph) option" where
  "bench_trial open_env envs load_env now =
     (let keys = bench_keys 5000; followed = bench_lists keys in
      case bench_restore open_env envs load_env now 200000 keys followed of
        None \<Rightarrow> None
      | Some restored \<Rightarrow> Some (graph_rounds keys followed, restored))"

section \<open>The hub\<close>

definition hub_nodes :: "string list \<Rightarrow> wot_graph" where
  "hub_nodes keys = fold (\<lambda>k g. snd (get_or_create_node g k)) keys graph_new"

definition hub_run :: "bool \<Rightarrow> string list \<Rightarrow> wot_graph" where
  "hub_run reverse keys =
     fold (\<lambda>i g. let j = (if reverse then length keys - 1 - i else i) in
             snd (update_follows g (keys ! j) [''hub''] (Some ''a'') (Some 1)))
       [0..<length keys] (hub_nodes keys)"

section \<open>The keys are distinct and the lists have forty of them\<close>

lemma hex_char_inj: "a < 16 \<Longrightarrow> b < 16 \<Longrightarrow> hex_char a = hex_char b \<Longrightarrow> a = b"
proof -
  assume ab: "a < 16" "b < 16" "hex_char a = hex_char b"
  have "of_char (hex_char a) = (of_char (hex_char b) :: nat)" using ab(3) by simp
  then show "a = b" using ab(1,2) by (auto simp: hex_char_def split: if_splits)
qed

lemma length_hex_digits: "length (hex_digits w i) = w"
  by (induction w arbitrary: i) simp_all

lemma hex_digits_inj: "a < 16 ^ w \<Longrightarrow> b < 16 ^ w \<Longrightarrow> hex_digits w a = hex_digits w b \<Longrightarrow> a = b"
proof (induction w arbitrary: a b)
  case (Suc w)
  have "a div 16 < 16 ^ w" "b div 16 < 16 ^ w" using Suc(2,3) by (simp_all add: less_mult_imp_div_less mult.commute)
  moreover have "hex_digits w (a div 16) = hex_digits w (b div 16)" "hex_char (a mod 16) = hex_char (b mod 16)"
    using Suc(4) by simp_all
  ultimately have "a div 16 = b div 16" "a mod 16 = b mod 16"
    using Suc(1) hex_char_inj [of "a mod 16" "b mod 16"] by simp_all
  then show ?case by (metis div_mult_mod_eq)
qed simp

lemma bench_keys_ok:
  assumes "n \<le> 16 ^ 64"
  shows "distinct (bench_keys n)" "length (bench_keys n) = n"
  using assms hex_digits_inj [of _ 64] by (auto simp: bench_keys_def distinct_map inj_on_def)

lemma stride_inj:
  fixes n i j j' :: nat
  assumes n: "coprime 97 n" "40 < n" and j: "j \<le> 40" "j' \<le> 40" and eq: "(i + j * 97) mod n = (i + j' * 97) mod n"
  shows "j = j'"
proof -
  have "j = j'" if "j \<le> j'" "j' \<le> 40" "(i + j * 97) mod n = (i + j' * 97) mod n" for j j' :: nat
  proof -
    have "n dvd (i + j' * 97) - (i + j * 97)" using that(1,3) by (metis mod_eq_dvd_iff_nat add_le_mono1 nat_add_left_cancel_le mult_le_mono1)
    then have "n dvd (j' - j) * 97" by (simp add: diff_mult_distrib)
    then have "n dvd j' - j" using n(1) by (metis coprime_commute coprime_dvd_mult_left_iff)
    then show ?thesis using that(1,2) n(2) by (auto dest: dvd_imp_le)
  qed
  then show ?thesis using j eq by (metis nle_le)
qed

lemma bench_list_ok:
  assumes keys: "distinct keys" "coprime (97::nat) (length keys)" "40 < length keys" and i: "i < length keys"
  shows "length (bench_list keys i) = 40" "distinct (bench_list keys i)" "set (bench_list keys i) \<subseteq> set keys"
    "keys ! i \<notin> set (bench_list keys i)"
proof -
  let ?f = "\<lambda>j. (i + j * 97) mod length keys"
  have lt: "?f j < length keys" for j using i by (intro mod_less_divisor) linarith
  have inj: "keys ! ?f j = keys ! ?f j' \<Longrightarrow> j = j'" if "j \<le> 40" "j' \<le> 40" for j j'
    using that stride_inj [OF keys(2,3) that] lt keys(1) by (simp add: nth_eq_iff_index_eq)
  show "length (bench_list keys i) = 40" by (simp add: bench_list_def)
  show "distinct (bench_list keys i)" unfolding bench_list_def distinct_map by (auto intro!: inj_onI dest!: inj [rotated 2])
  show "set (bench_list keys i) \<subseteq> set keys" using lt by (auto simp: bench_list_def)
  have "keys ! ?f 0 \<noteq> keys ! ?f j" if "1 \<le> j" "j < 41" for j using inj [of 0 j] that by auto
  then have "keys ! ?f 0 \<notin> (\<lambda>j. keys ! ?f j) ` {1..<41}" by force
  then have "keys ! ?f 0 \<notin> set (bench_list keys i)" by (simp add: bench_list_def)
  then show "keys ! i \<notin> set (bench_list keys i)" using i by simp
qed

section \<open>Rounds of updates\<close>

definition deliver :: "meta \<Rightarrow> (string \<times> string list) list \<Rightarrow> wot_graph \<Rightarrow> wot_graph" where
  "deliver m kls g = fold (\<lambda>(k, l) g. snd (update_follows g k l (snd m) (fst m))) kls g"

lemma deliver_ok:
  assumes "graph_wf g" "distinct (map fst kls)" "\<And>k. k \<in> fst ` set kls \<Longrightarrow> accepts (fst (follow_cell g k)) m"
    "node_count g + (\<Sum>(k, l)\<leftarrow>kls. 1 + length l) \<le> 2 ^ 32"
  shows "graph_wf (deliver m kls g) \<and>
    dom (pubkey_to_id (deliver m kls g)) = dom (pubkey_to_id g) \<union> fst ` set kls \<union> (\<Union>(k, l) \<in> set kls. set l) \<and>
    follow_cell (deliver m kls g) = (\<lambda>a. case map_of kls a of Some l \<Rightarrow> (m, set l) | None \<Rightarrow> follow_cell g a)"
  using assms
proof (induction kls arbitrary: g)
  case (Cons kl kls)
  obtain k l where kl: "kl = (k, l)" by fastforce
  obtain b g1 where u: "update_follows g k l (snd m) (fst m) = (b, g1)" by fastforce
  note d = update_dom [OF u]
  have small: "graph_small g1" using Cons.prems(4) d kl by (simp add: graph_small_def)
  note sp = update_follows_spec [OF Cons.prems(1) u small]
  have b: "b" using sp Cons.prems(3) kl by simp
  have cell: "follow_cell g1 = (follow_cell g)(k := (m, set l))" using sp b by simp
  have fresh: "k \<notin> fst ` set kls" using Cons.prems(2) kl by simp
  have acc: "accepts (fst (follow_cell g1 k')) m" if "k' \<in> fst ` set kls" for k'
    using that fresh cell Cons.prems(3) by (cases "k' = k") auto
  have sum: "node_count g1 + (\<Sum>(k, l)\<leftarrow>kls. 1 + length l) \<le> 2 ^ 32" using Cons.prems(4) d kl by simp
  have wf1: "graph_wf g1" and dist: "distinct (map fst kls)" using sp Cons.prems(2) by simp_all
  note IH = Cons.IH [OF wf1 dist acc sum]
  have "deliver m (kl # kls) g = deliver m kls g1" using u kl by (simp add: deliver_def)
  moreover have "map_of kls k = None" using fresh by (simp add: map_of_eq_None_iff)
  ultimately show ?case using IH d b cell kl by (auto split: option.split)
qed (simp add: deliver_def)

lemma deliver_same_revision:
  assumes "graph_wf g" "distinct (map fst kls)"
    "\<And>k l. (k, l) \<in> set kls \<Longrightarrow> snd (follow_cell g k) = set l \<and> k \<in> dom (pubkey_to_id g)"
    "node_count g + (\<Sum>(k, l)\<leftarrow>kls. 1 + length l) \<le> 2 ^ 32"
  shows "revision (deliver m kls g) = revision g"
  using assms
proof (induction kls arbitrary: g)
  case (Cons kl kls)
  obtain k l where kl: "kl = (k, l)" by fastforce
  obtain b g1 where u: "update_follows g k l (snd m) (fst m) = (b, g1)" by fastforce
  note d = update_dom [OF u]
  have small: "graph_small g1" using Cons.prems(4) d kl by (simp add: graph_small_def)
  note sp = update_follows_spec [OF Cons.prems(1) u small]
  have rev: "revision g1 = revision g"
    using same_list_same_revision [OF Cons.prems(1) u] Cons.prems(3) [of k l] kl by simp
  have keep: "snd (follow_cell g1 k') = set l' \<and> k' \<in> dom (pubkey_to_id g1)" if "(k', l') \<in> set kls" for k' l'
  proof -
    have "k' \<noteq> k" using that Cons.prems(2) kl by force
    then show ?thesis using Cons.prems(3) [of k' l'] that sp d by auto
  qed
  have sum: "node_count g1 + (\<Sum>(k, l)\<leftarrow>kls. 1 + length l) \<le> 2 ^ 32" using Cons.prems(4) d kl by simp
  have wf1: "graph_wf g1" and dist: "distinct (map fst kls)" using sp Cons.prems(2) by simp_all
  have "deliver m (kl # kls) g = deliver m kls g1" using u kl by (simp add: deliver_def)
  then show ?case using Cons.IH [OF wf1 dist keep sum] rev by simp
qed (simp add: deliver_def)

definition round_lists :: "(nat \<Rightarrow> string \<Rightarrow> string list) \<Rightarrow> string list \<Rightarrow> (string \<times> string list) list" where
  "round_lists list_of keys = map (\<lambda>(i, k). (k, list_of i k)) (enumerate 0 keys)"

lemma graph_round_deliver: "graph_round eid ts list_of keys = deliver (Some ts, Some eid) (round_lists list_of keys)"
  by (simp add: fun_eq_iff graph_round_def deliver_def round_lists_def fold_map comp_def case_prod_unfold)

lemma round_lists_mem: "(k, l) \<in> set (round_lists list_of keys) \<longleftrightarrow> (\<exists>i<length keys. k = keys ! i \<and> l = list_of i k)"
  by (auto simp: round_lists_def in_set_enumerate_eq image_iff Bex_def) 

lemma round_lists_fst: "map fst (round_lists list_of keys) = keys"
proof -
  have "map fst (round_lists list_of keys) = map snd (enumerate 0 keys)"
    unfolding round_lists_def map_map by (rule map_cong) auto
  then show ?thesis by simp
qed

text \<open>What a round is given: as many lists as keys, of forty distinct keys each.\<close>

definition lists_ok :: "string list \<Rightarrow> (nat \<Rightarrow> string \<Rightarrow> string list) \<Rightarrow> bool" where
  "lists_ok keys list_of \<longleftrightarrow> distinct keys \<and> 42 * length keys \<le> 2 ^ 32 \<and>
     (\<forall>i<length keys. let l = list_of i (keys ! i) in length l = 40 \<and> distinct l \<and> set l \<subseteq> set keys)"

lemma round_lists_sum:
  assumes "lists_ok keys list_of"
  shows "(\<Sum>(k, l)\<leftarrow>round_lists list_of keys. 1 + length l) = 41 * length keys"
proof -
  have "(case p of (k, l) \<Rightarrow> 1 + length l) = 41" if "p \<in> set (round_lists list_of keys)" for p
  proof -
    obtain k l where "p = (k, l)" by fastforce
    then show ?thesis using that assms by (auto simp: round_lists_mem lists_ok_def Let_def)
  qed
  then have "map (\<lambda>(k, l). 1 + length l) (round_lists list_of keys) = map (\<lambda>_. 41) (round_lists list_of keys)"
    by (rule map_cong [OF refl])
  moreover have "length (round_lists list_of keys) = length keys" by (simp add: round_lists_def)
  ultimately show ?thesis by (simp only: sum_list_triv) simp
qed

lemma graph_round_ok:
  assumes L: "lists_ok keys list_of" and g: "graph_wf g" "dom (pubkey_to_id g) \<subseteq> set keys"
    and acc: "\<And>k. k \<in> set keys \<Longrightarrow> accepts (fst (follow_cell g k)) (Some ts, Some eid)"
    and g': "g' = graph_round eid ts list_of keys g"
  shows "graph_wf g'" "dom (pubkey_to_id g') = set keys"
    "\<And>i. i < length keys \<Longrightarrow> follow_cell g' (keys ! i) = ((Some ts, Some eid), set (list_of i (keys ! i)))"
    "\<And>a. a \<notin> set keys \<Longrightarrow> follow_cell g' a = follow_cell g a"
proof -
  let ?kls = "round_lists list_of keys"
  have dist: "distinct keys" and len: "42 * length keys \<le> 2 ^ 32" using L by (simp_all add: lists_ok_def)
  have "node_count g = card (dom (pubkey_to_id g))" using node_count_dom [OF g(1)] by (simp add: stats_def)
  also have "\<dots> \<le> length keys" using card_mono [OF _ g(2)] distinct_card [OF dist] by simp
  finally have sum: "node_count g + (\<Sum>(k, l)\<leftarrow>?kls. 1 + length l) \<le> 2 ^ 32"
    using round_lists_sum [OF L] len by simp
  have fsts: "fst ` set ?kls = set keys" using round_lists_fst by (metis list.set_map)
  have D: "graph_wf g' \<and> dom (pubkey_to_id g') = dom (pubkey_to_id g) \<union> fst ` set ?kls \<union> (\<Union>(k, l) \<in> set ?kls. set l) \<and>
      follow_cell g' = (\<lambda>a. case map_of ?kls a of Some l \<Rightarrow> ((Some ts, Some eid), set l) | None \<Rightarrow> follow_cell g a)"
    unfolding g' graph_round_deliver
    by (rule deliver_ok [OF g(1) _ _ sum]) (use dist acc in \<open>simp_all add: round_lists_fst fsts\<close>)
  then show "graph_wf g'" by simp
  have "(\<Union>(k, l) \<in> set ?kls. set l) \<subseteq> set keys"
    using L by (fastforce simp: round_lists_mem lists_ok_def Let_def)
  then show "dom (pubkey_to_id g') = set keys" using D fsts g(2) by auto
  show "follow_cell g' (keys ! i) = ((Some ts, Some eid), set (list_of i (keys ! i)))" if "i < length keys" for i
  proof -
    have "(keys ! i, list_of i (keys ! i)) \<in> set ?kls" using that by (auto simp: round_lists_mem)
    then have "map_of ?kls (keys ! i) = Some (list_of i (keys ! i))" using dist by (simp add: round_lists_fst)
    then show ?thesis using D by simp
  qed
  show "follow_cell g' a = follow_cell g a" if "a \<notin> set keys" for a
  proof -
    have "map_of ?kls a = None" using that fsts by (simp add: map_of_eq_None_iff)
    then show ?thesis using D by simp
  qed
qed

text \<open>Forty edges per key, wherever the lists are stored.\<close>

lemma forty_each:
  assumes L: "lists_ok keys list_of" and g: "graph_wf g"
    and cells: "\<And>i. i < length keys \<Longrightarrow> snd (follow_cell g (keys ! i)) = set (list_of i (keys ! i))"
    and others: "\<And>a. a \<notin> set keys \<Longrightarrow> snd (follow_cell g a) = {}"
  shows "stat_edge_count (stats g) = 40 * length keys"
proof -
  have "card (snd (follow_cell g a)) = 40" if "a \<in> set keys" for a
    using that L cells by (auto simp: in_set_conv_nth lists_ok_def Let_def distinct_card)
  moreover have "stat_edge_count (stats g) = (\<Sum>a \<in> set keys. card (snd (follow_cell g a)))"
    by (rule edge_count_cells [OF g _ others]) simp_all
  ultimately have "stat_edge_count (stats g) = (\<Sum>a \<in> set keys. 40)" by simp
  then show ?thesis using L by (simp add: lists_ok_def distinct_card)
qed

section \<open>The three rounds\<close>

lemma new_graph_cells: "follow_cell graph_new a = ((None, None), {})" "dom (pubkey_to_id graph_new) = {}"
  by (simp_all add: follow_cell_def graph_new_def)

theorem graph_rounds_ok:
  assumes L: "lists_ok keys (\<lambda>i k. followed ! i)" and L3: "lists_ok keys (\<lambda>i k. (followed ! i)[0 := k])"
    and run: "graph_rounds keys followed = (g1, g2, g3)"
  shows "graph_wf g1" "stat_node_count (stats g1) = length keys"
    "stat_edge_count (stats g1) = 40 * length keys" "stat_edge_count (stats g2) = 40 * length keys"
    "stat_edge_count (stats g3) = 40 * length keys" "revision g2 = revision g1"
    "\<And>i. i < length keys \<Longrightarrow> follow_cell g1 (keys ! i) = ((Some 1, Some ''a''), set (followed ! i))"
    "\<And>a. a \<notin> set keys \<Longrightarrow> follow_cell g1 a = ((None, None), {})"
proof -
  have g: "g1 = graph_round ''a'' 1 (\<lambda>i k. followed ! i) keys graph_new"
    "g2 = graph_round ''b'' 2 (\<lambda>i k. followed ! i) keys g1"
    "g3 = graph_round ''c'' 3 (\<lambda>i k. (followed ! i)[0 := k]) keys g2"
    using run by (auto simp: graph_rounds_def Let_def)
  have dist: "distinct keys" and len: "42 * length keys \<le> 2 ^ 32" using L by (simp_all add: lists_ok_def)
  note r1 = graph_round_ok [OF L graph_new_wf(1) _ _ g(1), simplified new_graph_cells, simplified]
  have acc2: "accepts (fst (follow_cell g1 k)) (Some 2, Some ''b'')" if "k \<in> set keys" for k
    using that r1(3) by (auto simp: in_set_conv_nth accepts_event_def)
  note r2 = graph_round_ok [OF L r1(1) equalityD1 [OF r1(2)] acc2 g(2)]
  have acc3: "accepts (fst (follow_cell g2 k)) (Some 3, Some ''c'')" if "k \<in> set keys" for k
    using that r2(3) by (auto simp: in_set_conv_nth accepts_event_def)
  note r3 = graph_round_ok [OF L3 r2(1) equalityD1 [OF r2(2)] acc3 g(3)]
  show "graph_wf g1" by (rule r1(1))
  show "stat_node_count (stats g1) = length keys" using node_count_dom [OF r1(1)] r1(2) dist by (simp add: distinct_card)
  then have count: "node_count g1 + (\<Sum>(k, l)\<leftarrow>round_lists (\<lambda>i k. followed ! i) keys. 1 + length l) \<le> 2 ^ 32"
    using round_lists_sum [OF L] len by (simp add: stats_def)
  show "revision g2 = revision g1"
    unfolding g(2) graph_round_deliver
    by (rule deliver_same_revision [OF r1(1) _ _ count]) (use dist r1(2,3) in \<open>auto simp: round_lists_fst round_lists_mem\<close>)
  show "stat_edge_count (stats g1) = 40 * length keys" by (rule forty_each [OF L r1(1)]) (simp_all add: r1(3,4))
  show "stat_edge_count (stats g2) = 40 * length keys" by (rule forty_each [OF L r2(1)]) (simp_all add: r1(4) r2(3,4))
  show "stat_edge_count (stats g3) = 40 * length keys" by (rule forty_each [OF L3 r3(1)]) (simp_all add: r1(4) r2(4) r3(3,4))
  show "follow_cell g1 (keys ! i) = ((Some 1, Some ''a''), set (followed ! i))" if "i < length keys" for i
    by (rule r1(3) [OF that])
  show "follow_cell g1 a = ((None, None), {})" if "a \<notin> set keys" for a by (rule r1(4) [OF that])
qed

section \<open>Storing and restoring\<close>

lemma concat_chunks: "concat (chunks n xs) = xs"
  by (induction n xs rule: chunks.induct) simp_all

lemma store_chunks_ok:
  assumes envs: "\<And>n. env_ok (envs n) \<and> \<not> faulty (envs n)"
    and us: "\<And>i. i \<in> set (concat cs) \<Longrightarrow> keys ! i \<in> S \<and> set (followed ! i) \<subseteq> S" and db: "db_wf db" "named_by S db"
  shows "\<exists>db'. store_chunks envs now keys followed n cs db = Some db' \<and> db_wf db' \<and> named_by S db' \<and>
    stored False db' = fold (put_update set) (map (bench_update keys followed) (concat cs)) (stored False db)"
  using us db
proof (induction cs arbitrary: n db)
  case (Cons c cs)
  let ?us = "map (bench_update keys followed) c"
  obtain r db1 where run: "update_lists_batch (envs n) now ?us False db = (r, db1)" by fastforce
  have ok: "case (r, db1) of (Err _, d) \<Rightarrow> faulty (envs n) \<and> d = db
      | (Ok k, d) \<Rightarrow> wrote db False ?us d \<and> k = length (filter (accepted_by (stored False db)) (map snd (winners_of ?us)))"
    unfolding run [symmetric] by (rule update_lists_batch_ok [OF Cons.prems(2) conjunct1 [OF envs]])
  then obtain k where k: "r = Ok k" using envs by (cases r) auto
  then have w: "db_wf db1" "stored False db1 = fold (put_update set) ?us (stored False db)"
    using ok by (simp_all add: wrote_def)
  have "named_by S db1"
    by (rule batch_names [OF conjunct1 [OF envs] _ run [unfolded k] Cons.prems(3)])
      (use Cons.prems(1) in \<open>fastforce simp: bench_update_def\<close>)
  then show ?case
    using Cons.IH [of db1 "Suc n"] Cons.prems(1) w k run by (auto simp: update_follows_batch_def)
qed simp

lemma fold_put_distinct:
  "distinct (map fu_pubkey us) \<Longrightarrow> (\<And>u. u \<in> set us \<Longrightarrow> fst (c (fu_pubkey u)) = (None, None)) \<Longrightarrow>
    (\<forall>u \<in> set us. fold (put_update wrap) us c (fu_pubkey u) = (update_meta u, wrap (fu_follows u))) \<and>
    (\<forall>a. a \<notin> fu_pubkey ` set us \<longrightarrow> fold (put_update wrap) us c a = c a)"
proof (induction us arbitrary: c)
  case (Cons u us)
  have "fst (put_update wrap u c (fu_pubkey v)) = (None, None)" if "v \<in> set us" for v
  proof -
    have "fu_pubkey u \<notin> fu_pubkey ` set us" using Cons.prems(1) by simp
    then have "fu_pubkey v \<noteq> fu_pubkey u" using that by (metis imageI)
    then show ?thesis using that Cons.prems(2) by (simp add: put_update_def)
  qed
  then have IH: "(\<forall>v \<in> set us. fold (put_update wrap) us (put_update wrap u c) (fu_pubkey v) = (update_meta v, wrap (fu_follows v))) \<and>
      (\<forall>a. a \<notin> fu_pubkey ` set us \<longrightarrow> fold (put_update wrap) us (put_update wrap u c) a = put_update wrap u c a)"
    using Cons.IH Cons.prems(1) by simp
  have fresh: "fu_pubkey u \<notin> fu_pubkey ` set us" using Cons.prems(1) by simp
  have put: "put_update wrap u c = c(fu_pubkey u := (update_meta u, wrap (fu_follows u)))"
    using Cons.prems(2) [of u] by (simp add: put_update_def pick_update_def)
  show ?case using IH fresh by (simp add: put)
qed simp

lemma new_tables: "db_wf database_new" "named_by S database_new" "stored False database_new a = ((None, None), {})"
  by (simp_all add: db_wf_def named_by_def database_new_def stored_def db_meta_def db_targets_def db_id_def find_node_def)

theorem bench_restore_ok:
  assumes envs: "\<And>n. env_ok (envs n) \<and> \<not> faulty (envs n)" and one: "\<not> faulty open_env" "\<not> faulty load_env"
    and L: "lists_ok keys (\<lambda>i k. followed ! i)"
  shows "\<exists>g. bench_restore open_env envs load_env now (40 * length keys) keys followed = Some g \<and> graph_wf g \<and>
    (\<forall>i<length keys. follow_cell g (keys ! i) = ((Some 1, Some ''a''), set (followed ! i))) \<and>
    (\<forall>a. a \<notin> set keys \<longrightarrow> follow_cell g a = ((None, None), {}))"
proof -
  let ?us = "map (bench_update keys followed) [0..<length keys]"
  have dist: "distinct keys" and len: "42 * length keys \<le> 2 ^ 32" using L by (simp_all add: lists_ok_def)
  obtain r f where f: "open_database open_env empty_file = (r, f)" by fastforce
  have f_ok: "r = Ok ()" "file_rows f = database_new"
    using open_database_ok [OF f] one(1) by (cases r; simp add: empty_file_def)+
  obtain db where db: "store_chunks envs now keys followed 0 (chunks 100 [0..<length keys]) database_new = Some db"
    "db_wf db" "named_by (set keys) db" "stored False db = fold (put_update set) ?us (stored False database_new)"
    using store_chunks_ok [of envs "chunks 100 [0..<length keys]" keys "set keys" followed database_new now 0, OF envs _ new_tables(1,2)] L
    by (auto simp: concat_chunks lists_ok_def Let_def)
  have us: "map fu_pubkey ?us = keys" by (simp add: bench_update_def comp_def map_nth)
  then have us_set: "fu_pubkey ` set ?us = set keys" by (metis list.set_map)
  have put: "(\<forall>u \<in> set ?us. stored False db (fu_pubkey u) = (update_meta u, set (fu_follows u))) \<and>
      (\<forall>a. a \<notin> set keys \<longrightarrow> stored False db a = ((None, None), {}))"
    using fold_put_distinct [of ?us "stored False database_new" set] dist us us_set db(4) new_tables(3) by simp
  have "length (nodes db) \<le> length keys"
    using named_length [OF db(2,3)] dist by (simp add: distinct_card)
  then have small: "node_count graph_new + length (nodes db) < 2 ^ 32" using len by (simp add: graph_new_def)
  obtain r2 g where load: "load_graph load_env db graph_new = Some (r2, g)"
    "case r2 of Err _ \<Rightarrow> faulty load_env \<and> g = graph_new
     | Ok _ \<Rightarrow> graph_wf g \<and> node_count g \<le> node_count graph_new + length (nodes db) \<and>
         follow_cell g = merged_follows db graph_new \<and> mute_cell g = merged_mutes db graph_new"
    using load_graph_ok [OF db(2) graph_new_wf(1) small] by blast
  then obtain u where g: "r2 = Ok u" "graph_wf g" "follow_cell g = stored False db"
    using one(2) by (cases r2) (auto simp: merged_fresh)
  have cells: "follow_cell g (keys ! i) = ((Some 1, Some ''a''), set (followed ! i))" if "i < length keys" for i
    using that put g(3) by (auto simp: bench_update_def update_meta_def)
  have others: "follow_cell g a = ((None, None), {})" if "a \<notin> set keys" for a using that put g(3) by simp
  have "stat_edge_count (stats g) = 40 * length keys" by (rule forty_each [OF L g(2)]) (simp_all add: cells others)
  then show ?thesis using f f_ok db(1) load(1) g cells others by (simp add: bench_restore_def restore_checked_def)
qed

section \<open>A trial\<close>

lemma bench_lists_ok:
  assumes "n \<le> 2 ^ 20" "coprime (97::nat) n" "40 < n"
  shows "lists_ok (bench_keys n) (\<lambda>i k. bench_lists (bench_keys n) ! i)"
    "lists_ok (bench_keys n) (\<lambda>i k. (bench_lists (bench_keys n) ! i)[0 := k])"
proof -
  have "n \<le> 16 ^ 64" using assms(1) by simp
  note keys = bench_keys_ok [OF this]
  have lists: "length l = 40 \<and> distinct l \<and> set l \<subseteq> set (bench_keys n) \<and> bench_keys n ! i \<notin> set l"
    if "i < n" "l = bench_lists (bench_keys n) ! i" for i l
    using that bench_list_ok [of "bench_keys n" i] assms(2,3) keys by (simp add: bench_lists_def)
  have small: "42 * length (bench_keys n) \<le> 2 ^ 32" using assms(1) keys(2) by simp
  show "lists_ok (bench_keys n) (\<lambda>i k. bench_lists (bench_keys n) ! i)"
    using keys small lists by (simp add: lists_ok_def Let_def)
  have "set (l[0 := bench_keys n ! i]) \<subseteq> set (bench_keys n)" if "i < n" "l = bench_lists (bench_keys n) ! i" for i l
    using that lists [OF that] keys(2) set_update_subset_insert [of l 0 "bench_keys n ! i"] by auto
  then show "lists_ok (bench_keys n) (\<lambda>i k. (bench_lists (bench_keys n) ! i)[0 := k])"
    using keys small lists by (simp add: lists_ok_def Let_def distinct_list_update)
qed

theorem bench_trial_ok:
  assumes envs: "\<And>n. env_ok (envs n) \<and> \<not> faulty (envs n)" and one: "\<not> faulty open_env" "\<not> faulty load_env"
  shows "\<exists>g1 g2 g3 restored. bench_trial open_env envs load_env now = Some ((g1, g2, g3), restored) \<and>
    stat_node_count (stats g1) = 5000 \<and> stat_edge_count (stats g1) = 200000 \<and>
    stat_edge_count (stats g2) = 200000 \<and> revision g2 = revision g1 \<and> stat_edge_count (stats g3) = 200000 \<and>
    follow_cell restored = follow_cell g1"
proof -
  define n :: nat where "n = 5000"
  have "n \<le> 2 ^ 20" "40 < n" by (simp_all add: n_def)
  moreover have "coprime (97::nat) n" unfolding n_def coprime_iff_gcd_eq_1 by (simp add: gcd_non_0_nat)
  ultimately have L: "lists_ok (bench_keys n) (\<lambda>i k. bench_lists (bench_keys n) ! i)"
    "lists_ok (bench_keys n) (\<lambda>i k. (bench_lists (bench_keys n) ! i)[0 := k])"
    and len: "length (bench_keys n) = n"
    using bench_lists_ok [of n] bench_keys_ok(2) [of n] by simp_all
  obtain g1 g2 g3 where g: "graph_rounds (bench_keys n) (bench_lists (bench_keys n)) = (g1, g2, g3)"
    using prod_cases3 by blast
  note rounds = graph_rounds_ok [OF L g]
  obtain r where r: "bench_restore open_env envs load_env now (40 * length (bench_keys n)) (bench_keys n) (bench_lists (bench_keys n)) = Some r"
    "\<forall>i<length (bench_keys n). follow_cell r (bench_keys n ! i) = ((Some 1, Some ''a''), set (bench_lists (bench_keys n) ! i))"
    "\<forall>a. a \<notin> set (bench_keys n) \<longrightarrow> follow_cell r a = ((None, None), {})"
    using bench_restore_ok [where envs = envs and now = now, OF envs one L(1)] by blast
  have "follow_cell r a = follow_cell g1 a" for a
    using rounds(7,8) r(2,3) by (cases "a \<in> set (bench_keys n)") (auto simp: in_set_conv_nth)
  then have "follow_cell r = follow_cell g1" by blast
  moreover have "bench_trial open_env envs load_env now = Some ((g1, g2, g3), r)"
    using r(1) g unfolding len by (simp add: bench_trial_def Let_def n_def)
  ultimately show ?thesis using rounds(2-6) unfolding len by (auto simp: n_def)
qed

section \<open>Both orders of the hub\<close>

lemma hub_round: "hub_run reverse keys =
    deliver (Some 1, Some ''a'') (map (\<lambda>k. (k, [''hub''])) (if reverse then rev keys else keys)) (hub_nodes keys)"
proof -
  have "map (\<lambda>i. keys ! (length keys - 1 - i)) [0..<length keys] = rev keys"
    by (rule nth_equalityI) (simp_all add: rev_nth)
  then have order: "map (\<lambda>i. keys ! (if reverse then length keys - 1 - i else i)) [0..<length keys] =
      (if reverse then rev keys else keys)"
    by (simp add: map_nth)
  have "hub_run reverse keys =
      fold (\<lambda>k g. snd (update_follows g k [''hub''] (Some ''a'') (Some 1)))
        (map (\<lambda>i. keys ! (if reverse then length keys - 1 - i else i)) [0..<length keys]) (hub_nodes keys)"
    unfolding fold_map by (simp add: hub_run_def Let_def comp_def)
  then show ?thesis unfolding order deliver_def fold_map by (simp add: comp_def)
qed

lemma hub_nodes_ok:
  assumes "length keys \<le> 2 ^ 32"
  shows "graph_wf (hub_nodes keys)" "dom (pubkey_to_id (hub_nodes keys)) = set keys"
    "node_count (hub_nodes keys) \<le> length keys" "follow_cell (hub_nodes keys) a = ((None, None), {})"
proof -
  have "graph_wf g' \<and> dom (pubkey_to_id g') = dom (pubkey_to_id g) \<union> set ks \<and>
      node_count g' \<le> node_count g + length ks \<and> follow_cell g' = follow_cell g"
    if "graph_wf g" "node_count g + length ks \<le> 2 ^ 32" "g' = fold (\<lambda>k g. snd (get_or_create_node g k)) ks g" for ks g g'
    using that
  proof (induction ks arbitrary: g)
    case (Cons k ks)
    obtain i g1 where 1: "get_or_create_node_locked g k = (i, g1)" by fastforce
    have small: "graph_small g1" using locked_dom [OF 1] Cons.prems(2) by (simp add: graph_small_def)
    have g1: "snd (get_or_create_node g k) = g1" using 1 by (simp add: get_or_create_node_eq)
    then show ?case
      using Cons.IH [of g1] Cons.prems locked_wf [OF Cons.prems(1) 1 small] locked_dom [OF 1] by auto
  qed simp
  from this [of graph_new keys "hub_nodes keys"] assms
  show "graph_wf (hub_nodes keys)" "dom (pubkey_to_id (hub_nodes keys)) = set keys"
    "node_count (hub_nodes keys) \<le> length keys" "follow_cell (hub_nodes keys) a = ((None, None), {})"
    by (simp_all add: hub_nodes_def new_graph_cells graph_new_def [THEN arg_cong, of node_count])
qed

theorem hub_run_ok:
  assumes keys: "distinct keys" "''hub'' \<notin> set keys" "3 * length keys \<le> 2 ^ 32"
  shows "graph_wf (hub_run reverse keys)" "stat_edge_count (stats (hub_run reverse keys)) = length keys"
    "follow_cell (hub_run reverse keys) = (\<lambda>a. if a \<in> set keys then ((Some 1, Some ''a''), {''hub''}) else ((None, None), {}))"
    "keys \<noteq> [] \<Longrightarrow> ''hub'' \<in> dom (pubkey_to_id (hub_run reverse keys))"
proof -
  let ?ks = "if reverse then rev keys else keys" and ?g = "hub_run reverse keys"
  let ?kls = "map (\<lambda>k. (k, [''hub''])) ?ks"
  have "length keys \<le> 2 ^ 32" using keys(3) by simp
  note nodes = hub_nodes_ok [OF this]
  have len: "(\<Sum>(k, l)\<leftarrow>?kls. 1 + length l) = 2 * length keys" by (simp add: comp_def sum_list_triv)
  have fsts: "map fst ?kls = ?ks" by (simp add: comp_def)
  have D: "graph_wf ?g \<and> dom (pubkey_to_id ?g) = dom (pubkey_to_id (hub_nodes keys)) \<union> fst ` set ?kls \<union> (\<Union>(k, l) \<in> set ?kls. set l) \<and>
      follow_cell ?g = (\<lambda>a. case map_of ?kls a of Some l \<Rightarrow> ((Some 1, Some ''a''), set l) | None \<Rightarrow> follow_cell (hub_nodes keys) a)"
    unfolding hub_round
    by (rule deliver_ok [OF nodes(1)]) (use keys nodes(3) len fsts in \<open>auto simp: nodes(4)\<close>)
  have "map_of ?kls a = (if a \<in> set keys then Some [''hub''] else None)" for a
    using keys(1) by (auto simp: map_of_eq_None_iff comp_def intro!: map_of_is_SomeI)
  then show cells: "follow_cell ?g = (\<lambda>a. if a \<in> set keys then ((Some 1, Some ''a''), {''hub''}) else ((None, None), {}))"
    using D nodes(4) by (auto simp: fun_eq_iff)
  show g: "graph_wf ?g" using D by simp
  show "''hub'' \<in> dom (pubkey_to_id ?g)" if "keys \<noteq> []" using D that by (auto simp: neq_Nil_conv)
  have "stat_edge_count (stats ?g) = (\<Sum>a \<in> set keys. card (snd (follow_cell ?g a)))"
    by (rule edge_count_cells [OF g]) (simp_all add: cells)
  then show "stat_edge_count (stats ?g) = length keys" using keys(1) by (simp add: cells distinct_card)
qed

theorem hub_followers:
  assumes "0 < n" "n \<le> 2 ^ 20"
  shows "\<exists>names. get_followers (hub_run reverse (bench_keys n)) ''hub'' = Some names \<and> distinct names \<and>
    set names = set (bench_keys n)"
proof -
  have "n \<le> 16 ^ 64" using assms(2) by simp
  note keys = bench_keys_ok [OF this]
  have hub: "''hub'' \<notin> set (bench_keys n)"
  proof
    assume "''hub'' \<in> set (bench_keys n)"
    then obtain i where "hex_digits 64 i = ''hub''" by (auto simp: bench_keys_def)
    then show False using length_hex_digits [of 64 i] by simp
  qed
  have "3 * length (bench_keys n) \<le> 2 ^ 32" using assms(2) keys(2) by simp
  note run = hub_run_ok [OF keys(1) hub this]
  have "bench_keys n \<noteq> []" using assms(1) keys(2) by force
  then obtain i where i: "get_node_id (hub_run reverse (bench_keys n)) ''hub'' = Some i"
    using run(4) by (auto simp: get_node_id_def)
  obtain names where names: "get_followers (hub_run reverse (bench_keys n)) ''hub'' = Some names" "distinct names"
    "set names = {b. ''hub'' \<in> snd (follow_cell (hub_run reverse (bench_keys n)) b)}"
    using followers_spec [OF run(1) i] by blast
  then show ?thesis by (auto simp: run(3))
qed

end
