(* ===== verification/Spec2Isabelle.thy ===== *)
theory Spec2Isabelle
  imports CacheProtocol HttpBatch HttpRead Dvm GovernorKey Supervisor GraphLinear QuerySlots Benchmark
begin

text \<open>
  Verification library of the web-of-trust oracle: a service that collects the public follow and
  mute lists of Nostr keys from relays, keeps them in SQLite and in memory, and answers follow
  distances, shortest paths, lists and mute evidence over HTTP and as a data vending machine. All
  file names are relative to \<open>src/src\<close>.

  The program. The ingestion (\<open>sync/ingestion.rs\<close>) turns received events into batches of list
  updates, commits each batch to the database (\<open>db/sqlite.rs\<close>) and then publishes it to the
  in-memory graph (\<open>graph/store.rs\<close>). The searches (\<open>graph/bfs.rs\<close>) and the readers of the graph
  serve the handlers (\<open>api/http.rs\<close>, \<open>api/dvm.rs\<close>), which share a cache of distances (\<open>cache.rs\<close>)
  tied to the revision of the graph. At the start the database is loaded into a fresh graph; the
  process (\<open>main.rs\<close>) ends when a signal comes or a service stops.

  Shared. \<open>WotPrelude\<close> holds the result type, indexing that can panic, sorted vectors with binary
  search, and saturating 64-bit arithmetic. \<open>EventOrder\<close> models \<open>accepts_event\<close> and \<open>event_wins\<close>,
  the order of replaceable events, and the contract \<open>lww_store\<close> of a store of replaceable lists:
  whatever satisfies it forgets the order and the repetition of deliveries. The graph, the
  database and the pairs of lists the ingestion maintains are its interpretations.

  The graph. \<open>Interner\<close> is \<open>graph/interner.rs\<close>. \<open>GraphStore\<close> is the record of
  \<open>WotGraph\<close> with its writers as functions on it, a write in one step (the threads below justify it).
  \<open>follow_cell\<close> and \<open>mute_cell\<close> are the abstract state: for each key its provenance and its list as
  a set of keys. \<open>GraphInvariant\<close> defines \<open>graph_wf\<close> (names and ids correspond, vectors are sorted
  and in range, followers are the inverse of follows), \<open>GraphUpdate\<close> and \<open>GraphRestore\<close>
  show that the writers keep it and what they do to the cells, \<open>GraphRevision\<close> that an unchanged
  revision means an unchanged topology. \<open>GraphQuery\<close> models the readers, \<open>GraphCount\<close> relates the
  counters of \<open>stats\<close> to the cells.

  The threads. \<open>LockPool\<close> is a machine of threads that acquire and release shared and exclusive locks
  and change a common state; it shows that programs which take their locks in ascending order never
  deadlock and always end, and that an exclusive holder is alone. \<open>LockLogic\<close> is a rely/guarantee logic
  over it, a locale of an object whose history of events explains its state. \<open>GraphThreads\<close> writes every
  operation of the graph as such a program, lock by lock in the order of the code, with the locks of
  the shards of both hash maps. \<open>GraphMoments\<close> interprets the logic on the graph: an event is a write
  of \<open>GraphStore\<close>, the replayed history the graph of the one-step model. \<open>GraphSafe\<close> and
  \<open>GraphReads\<close> derive writers and readers in it, and \<open>GraphLinear\<close> lets threads call
  at will: \<open>linear_trace\<close> are the orders of calls, atomic writes and replies in which each reply is the
  one-step model's at a moment between its call and its answer.

  The searches. \<open>BfsDistance\<close> and \<open>BfsPath\<close> translate the two bidirectional searches with their
  scratch state. \<open>GraphPaths\<close> defines walks and distances of a relation; \<open>BfsLevel\<close> and
  \<open>BfsCorrect\<close> carry the layer invariant of the search over numbered nodes, \<open>DistanceSpec\<close> and
  \<open>PathSpec\<close> lift it to keys: \<open>distance_ok\<close> and \<open>path_ok\<close> say what a result must be, and
  \<open>meeting_layer\<close> at which nodes of the shortest chains the two searches meet. The loops are
  bounded by the hop limit, so they are total functions with a measure and need no fuel.

  The cache. \<open>QueryCache\<close> models the compact entries and the two reads of the revision around a
  look-up; \<open>later\<close> relates the moments of one graph, \<open>cache_sound\<close> says that each entry is the
  result of a search on an earlier moment and carries its revision. \<open>CacheProtocol\<close> runs all its
  users beside each other: a task records the moments at which it reads the graph and the map it
  looks into, each a step of its own among the steps of the others, and answers and inserts what its
  handler (\<open>get_distance\<close>, \<open>dvm_distance\<close>, a batch's look-up or search) computes from them. The cache is
  sound in every reachable state and every distance given is exact.

  Counters and settings. \<open>LockMetrics\<close> is \<open>graph/metrics.rs\<close>, \<open>OracleConfig\<close> is \<open>config.rs\<close>.

  The database. \<open>Database\<close> gives the tables as lists of rows and each statement as a
  step that can fail; a transaction that fails leaves the tables alone. What the environment
  decides (which statement fails, which ids are free, the order of hash tables and of rows
  without an order) is an argument. \<open>DatabaseSpec\<close> has the invariant \<open>db_wf\<close> and one lemma per
  statement, \<open>DatabaseBatch\<close> refines a batch to its updates one after another
  (\<open>put_update\<close>), \<open>DatabaseNames\<close> bounds the nodes it creates, \<open>DatabaseLoad\<close> loads the tables into a
  graph. \<open>DatabaseOpen\<close> opens a file: the schema as a list of statements that run on the tables and
  indexes of a new, a legacy or a complete file.

  The ingestion. \<open>Ingestion\<close> translates parsing, selection, the two transactions of a batch, the
  retries and the service loop as a function of what \<open>select!\<close> delivers. \<open>IngestionSpec\<close> relates
  the stores (\<open>in_sync\<close>, and \<open>in_step\<close> after a failure), \<open>IngestionLoop\<close> carries \<open>loop_inv\<close> through
  the loop, and \<open>IngestionLive\<close> shows that a request to shut down is answered and, where each
  flush meets a fault-free attempt, drains.

  The services. \<open>HttpApi\<close> translates the handlers; each read of the graph has a moment of its own
  and other tasks may have used the cache before each of the handler's uses. \<open>HttpSpec\<close> places the
  moments on a timeline of writes and proves single distances exact, \<open>HttpBatch\<close> the batches,
  \<open>HttpRead\<close> the other readers. \<open>Dvm\<close> is \<open>api/dvm.rs\<close>, \<open>GovernorKey\<close> is \<open>api/governor_key.rs\<close> with
  the address parser of the Rust library. \<open>QuerySlots\<close> is the semaphore that all computing requests
  share. \<open>Supervisor\<close> is the process from the file it opens to the exit and the file it leaves.
  \<open>Benchmark\<close> is \<open>examples/graph_efficiency.rs\<close>, the measuring program over the graph and the database.

  The properties. C1 to C7 are about the searches, C8 to C11 about the writers of the graph and
  their order, C12 to C14 about its readers and the interner, C15 and C16 about the revision and the
  cache, C17 to C19 about counters and settings, C20 to C24 about the database and the start, C25 to
  C28 about the ingestion, C29 about the cache among all its users, C30 to C33 about requests, C34 to
  C36 about threads, C37 about the permits, C38 about the measuring program, and C39 and C40 about the
  database file and the process from start to exit and restart. A witness follows each property that
  has a hypothesis, evaluated on a small graph, database or run; the other theorems here are parts of
  the components that the properties do not need.

  Bounds. Ids of nodes are below 2^32 (\<open>graph_small\<close>), where the code would panic or wrap beyond.
  Two readings of the revision are told apart for fewer than 2^64 - 2^32 writes between them, so the
  requests are placed on a timeline of fewer than 2^63 writes. Clock values of the ingestion lie
  between 0 and 2^63 - 600 seconds. A batch request reads the graph at most 1001 times:
  \<open>4 * 100 + 1\<close> reads to look up the targets and \<open>6 * 100\<close> to search them.

  What is assumed of code outside the repository, by name: \<open>lossy\<close> (a bounded cache may forget but
  returns only what was inserted under the key), \<open>lru_ok\<close> (likewise the LRU cache of seen
  events), \<open>env_ok\<close> (SQLite gives a new row an unused id and returns all rows in some order),
  \<open>client_ok\<close> (the Nostr client takes the tags and sends the event), \<open>admission_ok\<close> (a lock that is free
  for some of its waiters admits one of them; which one, and whether readers queue behind a waiting
  writer, is left open). The shards of a \<open>DashMap\<close> are functions of the key.

  Not modelled: logging, the relay client and its subscriptions, JSON, routing, CORS and the server
  of \<open>axum\<close>, the floating-point refill period of the rate limiter, the effect of pragmas and signal
  handlers. In the threads, the merge of \<open>restore_nodes\<close> under its locks is one change, the start's
  load is covered by termination and lock order but not by linearizability (it runs before other
  threads exist), \<open>get_node_info\<close> likewise (\<open>update_follows\<close> publishes the provenance after the list),
  and the timers of the locks are left to \<open>LockMetrics\<close>. Mute evidence is placed at the moments of its
  two look-ups and of its reading, as the code does them. The tests and the module files hold no logic.
\<close>

section \<open>Sample data\<close>

definition sample_graph :: wot_graph where
  "sample_graph =
     snd (update_mutes
       (snd (update_follows
         (snd (update_follows graph_new ''a'' [''b'', ''c''] (Some ''e1'') (Some 1)))
         ''b'' [''a'', ''d''] (Some ''e2'') (Some 2)))
       ''d'' [''a''] (Some ''e3'') (Some 3))"

lemma sample_graph_wf [simp]: "graph_wf sample_graph"
proof -
  let ?g1 = "snd (update_follows graph_new ''a'' [''b'', ''c''] (Some ''e1'') (Some 1))"
  let ?g2 = "snd (update_follows ?g1 ''b'' [''a'', ''d''] (Some ''e2'') (Some 2))"
  have "graph_small ?g1" "graph_small ?g2" "graph_small sample_graph" by code_simp+
  then show ?thesis
    using update_follows_spec [of graph_new "''a''" "[''b'', ''c'']" "Some ''e1''" "Some 1", OF _ prod.collapse [symmetric]]
      update_follows_spec [of ?g1 "''b''" "[''a'', ''d'']" "Some ''e2''" "Some 2", OF _ prod.collapse [symmetric]]
      update_mutes_spec [of ?g2 "''d''" "[''a'']" "Some ''e3''" "Some 3", OF _ prod.collapse [symmetric]]
    by (simp add: sample_graph_def)
qed

definition sample_query :: distance_query where
  "sample_query = \<lparr>dq_from = ''a'', dq_to = ''d'', dq_max_hops = 3, dq_include_bridges = True\<rparr>"

lemma sample_distance:
  obtains r st where "compute_distance sample_graph bfs_state_new sample_query = Some (r, st)" "hops r = Some 2"
proof -
  have "map_option (\<lambda>(r, _). hops r) (compute_distance sample_graph bfs_state_new sample_query) = Some (Some 2)"
    by code_simp
  then show thesis using that by auto
qed

lemma sample_small [simp]: "node_count sample_graph = 4"
  by code_simp

section \<open>Distances\<close>

text \<open>
  C1: on a well-formed graph \<open>compute_distance\<close> returns (no panic, no endless loop), and the
  hop count it reports is the length of a shortest chain of follows, reported exactly if that
  length is at most \<open>max_hops\<close>.
\<close>

theorem distance_exact:
  assumes "graph_wf g"
  shows "\<exists>r st. compute_distance g scratch q = Some (r, st) \<and>
    (\<forall>d. hops r = Some d \<longleftrightarrow>
       d \<le> unat (dq_max_hops q) \<and> dist_is (follow_edge g) (dq_from q) (dq_to q) d)"
proof -
  obtain r st where r: "compute_distance g scratch q = Some (r, st)" "distance_ok g q r"
    using compute_distance_ok [OF assms] by blast
  then have "hops r = Some d \<longleftrightarrow> d \<le> unat (dq_max_hops q) \<and> dist_is (follow_edge g) (dq_from q) (dq_to q) d" for d
    by (cases "hops r") (auto simp: distance_ok_def Let_def dest: dist_is_unique)
  then show ?thesis using r(1) by blast
qed

lemma distance_exact_witness:
  "\<exists>r st. compute_distance sample_graph bfs_state_new sample_query = Some (r, st) \<and>
    (hops r = Some 2 \<longleftrightarrow> dist_is (follow_edge sample_graph) ''a'' ''d'' 2)"
  using distance_exact [OF sample_graph_wf, of bfs_state_new sample_query] by (auto simp: sample_query_def)

text \<open>
  C2: the path count of a found distance is the number of shortest chains of follows, cut off at
  \<open>u64::MAX\<close>.
\<close>

theorem path_count_exact:
  assumes "graph_wf g" "compute_distance g scratch q = Some (r, st)" "hops r = Some d"
  shows "unat (path_count r) = min (card (walks (follow_edge g) d (dq_from q) (dq_to q))) (2 ^ 64 - 1)"
  using compute_distance_ok [OF assms(1), of scratch q] assms(2,3)
  by (auto simp: distance_ok_def Let_def)

lemma path_count_exact_witness:
  "\<exists>r st. compute_distance sample_graph bfs_state_new sample_query = Some (r, st) \<and>
    unat (path_count r) = min (card (walks (follow_edge sample_graph) 2 ''a'' ''d'')) (2 ^ 64 - 1)"
proof -
  obtain r st where "compute_distance sample_graph bfs_state_new sample_query = Some (r, st)" "hops r = Some 2"
    by (rule sample_distance)
  then show ?thesis using path_count_exact [OF sample_graph_wf] by (fastforce simp: sample_query_def)
qed

text \<open>
  C3: the bridges of a found distance are, without repetition, the inner pubkeys of the shortest chains
  at the position where the two searches meet, each step of which is made by the side with fewer
  outermost nodes (\<open>meeting_layer\<close>). There is none exactly if the forward search alone has reached the
  other end (the backward one has made no step); then a chain of two or more hops has inner pubkeys, but
  no bridges.
\<close>

theorem bridges_layer:
  assumes "graph_wf g" "compute_distance g scratch q = Some (r, st)" "hops r = Some d"
    "dq_include_bridges q" "dq_from q \<noteq> dq_to q"
  shows "\<exists>bs. bridges r = Some bs \<and> distinct bs \<and>
    set bs = meeting_layer (follow_edge g) (dq_from q) (dq_to q) d - {dq_from q, dq_to q} \<and>
    (bs = [] \<longleftrightarrow> snd (depths (follow_edge g) (dq_from q) (dq_to q) d) = 0)"
proof -
  have ok: "distance_ok g q r" using compute_distance_ok [OF assms(1), of scratch q] assms(2) by auto
  then obtain bs where bs: "bridges r = Some bs" "distinct bs"
    "set bs = meeting_layer (follow_edge g) (dq_from q) (dq_to q) d - {dq_from q, dq_to q}"
    using assms(3-5) by (auto simp: distance_ok_def Let_def)
  have "dist_is (follow_edge g) (dq_from q) (dq_to q) d" using ok assms(3) by (simp add: distance_ok_def Let_def)
  from meeting_layer_inner [OF this assms(5)]
  have "set bs = {} \<longleftrightarrow> snd (depths (follow_edge g) (dq_from q) (dq_to q) d) = 0" by (simp only: bs(3))
  then have empty: "bs = [] \<longleftrightarrow> snd (depths (follow_edge g) (dq_from q) (dq_to q) d) = 0" by (simp only: set_empty)
  show ?thesis by (rule exI [of _ bs]) (intro conjI bs empty)
qed

lemma bridges_layer_witness:
  "\<exists>r st. compute_distance sample_graph bfs_state_new sample_query = Some (r, st) \<and> bridges r = Some [''b''] \<and>
    meeting_layer (follow_edge sample_graph) ''a'' ''d'' 2 - {''a'', ''d''} = {''b''} \<and>
    snd (depths (follow_edge sample_graph) ''a'' ''d'' 2) \<noteq> 0"
proof -
  have "map_option (\<lambda>(r, _). (hops r, bridges r)) (compute_distance sample_graph bfs_state_new sample_query) = Some (Some 2, Some [''b''])"
    by code_simp
  then obtain r st where r: "compute_distance sample_graph bfs_state_new sample_query = Some (r, st)" "hops r = Some 2"
    "bridges r = Some [''b'']"
    by auto
  then show ?thesis
    using bridges_layer [OF sample_graph_wf r(1,2)] by (auto simp: sample_query_def simp del: depths.simps)
qed

text \<open>A chain of two hops: both searches have one node, so the forward one makes both steps.\<close>

lemma chain_without_bridges:
  "map_option (\<lambda>(r, _). (hops r, path_count r, bridges r))
     (compute_distance
       (snd (update_follows (snd (update_follows graph_new ''a'' [''b''] None (Some 1))) ''b'' [''c''] None (Some 1)))
       bfs_state_new \<lparr>dq_from = ''a'', dq_to = ''c'', dq_max_hops = 3, dq_include_bridges = True\<rparr>) =
   Some (Some 2, 1, Some [])"
  by code_simp

text \<open>
  C4: a distance result names the two ends it was asked for, reports a mutual follow exactly if
  both stored lists name the other end (and a hop is allowed), and has no bridges where none were
  asked for or nothing was found.
\<close>

theorem distance_flags:
  assumes "graph_wf g" "compute_distance g scratch q = Some (r, st)"
  shows "dr_from r = dq_from q \<and> dr_to r = dq_to q \<and>
    (mutual_follow r \<longleftrightarrow> dq_from q \<noteq> dq_to q \<and> dq_max_hops q \<noteq> 0 \<and>
      dq_to q \<in> snd (follow_cell g (dq_from q)) \<and> dq_from q \<in> snd (follow_cell g (dq_to q))) \<and>
    (bridges r \<noteq> None \<longleftrightarrow> hops r \<noteq> None \<and> dq_include_bridges q \<and> dq_from q \<noteq> dq_to q)"
proof -
  have ok: "distance_ok g q r" using compute_distance_ok [OF assms(1), of scratch q] assms(2) by auto
  then show ?thesis
    by (cases "hops r") (auto simp: distance_ok_def Let_def follow_edge_def unat_gt_0 split: if_splits)
qed

lemma distance_flags_witness:
  "\<exists>r st. compute_distance sample_graph bfs_state_new sample_query = Some (r, st) \<and>
    dr_from r = ''a'' \<and> dr_to r = ''d'' \<and> bridges r \<noteq> None"
proof -
  obtain r st where "compute_distance sample_graph bfs_state_new sample_query = Some (r, st)" "hops r = Some 2"
    by (rule sample_distance)
  then show ?thesis using distance_flags [OF sample_graph_wf] by (fastforce simp: sample_query_def)
qed

text \<open>
  C5: the answer does not depend on what earlier queries of the thread left in the scratch state.
\<close>

theorem distance_scratch_free:
  "map_option fst (compute_distance g scratch q) = map_option fst (compute_distance g scratch' q)"
  by (rule compute_distance_scratch)

text \<open>
  C6: on a well-formed graph \<open>compute_path\<close> returns, and its path is present exactly if a chain
  of follows of at most \<open>max_hops\<close> steps exists (or both ends are equal); the path holds the
  inner pubkeys, in order, of a shortest such chain.
\<close>

theorem path_exact:
  assumes "graph_wf g"
  shows "\<exists>r. compute_path g q = Some r \<and> pr_from r = pq_from q \<and> pr_to r = pq_to q \<and>
    (case pr_path r of
       None \<Rightarrow> \<forall>d \<le> unat (pq_max_hops q). \<not> dist_is (follow_edge g) (pq_from q) (pq_to q) d
     | Some ps \<Rightarrow>
         if pq_from q = pq_to q then ps = []
         else Suc (length ps) \<le> unat (pq_max_hops q) \<and>
           dist_is (follow_edge g) (pq_from q) (pq_to q) (Suc (length ps)) \<and>
           successively (follow_edge g) (pq_from q # ps @ [pq_to q]))"
proof -
  obtain r where r: "compute_path g q = Some r" "path_ok g q r" using compute_path_ok [OF assms] by blast
  then show ?thesis
    by (intro exI [of _ r]) (auto simp: path_ok_def Let_def walks_def split: option.splits if_splits)
qed

lemma path_exact_witness:
  "\<exists>r ps. compute_path sample_graph \<lparr>pq_from = ''a'', pq_to = ''d'', pq_max_hops = 3\<rparr> = Some r \<and>
    pr_path r = Some ps \<and> successively (follow_edge sample_graph) (''a'' # ps @ [''d''])"
proof -
  let ?q = "\<lparr>pq_from = ''a'', pq_to = ''d'', pq_max_hops = 3\<rparr>"
  have "map_option pr_path (compute_path sample_graph ?q) = Some (Some [''b''])" by code_simp
  then show ?thesis using path_exact [OF sample_graph_wf, of ?q] by auto
qed

text \<open>
  C7: \<open>compute_path\<close> and \<open>compute_distance\<close> agree: for the same ends and hop limit, either
  both find nothing, or the path has one inner pubkey less than the distance has hops.
\<close>

theorem path_agrees_with_distance:
  assumes "graph_wf g" "compute_distance g scratch q = Some (r, st)" "dq_from q \<noteq> dq_to q"
    and "compute_path g \<lparr>pq_from = dq_from q, pq_to = dq_to q, pq_max_hops = dq_max_hops q\<rparr> = Some p"
  shows "hops r = map_option (\<lambda>ps. Suc (length ps)) (pr_path p)"
proof -
  have d: "distance_ok g q r" using compute_distance_ok [OF assms(1), of scratch q] assms(2) by auto
  have p: "path_ok g \<lparr>pq_from = dq_from q, pq_to = dq_to q, pq_max_hops = dq_max_hops q\<rparr> p"
    using compute_path_ok [OF assms(1)] assms(4) by (metis option.inject)
  show ?thesis
    using d p assms(3) by (cases "hops r"; cases "pr_path p")
      (auto simp: distance_ok_def path_ok_def Let_def dest: dist_is_unique)
qed

lemma path_agrees_with_distance_witness:
  "\<exists>r st p. compute_distance sample_graph bfs_state_new sample_query = Some (r, st) \<and>
    compute_path sample_graph \<lparr>pq_from = ''a'', pq_to = ''d'', pq_max_hops = 3\<rparr> = Some p \<and>
    hops r = map_option (\<lambda>ps. Suc (length ps)) (pr_path p)"
proof -
  let ?q = "\<lparr>pq_from = ''a'', pq_to = ''d'', pq_max_hops = 3\<rparr>"
  obtain r st where r: "compute_distance sample_graph bfs_state_new sample_query = Some (r, st)"
    by (rule sample_distance)
  have "compute_path sample_graph ?q \<noteq> None" by code_simp
  then obtain p where "compute_path sample_graph ?q = Some p" by auto
  then show ?thesis
    using path_agrees_with_distance [OF sample_graph_wf r] r by (auto simp: sample_query_def)
qed

section \<open>Updates of the graph\<close>

text \<open>
  C8: \<open>update_follows\<close> keeps the graph well-formed (follower vectors are the transpose of the
  sorted follow vectors), reports whether the event replaces the stored list by the replaceable-event
  order, and then changes exactly the author's list and its provenance; no mute list changes.
\<close>

theorem update_follows_correct:
  assumes "graph_wf g" "update_follows g a l eid ts = (b, g')" "graph_small g'"
  shows "graph_wf g' \<and> (b \<longleftrightarrow> accepts_event (fst (fst (follow_cell g a))) (snd (fst (follow_cell g a))) ts eid) \<and>
    follow_cell g' = (if b then (follow_cell g)(a := ((ts, eid), set l)) else follow_cell g) \<and>
    mute_cell g' = mute_cell g"
  using update_follows_spec [OF assms] by simp

lemma update_follows_correct_witness:
  "\<exists>g'. update_follows sample_graph ''a'' [''d''] (Some ''e9'') (Some 9) = (True, g') \<and>
    graph_wf g' \<and> follow_cell g' ''a'' = ((Some 9, Some ''e9''), {''d''})"
proof -
  let ?u = "update_follows sample_graph ''a'' [''d''] (Some ''e9'') (Some 9)"
  have u: "?u = (fst ?u, snd ?u)" by simp
  have "fst ?u" "graph_small (snd ?u)" by code_simp+
  then show ?thesis
    using update_follows_correct [OF sample_graph_wf u]
    by (intro exI [of _ "snd ?u"]) (simp add: prod_eq_iff)
qed

text \<open>C9: the same for \<open>update_mutes\<close>.\<close>

theorem update_mutes_correct:
  assumes "graph_wf g" "update_mutes g a l eid ts = (b, g')" "graph_small g'"
  shows "graph_wf g' \<and> (b \<longleftrightarrow> accepts_event (fst (fst (mute_cell g a))) (snd (fst (mute_cell g a))) ts eid) \<and>
    mute_cell g' = (if b then (mute_cell g)(a := ((ts, eid), Some (set l))) else mute_cell g) \<and>
    follow_cell g' = follow_cell g"
  using update_mutes_spec [OF assms] by simp

lemma update_mutes_correct_witness:
  "\<exists>g'. update_mutes sample_graph ''d'' [''b''] (Some ''e0'') (Some 3) = (True, g') \<and>
    graph_wf g' \<and> mute_cell g' ''d'' = ((Some 3, Some ''e0''), Some {''b''})"
proof -
  let ?u = "update_mutes sample_graph ''d'' [''b''] (Some ''e0'') (Some 3)"
  have u: "?u = (fst ?u, snd ?u)" by simp
  have "fst ?u" "graph_small (snd ?u)" by code_simp+
  then show ?thesis
    using update_mutes_correct [OF sample_graph_wf u]
    by (intro exI [of _ "snd ?u"]) (simp add: prod_eq_iff)
qed

text \<open>
  C10: received follow lists converge. Two deliveries of the same set of signed events, in any
  order and with any repetition, leave the same lists and provenance, provided one event id names
  one list of an author.
\<close>

theorem follow_lists_converge:
  assumes "graph_wf g" "set es = set es'" "graph_small (receive_follows es g)" "graph_small (receive_follows es' g)"
    and "\<And>a v l l'. (a, v, l) \<in> set es \<Longrightarrow> (a, v, l') \<in> set es \<Longrightarrow> set l = set l'"
  shows "follow_cell (receive_follows es g) = follow_cell (receive_follows es' g)"
proof (rule ext)
  fix a
  have one: "graph_follows.one_list_per_version (set es)"
    unfolding graph_follows.one_list_per_version_def using assms(5) by blast
  show "follow_cell (receive_follows es g) a = follow_cell (receive_follows es' g) a"
    using graph_follows.apply_order_irrelevant [OF assms(1) one assms(2)] assms(3,4)
    by (simp add: receive_follows_eq)
qed

lemma follow_lists_converge_witness:
  "follow_cell (receive_follows [(''a'', Version 7 ''x'', [''d'']), (''a'', Version 7 ''y'', [''c''])] sample_graph) =
   follow_cell (receive_follows [(''a'', Version 7 ''y'', [''c'']), (''a'', Version 7 ''x'', [''d''])] sample_graph)"
proof (rule follow_lists_converge [OF sample_graph_wf])
  show "graph_small (receive_follows [(''a'', Version 7 ''x'', [''d'']), (''a'', Version 7 ''y'', [''c''])] sample_graph)"
    "graph_small (receive_follows [(''a'', Version 7 ''y'', [''c'']), (''a'', Version 7 ''x'', [''d''])] sample_graph)"
    by code_simp+
qed auto

text \<open>Received mute lists converge in the same way.\<close>

theorem mute_lists_converge:
  assumes "graph_wf g" "set es = set es'" "graph_small (receive_mutes es g)" "graph_small (receive_mutes es' g)"
    and "\<And>a v l l'. (a, v, l) \<in> set es \<Longrightarrow> (a, v, l') \<in> set es \<Longrightarrow> set l = set l'"
  shows "mute_cell (receive_mutes es g) = mute_cell (receive_mutes es' g)"
proof (rule ext)
  fix a
  have one: "graph_mutes.one_list_per_version (set es)"
    unfolding graph_mutes.one_list_per_version_def option.inject using assms(5) by blast
  show "mute_cell (receive_mutes es g) a = mute_cell (receive_mutes es' g) a"
    using graph_mutes.apply_order_irrelevant [OF assms(1) one assms(2)] assms(3,4)
    by (simp add: receive_mutes_eq)
qed

lemma mute_lists_converge_witness:
  "mute_cell (receive_mutes [(''a'', Version 7 ''x'', [''d'']), (''a'', Version 7 ''y'', [''c''])] sample_graph) =
   mute_cell (receive_mutes [(''a'', Version 7 ''y'', [''c'']), (''a'', Version 7 ''x'', [''d''])] sample_graph)"
proof (rule mute_lists_converge [OF sample_graph_wf])
  show "graph_small (receive_mutes [(''a'', Version 7 ''x'', [''d'']), (''a'', Version 7 ''y'', [''c''])] sample_graph)"
    "graph_small (receive_mutes [(''a'', Version 7 ''y'', [''c'']), (''a'', Version 7 ''x'', [''d''])] sample_graph)"
    by code_simp+
qed auto

text \<open>
  C11: restoring a snapshot whose edges are in range does not panic, keeps the graph well-formed,
  and is the merge of the snapshot's lists, node by node, under the replaceable-event order: lists
  that arrived live and are newer survive.
\<close>

theorem restore_merges:
  assumes "graph_wf g" "snapshot_valid snap" "node_count g + length snap \<le> 2 ^ 32"
  shows "\<exists>g'. restore_nodes g snap = Some g' \<and> graph_wf g' \<and>
    follow_cell g' = fold (merge_follow snap) snap (follow_cell g) \<and>
    mute_cell g' = fold (merge_mute snap) snap (mute_cell g)"
  using restore_nodes_spec [OF assms] by blast

definition sample_snapshot :: "snapshot_node list" where
  "sample_snapshot =
     [\<lparr>snap_pubkey = ''a'', snap_info = \<lparr>kind3_event_id = Some ''e8'', kind3_created_at = Some 8\<rparr>,
       snap_follows = [1], snap_mutes = None\<rparr>,
      \<lparr>snap_pubkey = ''z'', snap_info = \<lparr>kind3_event_id = None, kind3_created_at = None\<rparr>,
       snap_follows = [], snap_mutes = None\<rparr>]"

lemma restore_merges_witness:
  "\<exists>g'. restore_nodes sample_graph sample_snapshot = Some g' \<and> graph_wf g' \<and>
    follow_cell g' = fold (merge_follow sample_snapshot) sample_snapshot (follow_cell sample_graph)"
  using restore_merges [OF sample_graph_wf, of sample_snapshot]
  by (auto simp: snapshot_valid_def sample_snapshot_def)

section \<open>Readers of the graph\<close>

text \<open>
  C12: \<open>mute_evidence\<close> does not panic, and its five parts say what the stored public lists say:
  who mutes whom, whose lists are known, and, without repetition, the pubkeys the source follows
  whose lists mute the target.
\<close>

theorem mute_evidence_exact:
  assumes "graph_wf g"
  shows "\<exists>e. mute_evidence_of g a b = Some e \<and>
    (source_mutes_target e \<longleftrightarrow> b \<in> muted_by g a) \<and> (target_mutes_source e \<longleftrightarrow> a \<in> muted_by g b) \<and>
    distinct (followed_muters e) \<and>
    set (followed_muters e) = {c \<in> snd (follow_cell g a). b \<in> muted_by g c} \<and>
    (source_mute_list_known e \<longleftrightarrow> snd (mute_cell g a) \<noteq> None) \<and>
    (target_mute_list_known e \<longleftrightarrow> snd (mute_cell g b) \<noteq> None)"
  by (rule mute_evidence_spec [OF assms])

lemma mute_evidence_exact_witness:
  "\<exists>e. mute_evidence_of sample_graph ''b'' ''a'' = Some e \<and>
    set (followed_muters e) = {c \<in> snd (follow_cell sample_graph ''b''). ''a'' \<in> muted_by sample_graph c}"
  using mute_evidence_exact [OF sample_graph_wf, of "''b''" "''a''"] by blast

text \<open>
  \<open>common_follows\<close> does not panic and returns, without repetition, the intersection of the
  two follow lists.
\<close>

theorem common_follows_exact:
  assumes "graph_wf g"
  shows "\<exists>names. common_follows g a b = Some names \<and> distinct names \<and>
    set names = snd (follow_cell g a) \<inter> snd (follow_cell g b)"
  by (rule common_follows_spec [OF assms])

lemma common_follows_exact_witness:
  "\<exists>names. common_follows sample_graph ''a'' ''b'' = Some names \<and>
    set names = snd (follow_cell sample_graph ''a'') \<inter> snd (follow_cell sample_graph ''b'')"
  using common_follows_exact [OF sample_graph_wf, of "''a''" "''b''"] by blast

text \<open>
  The pages of a known author's follow list are the slices of the one list \<open>get_follows\<close>
  returns, with its length as the total; the list has no repetition and no page panics.
\<close>

theorem follows_pages:
  assumes "graph_wf g" "get_node_id g a = Some i"
  shows "\<exists>names. set names = snd (follow_cell g a) \<and> distinct names \<and> get_follows g a = Some names \<and>
    (\<forall>offset limit. get_follows_page g a offset limit =
       Some (Some (take limit (drop offset names), length names)))"
  by (rule follows_page_spec [OF assms])

lemma follows_pages_witness:
  "\<exists>names. set names = snd (follow_cell sample_graph ''a'') \<and>
    get_follows_page sample_graph ''a'' 1 5 = Some (Some (take 5 (drop 1 names), length names))"
proof -
  have "get_node_id sample_graph ''a'' = Some 0" by code_simp
  from follows_pages [OF sample_graph_wf this] show ?thesis by blast
qed

text \<open>
  Pages of mute lists: a list that was never received has no page; a known one is paged like a follow list,
  the empty list included.
\<close>

theorem mutes_pages:
  assumes "graph_wf g"
  shows "case snd (mute_cell g a) of
      None \<Rightarrow> get_mutes_page g a offset limit = Some None
    | Some ms \<Rightarrow> \<exists>names. set names = ms \<and> distinct names \<and>
        get_mutes_page g a offset limit = Some (Some (take limit (drop offset names), length names))"
  by (rule mutes_page_spec [OF assms])

lemma mutes_pages_witness:
  "\<exists>names. set names = {''a''} \<and> get_mutes_page sample_graph ''d'' 0 5 = Some (Some (take 5 names, length names))"
proof -
  have "snd (mute_cell sample_graph ''d'') = Some {''a''}" by code_simp
  then show ?thesis using mutes_pages [OF sample_graph_wf, of "''d''" 0 5] by auto
qed

text \<open>C13: the followers of a known pubkey are, without repetition, the authors whose list names it.\<close>

theorem followers_exact:
  assumes "graph_wf g" "get_node_id g a = Some i"
  shows "\<exists>names. get_followers g a = Some names \<and> distinct names \<and> set names = {b. a \<in> snd (follow_cell g b)}"
  by (rule followers_spec [OF assms])

lemma followers_exact_witness:
  "\<exists>names. get_followers sample_graph ''b'' = Some names \<and> set names = {c. ''b'' \<in> snd (follow_cell sample_graph c)}"
proof -
  have "get_node_id sample_graph ''b'' = Some 1" by code_simp
  from followers_exact [OF sample_graph_wf this] show ?thesis by blast
qed

section \<open>Interning and event order\<close>

text \<open>
  C14: an interned string has one pointer. Whatever other threads interned after a call returned
  \<open>e\<close>, a later call for the same string returns \<open>e\<close>, on the fast path and when it lost the
  race to the slow path.
\<close>

theorem interning_shares:
  assumes "interner_wf it" "intern it s = (e, it1)" "interner_wf it2" "set (interned it1) \<subseteq> set (interned it2)"
  shows "fst (intern it2 s) = e \<and> fst (intern_slow it2 s) = e \<and> arc_str e = s"
  using intern_shares [OF assms] intern_wf [OF assms(1,2)] by simp

lemma interning_shares_witness:
  "fst (intern (snd (intern (snd (intern interner_new ''a'')) ''b'')) ''a'') = fst (intern interner_new ''a'')"
proof -
  let ?i1 = "intern interner_new ''a''" and ?i2 = "intern (snd (intern interner_new ''a'')) ''b''"
  have "interner_wf (snd ?i1)" using intern_wf [of interner_new "''a''" "fst ?i1" "snd ?i1"] by simp
  moreover from this have "interner_wf (snd ?i2)" "set (interned (snd ?i1)) \<subseteq> set (interned (snd ?i2))"
    using intern_wf [of "snd ?i1" "''b''" "fst ?i2" "snd ?i2"] by simp_all
  ultimately show ?thesis
    using interning_shares [of interner_new "''a''" "fst ?i1" "snd ?i1" "snd ?i2"] by simp
qed

text \<open>
  The database and the graph order replaceable events alike: \<open>event_wins\<close> says a new event
  wins exactly if \<open>accepts_event\<close> accepts it.
\<close>

theorem event_orders_agree:
  "event_wins new_ts new_id old_ts old_id = accepts_event old_ts old_id new_ts new_id"
  by (rule event_wins_accepts)

section \<open>Revisions and the query cache\<close>

text \<open>
  C15: the revision counter detects every change. If after any sequence of fewer than
  $2^{64} - 2^{32}$ graph writes the counter has its old value, then names, both adjacency vectors
  and the mute lists are the old ones.
\<close>

theorem revision_detects_changes:
  assumes "graph_wf g" "run_writes ws g = Some g'" "graph_small g'" "\<forall>w \<in> set ws. write_valid w"
    and "length ws < 2 ^ 64 - 2 ^ 32" "revision g' = revision g"
  shows "same_view g g'"
  by (rule revision_sound [OF assms])

lemma revision_detects_changes_witness:
  "\<exists>g'. run_writes [WriteNode ''a'', WriteFollows ''a'' [''c'', ''b''] (Some ''e5'') (Some 5)] sample_graph = Some g' \<and>
    same_view sample_graph g'"
proof -
  let ?ws = "[WriteNode ''a'', WriteFollows ''a'' [''c'', ''b''] (Some ''e5'') (Some 5)]"
  have "map_option revision (run_writes ?ws sample_graph) = Some (revision sample_graph)"
    "map_option graph_small (run_writes ?ws sample_graph) = Some True"
    by code_simp+
  then obtain g' where "run_writes ?ws sample_graph = Some g'" "revision g' = revision sample_graph" "graph_small g'"
    by auto
  then show ?thesis using revision_detects_changes [of sample_graph ?ws g'] by auto
qed

text \<open>
  A result served from the cache is the result \<open>compute_distance\<close> would return at that
  moment, while the graph keeps changing between the reads of \<open>get\<close>; of the concurrent map it is
  only assumed that its entries are sound, which C22 establishes.
\<close>

theorem cache_hits_exact:
  assumes "cache_sound n mget c g1" "later k1 g1 g2" "later k2 g2 g3" "graph_small g3"
    and "n + k1 + k2 < 2 ^ 64 - 2 ^ 32" "cache_get mget c key g1 g2 g3 = Some r"
    and "pubkey_to_id g3 a = Some (key_from key)" "pubkey_to_id g3 b = Some (key_to key)"
  shows "map_option fst (compute_distance g3 scratch (key_query a b key)) = Some r"
  by (rule cache_get_exact [OF assms])

text \<open>
  C16: inserting a finished computation keeps the entries of a lossy map sound, whatever was
  written to the graph while the search ran: a result of an older topology is dropped.
\<close>

theorem cache_insertions_sound:
  assumes "lossy mget mput" "cache_sound n mget c g3" "graph_wf g0"
    and "later k0 g0 g1" "later k1 g1 g2" "later k2 g2 g3" "graph_small g3"
    and "k0 + k1 < 2 ^ 64 - 2 ^ 32" "k0 + k1 + k2 \<le> n"
    and "compute_distance g1 s (key_query a b key) = Some (r, st)"
    and "pubkey_to_id g3 a = Some (key_from key)" "pubkey_to_id g3 b = Some (key_to key)"
    and "pubkey_to_id g0 a \<noteq> None" "pubkey_to_id g0 b \<noteq> None"
  shows "cache_sound n mget (cache_insert mput c key r g2 g3 (revision g0)) g3"
  by (rule cache_insert_sound [OF assms])

definition sample_cache :: "cache_key \<Rightarrow> cached_distance option" where
  "sample_cache = (\<lambda>_. None)"

definition sample_key :: cache_key where
  "sample_key = cache_key_new 0 3 3 True"

lemma sample_lossy: "lossy (\<lambda>c. c) (\<lambda>c k v. c(k \<mapsto> v))"
  by (auto simp: lossy_def)

lemma sample_key_query: "key_query ''a'' ''d'' sample_key = sample_query"
  by (simp add: key_query_def sample_key_def cache_key_new_def sample_query_def)

lemma sample_ids: "pubkey_to_id sample_graph ''a'' = Some (key_from sample_key)"
    "pubkey_to_id sample_graph ''d'' = Some (key_to sample_key)"
  by code_simp+

lemma cache_insertions_sound_witness:
  "\<exists>r st. compute_distance sample_graph bfs_state_new sample_query = Some (r, st) \<and>
    cache_sound 0 (\<lambda>c. c)
      (cache_insert (\<lambda>c k v. c(k \<mapsto> v)) sample_cache sample_key r sample_graph sample_graph (revision sample_graph))
      sample_graph"
proof -
  obtain r st where r: "compute_distance sample_graph bfs_state_new (key_query ''a'' ''d'' sample_key) = Some (r, st)"
    using sample_distance unfolding sample_key_query by blast
  have "cache_sound 0 (\<lambda>c. c) sample_cache sample_graph" by (simp add: cache_sound_def sample_cache_def)
  from cache_insertions_sound [OF sample_lossy this sample_graph_wf, of 0 _ 0 _ 0, OF _ _ _ _ _ _ r] show ?thesis
    using r sample_ids by (simp add: sample_key_query graph_small_def)
qed

lemma cache_hits_exact_witness:
  "\<exists>r. cache_get (\<lambda>c. c) [sample_key \<mapsto> \<lparr>cd_revision = revision sample_graph, cd_hops = Some 2, cd_path_count = 1,
        cd_mutual = False, cd_bridge_ids = Some [1]\<rparr>] sample_key sample_graph sample_graph sample_graph = Some r \<and>
    map_option fst (compute_distance sample_graph bfs_state_new sample_query) = Some r"
proof -
  let ?cd = "\<lparr>cd_revision = revision sample_graph, cd_hops = Some 2, cd_path_count = 1,
        cd_mutual = False, cd_bridge_ids = Some [1]\<rparr>"
  obtain r st where r: "compute_distance sample_graph bfs_state_new (key_query ''a'' ''d'' sample_key) = Some (r, st)"
    using sample_distance unfolding sample_key_query by blast
  have "map_option (\<lambda>(r, _). from_result r sample_graph (revision sample_graph))
      (compute_distance sample_graph bfs_state_new sample_query) = Some ?cd" by code_simp
  then have "?cd = from_result r sample_graph (revision sample_graph)" using r by (simp add: sample_key_query)
  then have "entry_sound 0 sample_graph sample_key ?cd"
    unfolding entry_sound_def using later_refl sample_graph_wf sample_ids r by blast
  then have sound: "cache_sound 0 (\<lambda>c. c) [sample_key \<mapsto> ?cd] sample_graph" by (simp add: cache_sound_def)
  have "cache_get (\<lambda>c. c) [sample_key \<mapsto> ?cd] sample_key sample_graph sample_graph sample_graph \<noteq> None"
    by code_simp
  then obtain r' where r': "cache_get (\<lambda>c. c) [sample_key \<mapsto> ?cd] sample_key sample_graph sample_graph sample_graph = Some r'"
    by blast
  have "map_option fst (compute_distance sample_graph bfs_state_new (key_query ''a'' ''d'' sample_key)) = Some r'"
    by (rule cache_hits_exact [OF sound later_refl [of 0] later_refl [of 0] _ _ r' sample_ids])
      (simp_all add: graph_small_def)
  then show ?thesis using r' by (simp add: sample_key_query)
qed

section \<open>Contention counters and configuration\<close>

text \<open>
  C17: after a reset, the contention snapshot holds the number, the whole-microsecond average and
  the maximum of the times the guards were held, writers and readers apart, as long as the totals
  fit in 64 bits.
\<close>

theorem lock_snapshot_exact:
  fixes hs :: "held list"
  assumes "length hs < 2 ^ 64" "sum_list (durations True hs) < 2 ^ 64" "sum_list (durations False hs) < 2 ^ 64"
  shows "let s = metrics_snapshot (record_held hs (metrics_reset m)); ws = durations True hs; rs = durations False hs in
    unat (snap_write_count s) = length ws \<and> unat (snap_read_count s) = length rs \<and>
    unat (snap_write_avg_us s) = sum_list ws div length ws div 1000 \<and>
    unat (snap_read_avg_us s) = sum_list rs div length rs div 1000 \<and>
    unat (snap_write_max_us s) = max_of ws div 1000 \<and> unat (snap_read_max_us s) = max_of rs div 1000"
proof -
  have "length (durations w hs) < 2 ^ 64" for w
    using assms(1) le_less_trans [OF length_filter_le] by (simp add: durations_def)
  moreover have "max_of (durations True hs) < 2 ^ 64" "max_of (durations False hs) < 2 ^ 64"
    using assms(2,3) max_of_le_sum by (meson le_less_trans)+
  ultimately show ?thesis
    using assms(2,3)
    by (simp add: Let_def metrics_reset_new record_held_counters metrics_snapshot_def avg_us_exact unat_div
        unat_of_nat take_bit_nat_eq_self)
qed

lemma lock_snapshot_exact_witness:
  "unat (snap_write_avg_us (metrics_snapshot (record_held [(True, 100, 5100), (False, 7, 9), (True, 6000, 7000)]
     (metrics_reset lock_metrics_new)))) = 3"
  using lock_snapshot_exact [of "[(True, 100, 5100), (False, 7, 9), (True, 6000, 7000)]" lock_metrics_new]
  by (simp add: durations_def Let_def flip: numeral_2_eq_2)

text \<open>
  C18: whatever the environment says, the configured hop limit, rate limit, cache size and cache
  life are within their documented bounds, and every relay is a trimmed non-empty string without
  a comma.
\<close>

theorem config_bounds:
  "let c = from_env env in
    1 \<le> max_hops c \<and> max_hops c \<le> 5 \<and> 1 \<le> rate_limit_per_minute c \<and> rate_limit_per_minute c \<le> 1000 \<and>
    100 \<le> cache_size c \<and> cache_size c \<le> 100000 \<and> 10 \<le> cache_ttl_secs c \<and> cache_ttl_secs c \<le> 3600 \<and>
    (\<forall>r \<in> set (relays c). r \<noteq> [] \<and> trim r = r \<and> CHR '','' \<notin> set r)"
proof -
  have "r \<noteq> [] \<and> trim r = r \<and> CHR '','' \<notin> set r" if "r \<in> set (relays (from_env env))" for r
    using that trim_sub no_separator by (fastforce simp: from_env_def trim_idem)
  moreover have "1 \<le> max_hops (from_env env) \<and> max_hops (from_env env) \<le> 5"
    unfolding from_env_def config.simps max_hops_limit_def max_hops_default_def by (rule bounded_setting_bounds) auto
  moreover have "1 \<le> rate_limit_per_minute (from_env env) \<and> rate_limit_per_minute (from_env env) \<le> 1000"
    unfolding from_env_def config.simps rate_limit_max_def rate_limit_default_def by (rule bounded_setting_bounds) auto
  moreover have "100 \<le> cache_size (from_env env) \<and> cache_size (from_env env) \<le> 100000"
    unfolding from_env_def config.simps cache_size_max_def cache_size_default_def by (rule bounded_setting_bounds) auto
  moreover have "10 \<le> cache_ttl_secs (from_env env) \<and> cache_ttl_secs (from_env env) \<le> 3600"
    unfolding from_env_def config.simps by (rule bounded_setting_bounds) auto
  ultimately show ?thesis by (simp add: Let_def)
qed

lemma config_bounds_witness:
  "max_hops (from_env [''MAX_HOPS'' \<mapsto> ''77'']) \<le> 5 \<and> relays (from_env [''RELAYS'' \<mapsto> '' x ,, y'']) = [''x'', ''y'']"
proof -
  have "relays (from_env [''RELAYS'' \<mapsto> '' x ,, y'']) = [''x'', ''y'']" by code_simp
  then show ?thesis using config_bounds [of "[''MAX_HOPS'' \<mapsto> ''77'']"] by (simp add: Let_def)
qed

text \<open>
  C19: a number within its bounds that is written in decimal into the environment is the number
  the configuration holds.
\<close>

theorem config_roundtrip:
  assumes "env ''MAX_HOPS'' = Some (decimal (unat h))" "1 \<le> h" "h \<le> 5"
    and "env ''CACHE_SIZE'' = Some (decimal (unat n))" "100 \<le> n" "n \<le> 100000"
    and "env ''CACHE_TTL_SECS'' = Some (decimal (unat t))" "10 \<le> t" "t \<le> 3600"
    and "env ''RATE_LIMIT_PER_MINUTE'' = Some (decimal (unat l))" "1 \<le> l" "l \<le> 1000"
    and "env ''HTTP_PORT'' = Some (decimal (unat p))"
  shows "let c = from_env env in
    max_hops c = h \<and> cache_size c = n \<and> cache_ttl_secs c = t \<and> rate_limit_per_minute c = l \<and> http_port c = p"
  using assms
  by (simp add: Let_def from_env_def bounded_setting_keeps max_hops_limit_def cache_size_max_def
      rate_limit_max_def parse_word_decimal)

lemma config_roundtrip_witness:
  "max_hops (from_env [''MAX_HOPS'' \<mapsto> decimal 4, ''CACHE_SIZE'' \<mapsto> decimal 500, ''CACHE_TTL_SECS'' \<mapsto> decimal 60,
     ''RATE_LIMIT_PER_MINUTE'' \<mapsto> decimal 7, ''HTTP_PORT'' \<mapsto> decimal 9000]) = 4"
  using config_roundtrip [of "[''MAX_HOPS'' \<mapsto> decimal 4, ''CACHE_SIZE'' \<mapsto> decimal 500, ''CACHE_TTL_SECS'' \<mapsto> decimal 60,
     ''RATE_LIMIT_PER_MINUTE'' \<mapsto> decimal 7, ''HTTP_PORT'' \<mapsto> decimal 9000]" 4 500 60 7 9000]
  by (simp add: Let_def)

section \<open>The database\<close>

text \<open>
  C20: a committed batch stores what its updates would store one after another: every author ends
  up with the newest of the stored list and the list's updates in the batch, whichever order the
  hash tables are walked in; the tables stay well-formed and the other kind of list is untouched.
\<close>

theorem batch_is_sequential:
  assumes "db_wf db" "env_ok env" "update_lists_batch env now us mute db = (Ok n, d)"
  shows "db_wf d \<and> stored mute d = fold (put_update set) us (stored mute db) \<and> stored (\<not> mute) d = stored (\<not> mute) db"
  using update_lists_batch_ok [OF assms(1,2), where now = now and us = us and mute = mute] assms(3) by (simp add: wrote_def)

definition sample_updates :: "follow_update_batch list" where
  "sample_updates =
     [\<lparr>fu_pubkey = ''a'', fu_follows = [''b'', ''c''], fu_event_id = Some ''e1'', fu_created_at = Some 1\<rparr>,
      \<lparr>fu_pubkey = ''b'', fu_follows = [''a''], fu_event_id = Some ''e2'', fu_created_at = Some 2\<rparr>,
      \<lparr>fu_pubkey = ''a'', fu_follows = [''c'', ''d''], fu_event_id = Some ''e3'', fu_created_at = Some 3\<rparr>]"

definition sample_db :: database where
  "sample_db = snd (update_lists_batch plain_env 7 sample_updates False database_new)"

lemma sample_db_ok: "update_lists_batch plain_env 7 sample_updates False database_new = (Ok 2, sample_db)"
  by code_simp

lemma database_new_wf [simp]: "db_wf database_new"
  by (simp add: db_wf_def database_new_def)

lemma sample_db_wf [simp]: "db_wf sample_db"
  by code_simp

lemma batch_is_sequential_witness:
  "db_wf sample_db \<and> stored False sample_db = fold (put_update set) sample_updates (stored False database_new)"
  using batch_is_sequential [OF database_new_wf plain_env_ok(1) sample_db_ok] by simp

text \<open>
  C21: a batch is all or nothing. It fails only where a statement failed, and then the tables are
  the old ones; otherwise it reports the number of authors whose winning update beat the stored
  list.
\<close>

theorem batch_all_or_nothing:
  assumes "db_wf db" "env_ok env"
  shows "case update_lists_batch env now us mute db of
    (Err e, d) \<Rightarrow> d = db \<and> (\<exists>i. fails env i)
  | (Ok n, d) \<Rightarrow> n = length (filter (accepted_by (stored mute db)) (map snd (winners_of us)))"
  using update_lists_batch_ok [OF assms, where now = now and us = us and mute = mute] by (auto simp: faulty_def split: prod.splits result.splits)

lemma batch_all_or_nothing_witness:
  "snd (update_lists_batch (plain_env\<lparr>fails := (\<lambda>i. i = 11)\<rparr>) 7 sample_updates True sample_db) = sample_db"
proof -
  let ?env = "plain_env\<lparr>fails := (\<lambda>i. i = 11)\<rparr>"
  have "env_ok ?env" using plain_env_ok(1) by (simp add: env_ok_def)
  moreover have "\<not> is_ok (fst (update_lists_batch ?env 7 sample_updates True sample_db))" by code_simp
  ultimately show ?thesis
    using batch_all_or_nothing [OF sample_db_wf, where env = ?env and now = 7 and us = sample_updates and mute = True]
    by (auto split: prod.splits result.splits)
qed

text \<open>
  C22: a restart loses nothing. Loading well-formed tables into a fresh graph succeeds and the
  graph's lists and provenance are exactly those of the tables; an unknown mute list stays
  unknown.
\<close>

theorem restart_reproduces:
  assumes "db_wf db" "\<not> faulty env" "length (nodes db) < 2 ^ 32"
  shows "\<exists>g. load_graph env db graph_new = Some (Ok (), g) \<and> graph_wf g \<and>
    follow_cell g = stored False db \<and> mute_cell g = db_mute_cell db"
proof -
  have "node_count graph_new = 0" by (simp add: graph_new_def)
  then obtain r g where "load_graph env db graph_new = Some (r, g)"
    "case r of Err _ \<Rightarrow> faulty env \<and> g = graph_new
     | Ok _ \<Rightarrow> graph_wf g \<and> node_count g \<le> node_count graph_new + length (nodes db) \<and>
         follow_cell g = merged_follows db graph_new \<and> mute_cell g = merged_mutes db graph_new"
    using load_graph_ok [OF assms(1), of graph_new env] assms(3) by auto
  then show ?thesis using assms(2) by (cases r) (auto simp: merged_fresh)
qed

lemma restart_reproduces_witness:
  "\<exists>g. load_graph plain_env sample_db graph_new = Some (Ok (), g) \<and> follow_cell g = stored False sample_db"
proof -
  have "length (nodes sample_db) < 2 ^ 32" by code_simp
  then show ?thesis using restart_reproduces [OF sample_db_wf plain_env_ok(2)] by blast
qed

text \<open>
  C23: loading into a live graph does not panic and keeps, list by list, the newer of the live and
  the stored one; where a statement fails the graph is as before.
\<close>

theorem startup_keeps_newer:
  assumes "db_wf db" "graph_wf g" "node_count g + length (nodes db) < 2 ^ 32"
  shows "\<exists>r g'. load_graph env db g = Some (r, g') \<and>
    (case r of
       Err _ \<Rightarrow> (\<exists>i. fails env i) \<and> g' = g
     | Ok _ \<Rightarrow> graph_wf g' \<and> follow_cell g' = merged_follows db g \<and> mute_cell g' = merged_mutes db g)"
  using load_graph_ok [OF assms, of env] by (auto simp: faulty_def split: result.splits)

lemma startup_keeps_newer_witness:
  "\<exists>g'. load_graph plain_env sample_db sample_graph = Some (Ok (), g') \<and>
    follow_cell g' = merged_follows sample_db sample_graph"
proof -
  have "node_count sample_graph + length (nodes sample_db) < 2 ^ 32" by code_simp
  then obtain r g' where "load_graph plain_env sample_db sample_graph = Some (r, g')"
    "case r of Err _ \<Rightarrow> (\<exists>i. fails plain_env i) \<and> g' = sample_graph
     | Ok _ \<Rightarrow> graph_wf g' \<and> follow_cell g' = merged_follows sample_db sample_graph \<and>
         mute_cell g' = merged_mutes sample_db sample_graph"
    using startup_keeps_newer [OF sample_db_wf sample_graph_wf, of plain_env] by blast
  then show ?thesis by (auto simp: plain_env_def split: result.splits)
qed

text \<open>
  C24: corrupt tables are refused. An edge or a mute list that names a missing node, or a mute
  edge without its mute list, makes the load an error that leaves the graph alone.
\<close>

theorem corrupt_tables_refused:
  assumes "dangling db"
  shows "\<exists>e. load_graph env db g = Some (Err e, g)"
  by (rule load_graph_dangling [OF assms])

lemma corrupt_tables_refused_witness:
  "\<exists>e. load_graph plain_env (sample_db\<lparr>edges := [(1, 99)]\<rparr>) sample_graph = Some (Err e, sample_graph)"
proof -
  have "dangling (sample_db\<lparr>edges := [(1, 99)]\<rparr>)" by code_simp
  then show ?thesis by (rule corrupt_tables_refused)
qed

text \<open>
  The synchronisation state of a relay that was stored is the one that is read back, and
  storing it changes no other relay's.
\<close>

theorem sync_state_reads_back:
  assumes "\<not> faulty env" "\<not> faulty env'"
  shows "get_sync_state env' url' (snd (set_sync_state env now url ts db)) =
    (if url' = url then Ok (Some \<lparr>relay_url = url, last_event_time = ts, last_sync_at = Some now\<rparr>)
     else get_sync_state env' url' db)"
  by (rule sync_state_roundtrip [OF assms])

lemma sync_state_reads_back_witness:
  "get_sync_state plain_env ''r'' (snd (set_sync_state plain_env 5 ''r'' (Some 4) database_new)) =
    Ok (Some \<lparr>relay_url = ''r'', last_event_time = Some 4, last_sync_at = Some 5\<rparr>)"
  using sync_state_reads_back [OF plain_env_ok(2) plain_env_ok(2), of "''r''" 5 "''r''" "Some 4" database_new] by simp

section \<open>Ingestion\<close>

definition list_lru :: "(seen_key \<times> seen_event) list lru_ops" where
  "list_lru = \<lparr>lru_new = [], lru_get = (\<lambda>c k. (map_of c k, c)), lru_put = (\<lambda>c k e. (k, e) # c), lru_clear = (\<lambda>c. [])\<rparr>"

lemma list_lru_ok [simp]: "lru_ok list_lru"
  by (simp add: lru_ok_def list_lru_def)

definition plain_attempt :: attempt where
  "plain_attempt = \<lparr>task_lost = False, env_follows = plain_env, env_mutes = plain_env, attempt_now = 50\<rparr>"

lemma plain_attempt_ok [simp]: "attempt_ok plain_attempt" "\<not> attempt_faulty plain_attempt" "\<not> task_lost plain_attempt"
  by (simp_all add: attempt_ok_def attempt_faulty_def plain_attempt_def)

lemma plain_recovers [simp]: "recovers (\<lambda>_. plain_attempt)"
  unfolding recovers_def by (intro exI [of _ "0::nat"]) simp

definition key_a :: string where "key_a = replicate 64 CHR ''a''"
definition key_b :: string where "key_b = replicate 64 CHR ''b''"

definition sample_event :: "nat \<Rightarrow> string \<Rightarrow> u64 \<Rightarrow> nostr_event" where
  "sample_event kind eid t =
     \<lparr>ev_kind = kind, ev_pubkey = key_a, ev_id = eid, ev_created_at = t,
      ev_tags = [[''p'', key_b], [''e'', key_a], [''p'', ''xyz'']]\<rparr>"

definition sample_inputs :: "loop_input list" where
  "sample_inputs =
     [EventReceived (sample_event 3 ''e2'' 20) 50 (\<lambda>_. plain_attempt),
      EventReceived (sample_event 3 ''e1'' 10) 50 (\<lambda>_. plain_attempt),
      EventReceived (sample_event 10000 ''e3'' 30) 50 (\<lambda>_. plain_attempt),
      ShutdownChanged False True]"

definition sample_stores :: stores where
  "sample_stores = \<lparr>st_db = database_new, st_graph = graph_new, st_status = sync_status_new\<rparr>"

definition sample_run :: "((unit, ingest_error) result \<times> stores) option" where
  "sample_run = start_ingestion list_lru [''r''] True sample_inputs (\<lambda>_. plain_attempt) True sample_stores"

lemma sample_run_ok:
  "map_option (\<lambda>(r, s). (is_ok r, graph_small (st_graph s))) sample_run = Some (True, True)"
  by code_simp

lemma sample_stores_ok [simp]: "in_sync (st_db sample_stores) (st_graph sample_stores)"
proof -
  have "db_lists database_new = graph_lists graph_new"
    by (simp add: db_lists_def graph_lists_def fun_eq_iff stored_def db_mute_cell_def db_meta_def db_targets_def db_known_def
        db_id_def find_node_def database_new_def follow_cell_def mute_cell_def graph_new_def)
  then show ?thesis by (simp add: in_sync_def sample_stores_def)
qed

lemma sample_inputs_ok [simp]: "\<forall>i \<in> set sample_inputs. input_sane i \<and> benign i" "\<exists>i \<in> set sample_inputs. stops i"
  by (auto simp: sample_inputs_def input_sane_def benign_def stops_def)

text \<open>
  C25: whatever the ingestion returns, it is no longer marked as running. If it ends well, the
  database and the graph hold the same lists, those of all updates received before the shutdown
  applied one after another to the lists at the start, whatever the batches, the failed and repeated
  attempts and the events the cache of seen versions dropped. If it fails, it is marked as failed, both
  hold the same mute lists, and the database is never behind the graph: each of its follow lists
  is the graph's or a newer one.
\<close>

theorem ingestion_complete:
  assumes "lru_ok ops" "in_sync (st_db s) (st_graph s)"
    and "\<forall>i \<in> set inputs. input_sane i" "\<forall>n. attempt_ok (att n)"
    and "start_ingestion ops urls connected inputs att disconnected s = Some (r, s')" "graph_small (st_graph s')"
  shows "\<not> running (st_status s') \<and>
    (if is_ok r
     then in_sync (st_db s') (st_graph s') \<and>
       graph_lists (st_graph s') = fold apply_update (received_updates inputs) (graph_lists (st_graph s))
     else failed (st_status s') \<and> db_mute_cell (st_db s') = mute_cell (st_graph s') \<and>
       (\<forall>a. stored False (st_db s') a = follow_cell (st_graph s') a \<or>
         accepts (fst (follow_cell (st_graph s') a)) (db_meta False (st_db s') a)))"
proof -
  obtain s1 where s1: "run_ingestion ops urls connected inputs att disconnected s = Some (r, s1)"
    "st_db s' = st_db s1" "st_graph s' = st_graph s1" "\<not> running (st_status s')" "\<not> is_ok r \<longrightarrow> failed (st_status s')"
    using start_ingestion_run [OF assms(5)] .
  have small: "graph_small (st_graph s1)" using assms(6) s1(3) by simp
  note run = run_ingestion_ok [OF assms(1-4) s1(1) small]
  then obtain us where "in_step us (st_db s') (st_graph s')" using s1(2,3) by auto
  then show ?thesis using run s1 in_step_newer by simp
qed

lemma ingestion_complete_witness:
  "\<exists>s'. sample_run = Some (Ok (), s') \<and> in_sync (st_db s') (st_graph s') \<and>
    graph_lists (st_graph s') = fold apply_update (received_updates sample_inputs) (graph_lists graph_new)"
proof -
  obtain r s' where run: "sample_run = Some (r, s')" "is_ok r" "graph_small (st_graph s')"
    using sample_run_ok by auto
  have "is_ok r \<longrightarrow> in_sync (st_db s') (st_graph s') \<and>
    graph_lists (st_graph s') = fold apply_update (received_updates sample_inputs) (graph_lists (st_graph sample_stores))"
    using ingestion_complete [OF list_lru_ok sample_stores_ok, of sample_inputs "\<lambda>_. plain_attempt" "[''r'']" True True r s']
      run by (simp add: sample_run_def)
  then show ?thesis using run by (cases r) (auto simp: sample_stores_def)
qed

text \<open>
  Only an attempt that commits both halves is counted: if the mutes of a batch fail after its
  follows were committed, the retry counts the mutes alone, so \<open>persisted_events\<close> lags behind.
\<close>

lemma half_committed_uncounted:
  "let att = (\<lambda>n. if n = 0 then plain_attempt\<lparr>env_mutes := plain_env\<lparr>fails := \<lambda>_. True\<rparr>\<rparr> else plain_attempt);
       us = [\<lparr>lu_kind = 3, lu_pubkey = key_a, lu_follows = [key_b], lu_event_id = ''e1'', lu_created_at = 1\<rparr>,
             \<lparr>lu_kind = mute_kind, lu_pubkey = key_a, lu_follows = [key_b], lu_event_id = ''e2'', lu_created_at = 1\<rparr>]
   in case flush att us sample_stores of (r, _, s) \<Rightarrow>
     is_ok r \<and> persisted_events (st_status s) = 1 \<and> length (edges (st_db s)) = 1 \<and> length (mute_edges (st_db s)) = 1"
  by code_simp

text \<open>
  C26: a request to shut down is answered and drains. If each flush meets a fault-free attempt
  among its three and the relays can be reached, the ingestion returns, without an error, and
  every update received before the request is in the database and in the graph.
\<close>

theorem shutdown_drains:
  assumes "lru_ok ops" "in_sync (st_db s) (st_graph s)" "urls \<noteq> []"
    and "\<forall>i \<in> set inputs. input_sane i \<and> benign i" "\<exists>i \<in> set inputs. stops i"
    and "\<forall>n. attempt_ok (att n)" "recovers att"
  shows "\<exists>r s'. start_ingestion ops urls True inputs att True s = Some (r, s') \<and>
    (graph_small (st_graph s') \<longrightarrow> r = Ok () \<and> db_lists (st_db s') = graph_lists (st_graph s') \<and>
      graph_lists (st_graph s') = fold apply_update (received_updates inputs) (graph_lists (st_graph s)))"
proof -
  obtain r s' where run: "start_ingestion ops urls True inputs att True s = Some (r, s')"
    using start_returns [OF assms(5)] by blast
  obtain s1 where s1: "run_ingestion ops urls True inputs att True s = Some (r, s1)"
    "st_db s' = st_db s1" "st_graph s' = st_graph s1"
    using start_ingestion_run [OF run] .
  have sane: "\<forall>i \<in> set inputs. input_sane i" using assms(4) by blast
  have "is_ok r \<and> in_sync (st_db s1) (st_graph s1) \<and>
      graph_lists (st_graph s1) = fold apply_update (received_updates inputs) (graph_lists (st_graph s))"
    if "graph_small (st_graph s1)"
    using run_ingestion_recovers [OF assms(1,2,4,6,7,3) _ _ s1(1) that]
      run_ingestion_ok [OF assms(1,2) sane assms(6) s1(1) that] by simp
  then show ?thesis
    using run s1 by (cases r) (auto simp: in_sync_def)
qed

lemma shutdown_drains_witness:
  "\<exists>s'. sample_run = Some (Ok (), s') \<and> db_lists (st_db s') = graph_lists (st_graph s')"
proof -
  obtain r s' where run: "sample_run = Some (r, s')"
    "graph_small (st_graph s') \<longrightarrow> r = Ok () \<and> db_lists (st_db s') = graph_lists (st_graph s')"
    using shutdown_drains [OF list_lru_ok sample_stores_ok _ sample_inputs_ok, of "[''r'']" "\<lambda>_. plain_attempt"]
    by (auto simp: sample_run_def)
  moreover have "graph_small (st_graph s')" using sample_run_ok unfolding run by simp
  ultimately show ?thesis using run by blast
qed

text \<open>
  C27: the order, the repetition and the batching of deliveries do not matter. Two ingestions that
  start from the same lists, receive the same updates in any order and multiplicity, through any
  caches and faults, and end well leave the same lists in their databases and in their graphs.
  An event id stands for one event, so one key and id carry one list.
\<close>

theorem deliveries_converge:
  assumes "lru_ok ops" "in_sync (st_db s) (st_graph s)" "\<forall>i \<in> set inputs. input_sane i" "\<forall>n. attempt_ok (att n)"
    and "start_ingestion ops urls connected inputs att disconnected s = Some (Ok (), s')" "graph_small (st_graph s')"
    and "lru_ok ops2" "in_sync (st_db t) (st_graph t)" "\<forall>i \<in> set inputs2. input_sane i" "\<forall>n. attempt_ok (att2 n)"
    and "start_ingestion ops2 urls2 connected2 inputs2 att2 disconnected2 t = Some (Ok (), t')" "graph_small (st_graph t')"
    and "graph_lists (st_graph s) = graph_lists (st_graph t)" "set (received_updates inputs) = set (received_updates inputs2)"
    and "one_list_per_event (set (received_updates inputs))"
  shows "graph_lists (st_graph s') = graph_lists (st_graph t') \<and> db_lists (st_db s') = db_lists (st_db t')"
proof -
  have end_lists: "in_sync (st_db z') (st_graph z') \<and>
      graph_lists (st_graph z') = fold apply_update (received_updates is) (graph_lists (st_graph z))"
    if run: "lru_ok o1" "in_sync (st_db z) (st_graph z)" "\<forall>i \<in> set is. input_sane i" "\<forall>n. attempt_ok (a1 n)"
      "start_ingestion o1 u1 c1 is a1 d1 z = Some (Ok (), z')" "graph_small (st_graph z')" for o1 :: "'x lru_ops" and u1 c1 "is" a1 d1 z z'
  proof -
    obtain z1 where "run_ingestion o1 u1 c1 is a1 d1 z = Some (Ok (), z1)" "st_db z' = st_db z1" "st_graph z' = st_graph z1"
      using start_ingestion_run [OF run(5)] .
    then show ?thesis using run_ingestion_ok [OF run(1-4)] run(6) by fastforce
  qed
  show ?thesis
    using end_lists [OF assms(1-6)] end_lists [OF assms(7-12)] assms(13)
      updates_order_irrelevant [OF assms(14,15) received_kinds] by (simp add: in_sync_def)
qed

lemma deliveries_converge_witness:
  "\<exists>s' t'. sample_run = Some (Ok (), s') \<and>
    start_ingestion list_lru [''r''] True (rotate 2 (butlast sample_inputs) @ [hd sample_inputs, last sample_inputs])
      (\<lambda>_. plain_attempt) True sample_stores = Some (Ok (), t') \<and>
    graph_lists (st_graph s') = graph_lists (st_graph t')"
proof -
  let ?in2 = "rotate 2 (butlast sample_inputs) @ [hd sample_inputs, last sample_inputs]"
  let ?run2 = "start_ingestion list_lru [''r''] True ?in2 (\<lambda>_. plain_attempt) True sample_stores"
  obtain r s' where run: "sample_run = Some (r, s')" "is_ok r" "graph_small (st_graph s')"
    using sample_run_ok by auto
  have "map_option (\<lambda>(r, s). (is_ok r, graph_small (st_graph s))) ?run2 = Some (True, True)" by code_simp
  then obtain r2 t' where run2: "?run2 = Some (r2, t')" "is_ok r2" "graph_small (st_graph t')" by auto
  have r: "r = Ok ()" "r2 = Ok ()" using run(2) run2(2) by (cases r; cases r2; simp)+
  have in2: "set ?in2 = set sample_inputs" by (simp add: sample_inputs_def) blast
  have sane: "\<forall>i \<in> set sample_inputs. input_sane i" "\<forall>i \<in> set ?in2. input_sane i" unfolding in2 using sample_inputs_ok(1) by blast+
  have upd: "set (received_updates sample_inputs) = set (received_updates ?in2)"
    "one_list_per_event (set (received_updates sample_inputs))"
    by code_simp+
  have "graph_lists (st_graph s') = graph_lists (st_graph t') \<and> db_lists (st_db s') = db_lists (st_db t')"
    by (rule deliveries_converge [OF list_lru_ok sample_stores_ok sane(1) _ _ run(3) list_lru_ok sample_stores_ok sane(2) _ _ run2(3) refl upd])
      (use run run2 r in \<open>simp_all add: sample_run_def\<close>)
  then show ?thesis using run run2 r by blast
qed

text \<open>
  C28: parsing accepts exactly the two list kinds. The list of an update is strictly increasing,
  every entry is a key of 64 lower-case hexadecimal digits, and the entries are exactly the
  well-formed \<open>p\<close> tags of the event; its time is a non-negative 64-bit integer.
\<close>

theorem parsed_lists_wellformed:
  "case process_event e of
     None \<Rightarrow> ev_kind e \<noteq> 3 \<and> ev_kind e \<noteq> mute_kind
   | Some u \<Rightarrow> (ev_kind e = 3 \<or> ev_kind e = mute_kind) \<and> lu_kind u = ev_kind e \<and> lu_pubkey u = ev_pubkey e \<and>
       sorted_wrt (<) (lu_follows u) \<and> list_all hex_key (lu_follows u) \<and>
       set (lu_follows u) = {pk. \<exists>values \<in> set (ev_tags e). p_tag values = Some pk} \<and>
       0 \<le> lu_created_at u \<and> lu_created_at u < 2 ^ 63"
proof (cases "process_event e")
  case None
  then show ?thesis by (simp add: process_event_def split: if_splits)
next
  case (Some u)
  have "0 \<le> i64_of_u64 (ev_created_at e) \<and> i64_of_u64 (ev_created_at e) < 2 ^ 63" by (simp add: i64_of_u64_def)
  then show ?thesis
    using Some process_event_lists [OF Some] process_event_fields [OF Some] by (simp add: lu_meta_def)
qed

section \<open>Requests\<close>

definition key_graph :: wot_graph where
  "key_graph = snd (update_follows graph_new key_a [key_b] (Some ''e1'') (Some 1))"

lemma key_graph_ok [simp]: "graph_wf key_graph" "graph_small key_graph"
proof -
  show small: "graph_small key_graph" by code_simp
  then show "graph_wf key_graph"
    using update_follows_spec [of graph_new key_a "[key_b]" "Some ''e1''" "Some 1", OF _ prod.collapse [symmetric]]
    by (simp add: key_graph_def)
qed

definition map_ops :: "(cache_key \<Rightarrow> cached_distance option) cache_ops" where
  "map_ops = \<lparr>c_get = (\<lambda>c. c), c_put = (\<lambda>c k v. c(k \<mapsto> v))\<rparr>"

definition key_env :: "(cache_key \<Rightarrow> cached_distance option) request_env" where
  "key_env =
     \<lparr>graph_at = (\<lambda>_. key_graph), cache_moves = (\<lambda>_ c. c), free_slots = (\<lambda>_. 4), task_dropped = (\<lambda>_. False),
      scratch_at = (\<lambda>_. bfs_state_new)\<rparr>"

lemma key_env_ok [simp]: "request_ok map_ops (\<lambda>_. key_graph) (\<lambda>_. 0) key_env"
  using sample_lossy by (simp add: request_ok_def timeline_def map_ops_def key_env_def mono_def)

lemma key_cache_ok [simp]: "sound_at map_ops (\<lambda>_. key_graph) n sample_cache"
  by (simp add: sound_at_def cache_sound_def map_ops_def sample_cache_def)

definition key_params :: distance_params where
  "key_params =
     \<lparr>dp_from = key_a, dp_to = key_b, dp_max_hops = 3, dp_include_bridges = True, dp_bypass_cache = False\<rparr>"

text \<open>Upper-case keys pass the validation although no stored key has them, parsed lists being lower-case.\<close>

lemma upper_case_accepted:
  "validate_pubkey (replicate 64 CHR ''A'') = Ok ()" "\<not> hex_key (replicate 64 CHR ''A'')"
  by code_simp+

definition key_luck :: "(cache_key \<Rightarrow> cached_distance option) recorder request_env" where
  "key_luck =
     \<lparr>graph_at = (\<lambda>_. graph_new), cache_moves = (\<lambda>_ c. c), free_slots = (\<lambda>_. 4), task_dropped = (\<lambda>_. False),
      scratch_at = (\<lambda>_. bfs_state_new)\<rparr>"

definition key_look :: batch_request where
  "key_look =
     \<lparr>br_from = key_a, br_targets = [key_b], br_max_hops = 3, br_include_bridges = True, br_bypass_cache = False\<rparr>"

text \<open>A request that begins before the graph knows its keys, and a batch look-up that meets its insertion.\<close>

definition key_acts :: "(cache_key \<Rightarrow> cached_distance option) act list" where
  "key_acts =
     [Begin (HttpDistance key_params) key_luck, Read 0, Write (WriteFollows key_a [key_b] (Some ''e1'') (Some 1)),
      Read 0, Read 0, Look 0] @ replicate 7 (Read 0) @
     [Begin (BatchLookUp key_look key_b) key_luck, Read 1, Read 0, Finish 0, Read 0, Read 0, Look 0, Read 0, Read 0, Finish 0]"

text \<open>
  C29: the cache is right under every interleaving of all its users. From the empty graph and an empty
  cache, let writers change the graph, the map forget entries, and any number of \<open>get_distance\<close> and
  \<open>dvm_distance\<close> requests and look-ups and searches of batches be under way, each reading of the graph,
  look-up in the map and insertion at any time and abandoned at any time. Then every entry of the cache is
  sound, every distance given by any of them is exact for the graph of a moment between the beginning
  and the end of the request, and a request that gives none failed for the cause its status
  says, or was a look-up without a hit.
\<close>

theorem cache_protocol_exact:
  assumes "lossy (c_get ops) (c_put ops)" "\<And>k. c_get ops c k = None"
    and "world_run ops as (world_new c) = Some W" "length (w_past W) \<le> 2 ^ 63"
  shows "cache_sound (length (w_past W) - 1) (c_get ops) (w_cache W) (last (w_past W)) \<and>
    (\<forall>e \<in> set (w_log W).
       case given_distance (rp_job e) (rp_answer e) of
         Some (q, d) \<Rightarrow> \<exists>m. rp_begun e \<le> m \<and> m \<le> rp_ended e \<and> rp_ended e < length (w_past W) \<and> distance_ok (w_past W ! m) q d
       | None \<Rightarrow> excused (rp_busy e) (rp_lost e) (rp_job e) (rp_answer e))"
proof -
  have small: "present (w_past W) < 2 ^ 63" using assms(4) by (simp add: present_def)
  have W: "world_ok ops W" by (rule world_run_ok [OF assms(1) world_new_ok assms(3) small]) (rule assms(2))
  then have "w_past W \<noteq> []" by (simp add: world_ok_def past_ok_def)
  then have "graph_line (w_past W) (present (w_past W)) = last (w_past W)" by (simp add: graph_line_def present_def last_conv_nth)
  then show ?thesis using W by (simp add: world_ok_def sound_at_def present_def exact_reply_def)
qed

lemma cache_protocol_exact_witness:
  "\<exists>W e d m. world_run map_ops key_acts (world_new Map.empty) = Some W \<and> e \<in> set (w_log W) \<and>
    given_distance (rp_job e) (rp_answer e) = Some (batch_query key_look key_b, d) \<and> hops d = Some 1 \<and>
    distance_ok (w_past W ! m) (batch_query key_look key_b) d"
proof -
  have "map_option (\<lambda>W. (length (w_past W), map (\<lambda>e. map_option (\<lambda>(q, d). (q, hops d)) (given_distance (rp_job e) (rp_answer e))) (w_log W)))
      (world_run map_ops key_acts (world_new Map.empty)) =
    Some (2, [Some (query_of_params key_params, Some 1), Some (batch_query key_look key_b, Some 1)])"
    by code_simp
  then obtain W e d where W: "world_run map_ops key_acts (world_new Map.empty) = Some W" "length (w_past W) \<le> 2 ^ 63"
    "e \<in> set (w_log W)" "given_distance (rp_job e) (rp_answer e) = Some (batch_query key_look key_b, d)" "hops d = Some 1"
    by (fastforce simp: map_eq_Cons_conv)
  have "lossy (c_get map_ops) (c_put map_ops)" "\<And>k. c_get map_ops Map.empty k = None"
    using sample_lossy by (simp_all add: map_ops_def)
  from cache_protocol_exact [OF this W(1,2)] obtain m where "distance_ok (w_past W ! m) (batch_query key_look key_b) d"
    using W(3,4) by fastforce
  then show ?thesis using W by blast
qed

text \<open>
  C30: while the graph is written and other tasks use the cache, a distance request gets an answer
  that is exact for the graph of some moment within the request, whether it came from the cache
  or from a search; an error has the status of its cause, a refused parameter (400), no free
  permit (503) or a lost task (500); and the cache is sound afterwards (moment 11; the handler reads
  the graph at the moments 0 to 10).
\<close>

theorem distance_requests_exact:
  assumes "request_ok ops T at env" "sound_at ops T (at 0) c" "get_distance ops env p c = (r, c')"
  shows "sound_at ops T (at 11) c' \<and>
    (case r of
       Ok d \<Rightarrow> pubkey_ok (dp_from p) \<and> pubkey_ok (dp_to p) \<and> hops_ok (dp_max_hops p) \<and>
         (\<exists>i\<le>10. distance_ok (T (at i)) (query_of_params p) d)
     | Err e \<Rightarrow>
         let invalid = (\<not> (pubkey_ok (dp_from p) \<and> pubkey_ok (dp_to p) \<and> hops_ok (dp_max_hops p))) in
         error_status e = 400 \<and> invalid \<or> error_status e = 503 \<and> \<not> invalid \<and> free_slots env 0 = 0 \<or>
         error_status e = 500 \<and> \<not> invalid \<and> task_dropped env 0)"
  using get_distance_ok [OF assms]
  by (simp add: answered_def failure_def Let_def distance_guards_cases(1) cong: result.case_cong)

text \<open>A request during which the first list arrives, between its reading of the revision and its search.\<close>

definition moving_graph :: "nat \<Rightarrow> wot_graph" where
  "moving_graph i = (if i = 0 then graph_new else key_graph)"

definition moving_env :: "(cache_key \<Rightarrow> cached_distance option) request_env" where
  "moving_env = key_env\<lparr>graph_at := \<lambda>i. if i < 6 then graph_new else key_graph\<rparr>"

lemma moving_env_ok [simp]: "request_ok map_ops moving_graph (\<lambda>i. if i < 6 then 0 else 1) moving_env"
proof -
  have "later 1 graph_new key_graph"
    unfolding later_def
    by (intro exI [of _ "[WriteFollows key_a [key_b] (Some ''e1'') (Some 1)]"]) (simp add: key_graph_def)
  then have T: "timeline moving_graph" by (simp add: timeline_def moving_graph_def)
  have "sound_at map_ops moving_graph (if i + 2 < 6 then 0 else 1) c" if "sound_at map_ops moving_graph (if i < 6 then 0 else 1) c" for i :: nat and c
    using sound_at_mono [OF T _ that, of "if i + 2 < 6 then 0 else 1"] by simp
  then show ?thesis
    using sample_lossy T
    by (simp add: request_ok_def moving_graph_def map_ops_def moving_env_def key_env_def mono_def)
qed

lemma distance_requests_exact_witness:
  "\<exists>d c' i. get_distance map_ops moving_env key_params sample_cache = (Ok d, c') \<and> hops d = Some 1 \<and>
    distance_ok (moving_graph i) (query_of_params key_params) d"
proof -
  let ?run = "get_distance map_ops moving_env key_params sample_cache"
  have "(case fst ?run of Ok d \<Rightarrow> hops d | Err e \<Rightarrow> None) = Some 1"
    by code_simp
  then obtain d c' where d: "?run = (Ok d, c')" "hops d = Some 1"
    by (cases ?run) (auto split: result.splits)
  have "sound_at map_ops moving_graph 0 sample_cache"
    by (simp add: sound_at_def cache_sound_def map_ops_def sample_cache_def)
  then show ?thesis using distance_requests_exact [OF moving_env_ok _ d(1)] d by auto
qed

definition key_batch :: batch_request where
  "key_batch =
     \<lparr>br_from = key_a, br_targets = [key_b, key_a, key_b], br_max_hops = 3, br_include_bridges = True, br_bypass_cache = False\<rparr>"

text \<open>
  C31: a batch request never panics on an unresolved target. Its reply has one result for each
  requested target, in the order of the request, each exact for the graph of some moment within
  the request as a request of its own would be, and equal targets have equal results; an error has
  the status of its cause, and the cache is sound afterwards.
\<close>

theorem batch_requests_exact:
  assumes "request_ok ops T at env" "sound_at ops T (at 0) c" "batch_distance ops env req c = (r, c')"
  shows "sound_at ops T (at batch_moments) c' \<and>
    (case r of
       None \<Rightarrow> False
     | Some (Ok resp) \<Rightarrow> batch_valid req \<and> bre_from resp = br_from req \<and>
         list_all2 (\<lambda>t d. \<exists>i\<le>batch_moments. distance_ok (T (at i)) (batch_query req t) d) (br_targets req) (bre_results resp) \<and>
         (\<forall>k<length (br_targets req). \<forall>l<length (br_targets req).
            br_targets req ! k = br_targets req ! l \<longrightarrow> bre_results resp ! k = bre_results resp ! l)
     | Some (Err e) \<Rightarrow> failure (\<not> batch_valid req) (free_slots env 0 = 0) (task_dropped env 0) e)"
proof -
  have each: "list_all2 (\<lambda>t d. \<exists>i\<le>batch_moments. distance_ok (T (at i)) (batch_query req t) d) (br_targets req) (bre_results resp)"
    if ok: "batch_ok T at batch_moments req resp" for resp
  proof -
    have "length (bre_results resp) = length (br_targets req)"
      "\<forall>k<length (br_targets req). \<exists>i\<le>batch_moments. distance_ok (T (at i)) (batch_query req (br_targets req ! k)) (bre_results resp ! k)"
      using ok unfolding batch_ok_def answered_def by blast+
    then show ?thesis by (simp add: list_all2_conv_all_nth)
  qed
  note run = batch_distance_ok [OF assms]
  show ?thesis
  proof (cases r)
    case None
    then show ?thesis using run by simp
  next
    case (Some x)
    show ?thesis
    proof (cases x)
      case (Ok resp)
      have "batch_ok T at batch_moments req resp" "sound_at ops T (at batch_moments) c'" "batch_valid req"
        using run Some Ok by simp_all
      then show ?thesis
        unfolding Some Ok option.case result.case using each batch_ok_def by blast
    next
      case (Err e)
      then show ?thesis using run Some by simp
    qed
  qed
qed

lemma batch_requests_exact_witness:
  "\<exists>resp c'. batch_distance map_ops key_env key_batch sample_cache = (Some (Ok resp), c') \<and>
    map hops (bre_results resp) = [Some 1, Some 0, Some 1] \<and>
    list_all2 (\<lambda>t d. distance_ok key_graph (batch_query key_batch t) d) (br_targets key_batch) (bre_results resp)"
proof -
  let ?run = "batch_distance map_ops key_env key_batch sample_cache"
  have "(case fst ?run of Some (Ok resp) \<Rightarrow> map hops (bre_results resp) | _ \<Rightarrow> []) = [Some 1, Some 0, Some 1]"
    by code_simp
  then obtain resp c' where d: "?run = (Some (Ok resp), c')" "map hops (bre_results resp) = [Some 1, Some 0, Some 1]"
    by (cases ?run) (auto split: option.splits result.splits)
  have "list_all2 (\<lambda>t d. \<exists>i\<le>batch_moments. distance_ok key_graph (batch_query key_batch t) d) (br_targets key_batch) (bre_results resp)"
    using batch_requests_exact [OF key_env_ok key_cache_ok d(1)] by simp
  then show ?thesis using d by (auto simp: list_all2_conv_all_nth)
qed

definition plain_client :: dvm_client where
  "plain_client =
     \<lparr>parse_tag = Some, result_json = (\<lambda>_. Some ''{}''), error_json = (\<lambda>msg. msg), send_ok = True, slots_open = True\<rparr>"

definition key_request :: dvm_request where
  "key_request =
     \<lparr>rq_id = ''id'', rq_pubkey = key_b,
      rq_tags = [[''i'', key_a @ '':'' @ key_b, ''text''], [''param'', ''max_hops'', ''9'']]\<rparr>"

text \<open>
  C32: with a working client, each request to the vending machine is answered by exactly one event
  of kind 6950 that names the request and its author. If the tags name two keys, the content is
  a distance that is exact for some moment within the request, with a result tag (the hops, then the
  word \<open>hops\<close>) exactly if there is a distance; otherwise it is an error with its complaint. The forms of
  \<open>docs/DVM.md\<close> name two keys, with the configured hop limit or the requested one moved into 1 to 5;
  a request whose second key is in a parameter \<open>target\<close>, as \<open>docs/BRD.md\<close> 2.3 has it, names one and
  gets the error. The hop limit is within its bounds whatever the tags say, and the cache is sound
  afterwards.
\<close>

theorem dvm_replies_exact:
  assumes "request_ok ops T at env" "sound_at ops T (at 0) c" "client_ok cl" "\<not> task_dropped env 0"
    and "hops_ok (max_hops cfg)" "handle_request ops env cl cfg request c = ((r, published), c')"
    and "dvm_inputs (max_hops cfg) (rq_tags request) = (inputs, h)"
  shows "r = Ok () \<and> sound_at ops T (at 9) c' \<and> 1 \<le> h \<and> h \<le> 5 \<and>
    (case dvm_pair inputs of
       Some (a, b) \<Rightarrow> \<exists>d content i. i \<le> 8 \<and> distance_ok (T (at i)) (dvm_query a b h) d \<and> result_json cl d = Some content \<and>
         published = Some (reply_to request content
           (case hops d of None \<Rightarrow> [] | Some n \<Rightarrow> [[''result'', decimal n, ''hops'']]))
     | None \<Rightarrow> published =
         Some (reply_to request (error_json cl (dvm_complaint inputs)) [[''status'', ''error'', dvm_complaint inputs]])) \<and>
    (\<forall>a b. pubkey_ok a \<longrightarrow> pubkey_ok b \<longrightarrow>
       (\<forall>form \<in> set (dvm_forms a b).
          (rq_tags request = form \<longrightarrow> dvm_pair inputs = Some (a, b) \<and> h = max_hops cfg) \<and>
          (\<forall>w. rq_tags request = form @ [[''param'', ''max_hops'', decimal (unat w)]] \<longrightarrow>
             dvm_pair inputs = Some (a, b) \<and> h = max 1 (min 5 w))) \<and>
       (\<forall>v. rq_tags request = [[''i'', a, ''text''], [''param'', ''target'', b], [''param'', ''max_hops'', v]] \<longrightarrow>
          dvm_pair inputs = None))"
proof -
  have default_limit: "dvm_pair inputs = Some (a, b) \<and> h = max_hops cfg"
    if "pubkey_ok a" "pubkey_ok b" "form \<in> set (dvm_forms a b)" "rq_tags request = form" for a b form
    using dvm_forms_read(1) [OF that(1-3), of "max_hops cfg"] assms(7) that by (auto simp: dvm_pair_def)
  have own_limit: "dvm_pair inputs = Some (a, b) \<and> h = max 1 (min 5 w)"
    if "pubkey_ok a" "pubkey_ok b" "form \<in> set (dvm_forms a b)"
      "rq_tags request = form @ [[''param'', ''max_hops'', decimal (unat w)]]" for a b form w
    using dvm_forms_read(2) [OF that(1-3), of "max_hops cfg" w] assms(7) that
    by (auto simp: dvm_pair_def)
  have target: "dvm_pair inputs = None"
    if "pubkey_ok a" "rq_tags request = [[''i'', a, ''text''], [''param'', ''target'', b], [''param'', ''max_hops'', v]]" for a b v
    using dvm_target_unread [OF that(1), of "max_hops cfg" b "[[''param'', ''max_hops'', v]]"] assms(7) that(2)
    by (simp add: dvm_pair_def dvm_tag_cases)
  note reply = handle_request_ok [OF assms]
  have served: "r = Ok ()" "sound_at ops T (at 9) c'" "1 \<le> h" "h \<le> 5"
    using reply by (simp_all add: hops_ok_def max_hops_limit_def)
  have answer: "case dvm_pair inputs of
       Some (a, b) \<Rightarrow> \<exists>d content i. i \<le> 8 \<and> distance_ok (T (at i)) (dvm_query a b h) d \<and> result_json cl d = Some content \<and>
         published = Some (reply_to request content
           (case hops d of None \<Rightarrow> [] | Some n \<Rightarrow> [[''result'', decimal n, ''hops'']]))
     | None \<Rightarrow> published =
         Some (reply_to request (error_json cl (dvm_complaint inputs)) [[''status'', ''error'', dvm_complaint inputs]])"
    using reply by (cases "dvm_pair inputs") (auto simp: answered_def)
  show ?thesis
    by (intro conjI served answer allI impI ballI default_limit [THEN conjunct1] default_limit [THEN conjunct2]
        own_limit [THEN conjunct1] own_limit [THEN conjunct2] target)
qed

lemma dvm_replies_exact_witness:
  "\<exists>d c'. handle_request map_ops key_env plain_client (from_env (\<lambda>_. None)) key_request sample_cache =
      ((Ok (), Some (reply_to key_request ''{}'' (case hops d of None \<Rightarrow> [] | Some n \<Rightarrow> [[''result'', decimal n, ''hops'']]))), c') \<and>
    distance_ok key_graph (dvm_query key_a key_b 5) d"
proof -
  obtain r published c' where run: "handle_request map_ops key_env plain_client (from_env (\<lambda>_. None)) key_request sample_cache =
      ((r, published), c')" by (metis prod.exhaust)
  have "client_ok plain_client" "\<not> task_dropped key_env 0" by (simp_all add: client_ok_def plain_client_def key_env_def)
  moreover have "hops_ok (max_hops (from_env (\<lambda>_. None)))" by code_simp
  moreover have inputs: "dvm_inputs (max_hops (from_env (\<lambda>_. None))) (rq_tags key_request) = ([key_a, key_b], 5)" by code_simp
  moreover have "dvm_pair [key_a, key_b] = Some (key_a, key_b)" by code_simp
  ultimately have "r = Ok ()" "\<exists>d. distance_ok key_graph (dvm_query key_a key_b 5) d \<and>
      published = Some (reply_to key_request ''{}'' (case hops d of None \<Rightarrow> [] | Some n \<Rightarrow> [[''result'', decimal n, ''hops'']]))"
    using dvm_replies_exact [OF key_env_ok key_cache_ok _ _ _ run inputs] by (auto simp: plain_client_def)
  then obtain d where "r = Ok ()" "distance_ok key_graph (dvm_query key_a key_b 5) d"
    "published = Some (reply_to key_request ''{}'' (case hops d of None \<Rightarrow> [] | Some n \<Rightarrow> [[''result'', decimal n, ''hops'']]))"
    by blast
  then show ?thesis using run by (intro exI [of _ d] exI [of _ c']) simp
qed

text \<open>
  C33: the list and path requests read one moment of the graph. Pages of follows and mutes do not
  panic, are slices of one list of at most 5000 entries with its length as total, and an unknown
  mute list is told from an empty one; common follows are the intersection; a path is a shortest
  one within the hop limit. A request is answered only if its parameters are valid and, where it
  computes, a permit was free and its task not lost; otherwise the error has the status of its cause.
\<close>

theorem read_requests_exact:
  assumes "graph_wf (graph_at env 0)"
  shows "(case handle_follows env p of
      None \<Rightarrow> False
    | Some (Err e) \<Rightarrow> error_status e = 400 \<and> \<not> pubkey_ok (fp_pubkey p)
    | Some (Ok r) \<Rightarrow> pubkey_ok (fp_pubkey p) \<and> fr_pubkey r = fp_pubkey p \<and>
        page_ok (snd (follow_cell (graph_at env 0) (fp_pubkey p))) (fp_offset p) (fp_limit p) (fr_follows r) (fr_total r)) \<and>
    (case handle_mutes env p of
      None \<Rightarrow> False
    | Some (Err e) \<Rightarrow> error_status e = 400 \<and> \<not> pubkey_ok (fp_pubkey p)
    | Some (Ok r) \<Rightarrow> pubkey_ok (fp_pubkey p) \<and> mr_pubkey r = fp_pubkey p \<and>
        (case snd (mute_cell (graph_at env 0) (fp_pubkey p)) of
           None \<Rightarrow> \<not> mr_public_list_known r \<and> mr_mutes r = [] \<and> mr_total r = 0
         | Some ms \<Rightarrow> mr_public_list_known r \<and> page_ok ms (fp_offset p) (fp_limit p) (mr_mutes r) (mr_total r))) \<and>
    (case handle_common_follows env q of
      Err e \<Rightarrow> failure (\<not> (pubkey_ok (cp_from q) \<and> pubkey_ok (cp_to q))) (free_slots env 0 = 0) (task_dropped env 0) e
    | Ok r \<Rightarrow> pubkey_ok (cp_from q) \<and> pubkey_ok (cp_to q) \<and> 0 < free_slots env 0 \<and> \<not> task_dropped env 0 \<and>
        cr_from r = cp_from q \<and> cr_to r = cp_to q \<and> distinct (cr_common_follows r) \<and>
        set (cr_common_follows r) = snd (follow_cell (graph_at env 0) (cp_from q)) \<inter> snd (follow_cell (graph_at env 0) (cp_to q))) \<and>
    (case handle_path env s of
      Err e \<Rightarrow> failure (\<not> (pubkey_ok (pp_from s) \<and> pubkey_ok (pp_to s) \<and> hops_ok (pp_max_hops s)))
        (free_slots env 0 = 0) (task_dropped env 0) e
    | Ok r \<Rightarrow> pubkey_ok (pp_from s) \<and> pubkey_ok (pp_to s) \<and> hops_ok (pp_max_hops s) \<and>
        0 < free_slots env 0 \<and> \<not> task_dropped env 0 \<and>
        path_ok (graph_at env 0) \<lparr>pq_from = pp_from s, pq_to = pp_to s, pq_max_hops = pp_max_hops s\<rparr>
        \<lparr>pr_from = pre_from r, pr_to = pre_to r, pr_path = pre_path r\<rparr>)"
  using handle_follows_ok [OF assms, of p] handle_mutes_ok [OF assms, of p]
    handle_common_follows_ok [OF assms, of q] handle_path_ok [OF assms, of s]
  by (intro conjI) (auto split: option.splits result.splits)

lemma read_requests_exact_witness:
  "\<exists>r. handle_path key_env \<lparr>pp_from = key_a, pp_to = key_b, pp_max_hops = 1\<rparr> = Ok r \<and>
    path_ok key_graph \<lparr>pq_from = key_a, pq_to = key_b, pq_max_hops = 1\<rparr> \<lparr>pr_from = pre_from r, pr_to = pre_to r, pr_path = pre_path r\<rparr>"
proof -
  let ?p = "\<lparr>pp_from = key_a, pp_to = key_b, pp_max_hops = 1\<rparr>"
  have "is_ok (handle_path key_env ?p)" by code_simp
  then obtain r where r: "handle_path key_env ?p = Ok r" by (cases "handle_path key_env ?p") auto
  have g: "graph_at key_env 0 = key_graph" by (simp add: key_env_def)
  show ?thesis
    using read_requests_exact [where env = key_env and s = ?p and p = undefined and q = undefined] r by (simp add: g)
qed

section \<open>Threads and locks\<close>

definition sample_shards :: shards where
  "sample_shards = \<lparr>names_shard = (\<lambda>s. length s mod 4), interned_shard = (\<lambda>_. 0)\<rparr>"

definition sample_calls :: "graph_call list list" where
  "sample_calls =
     [[CallFollows ''a'' [''b'', ''c''] (Some ''e1'') (Some 1), AskStats],
      [CallMutes ''b'' [''a''] None (Some 2), CallFollows ''a'' [''d''] (Some ''e2'') (Some 3)],
      [AskDistance sample_query, AskEvidence ''a'' ''b'']]"

text \<open>
  C34: calls of the graph are linearizable. Any number of threads call it at will, any call at any time,
  their locks and changes interleaved step by step. In every state so reached, the calls and replies
  the callers saw extend to one order with atomic writes in it. Each thread writes only within its
  calls; an answered call made its write exactly once, after creating nodes for keys it names; and its
  reply (distance, path, page, intersection, statistics, acceptance of an update) is the one its call
  gives alone, on the graph of a moment between the call and the answer. When no call is open, the
  graph is what the writes make of it, one after the other, and it is well-formed.
\<close>

theorem calls_linearizable:
  assumes "graph_wf g" "\<forall>a \<in> set as. live_action a" "service_run admits sh as (service_start g n) = Some v"
  shows "\<exists>T op. linear_trace g T op \<and> filter (\<lambda>x. \<not> is_write x) T = srv_log v \<and>
    (\<forall>i. map_option fst (op i) = srv_open v i) \<and>
    ((\<forall>i. srv_open v i = None) \<longrightarrow> run_writes (map snd (writes_of T)) g = Some (pool_state (srv_pool v)) \<and>
       (graph_small (pool_state (srv_pool v)) \<longrightarrow> graph_wf (pool_state (srv_pool v))))"
proof -
  obtain T op where T: "linear_trace g T op" "filter (\<lambda>x. \<not> is_write x) T = srv_log v" "\<forall>i. map_option fst (op i) = srv_open v i"
    "(\<forall>i. srv_open v i = None) \<longrightarrow> run_writes (map snd (writes_of T)) g = Some (pool_state (srv_pool v)) \<and>
       (\<forall>w \<in> snd ` set (writes_of T). write_valid w)"
    using service_linear [OF graph_wf_in_range [OF assms(1)] assms(2,3)] by blast
  then show ?thesis
    using run_writes_ok [OF assms(1), of "map snd (writes_of T)"] by (intro exI [of _ T] exI [of _ op]) auto
qed

text \<open>A reader that sees the new follower before the writer has its answer.\<close>

definition sample_actions :: "action list" where
  "sample_actions = [Invoke 0 (CallFollows ''a'' [''b''] None (Some 1))] @ replicate 85 (Proceed 0) @
     [Invoke 1 (AskFollowers ''b'')] @ replicate 8 (Proceed 1) @ [Answer 1] @ replicate 2 (Proceed 0) @ [Answer 0]"

lemma calls_linearizable_witness:
  "\<exists>T op. linear_trace graph_new T op \<and>
    filter (\<lambda>x. \<not> is_write x) T =
      [Called 0 (CallFollows ''a'' [''b''] None (Some 1)), Called 1 (AskFollowers ''b''),
       Answered 1 (NamesReply (Some [''a''])), Answered 0 (WroteReply True)]"
proof -
  have "map_option srv_log (service_run (\<lambda>_ _. True) sample_shards sample_actions (service_start graph_new 2)) =
      Some [Called 0 (CallFollows ''a'' [''b''] None (Some 1)), Called 1 (AskFollowers ''b''),
        Answered 1 (NamesReply (Some [''a''])), Answered 0 (WroteReply True)]"
    by code_simp
  then obtain v where v: "service_run (\<lambda>_ _. True) sample_shards sample_actions (service_start graph_new 2) = Some v"
    "srv_log v = [Called 0 (CallFollows ''a'' [''b''] None (Some 1)), Called 1 (AskFollowers ''b''),
        Answered 1 (NamesReply (Some [''a''])), Answered 0 (WroteReply True)]"
    by auto
  have "\<forall>a \<in> set sample_actions. live_action a" by (simp add: sample_actions_def)
  then show ?thesis using calls_linearizable [OF graph_new_wf(1) _ v(1)] v(2) by auto
qed

text \<open>
  C35: a lock does what it is for. Whoever holds one exclusively is its only holder, and while a thread
  holds a lock, in whatever mode, no step of another thread changes what the lock protects.
\<close>

theorem locks_protect:
  assumes "graph_wf g" "\<forall>cs \<in> set css. \<forall>c \<in> set cs. live_call c"
    and "pool_run admits (graph_pool sh g css) c" "i < length css" "j < length css" "i \<noteq> j"
    and "(l, m) \<in> set (thr_held (pool_threads c ! j))"
  shows "(l, Exclusive) \<notin> set (thr_held (pool_threads c ! i)) \<and>
    (case pool_next admits c i of None \<Rightarrow> True | Some c' \<Rightarrow> same_lock sh l (pool_state c) (pool_state c'))"
proof -
  have len: "length (pool_threads c) = length css"
    using run_length [OF assms(3)] by (simp add: graph_pool_def pool_start_def)
  have "pool_exclusive c" using pool_run_exclusive [OF assms(3)] by (simp add: graph_pool_def)
  then have "(l, Exclusive) \<notin> set (thr_held (pool_threads c ! i))"
    using pool_exclusiveD [of c i j l m] assms(4-7) len by auto
  moreover have "same_lock sh l (pool_state c) (pool_state c')" if "pool_next admits c i = Some c'" for c'
    using pool_keeps [OF graph_wf_in_range [OF assms(1)] assms(2,3) that assms(5) _ assms(7)] assms(6) by blast
  ultimately show ?thesis by (simp split: option.split)
qed

lemma locks_protect_witness:
  "\<exists>c c'. pool_run (\<lambda>_ _. True) (graph_pool sample_shards graph_new [[AskStats], [CallNode ''a'']]) c \<and>
    (FollowsLock, Shared) \<in> set (thr_held (pool_threads c ! 0)) \<and>
    pool_next (\<lambda>_ _. True) c 1 = Some c' \<and> follows (pool_state c') = follows (pool_state c)"
proof -
  let ?css = "[[AskStats], [CallNode ''a'']]"
  let ?start = "graph_pool sample_shards graph_new ?css"
  obtain c A B where c: "pool_next (\<lambda>_ _. True) ?start 0 = Some c" "pool_threads c = [A, B]"
    "thr_held A = [(FollowsLock, Shared)]" "thr_held B = []" "thr_prog B = calls_prog sample_shards [CallNode ''a''] []"
    by (simp add: pool_next_def graph_pool_def pool_start_def prog_next_def stats_prog_def lock_free_def del: calls_prog.simps(1))
  have run: "pool_run (\<lambda>_ _. True) ?start c" using Move [OF Stay c(1)] .
  obtain c' where c': "pool_next (\<lambda>_ _. True) c 1 = Some c'"
    using c(2-5) by (simp add: pool_next_def prog_next_def lock_free_def node_prog_def names_prog_def)
  show ?thesis
    using locks_protect [OF graph_new_wf(1) _ run, of 1 0 FollowsLock Shared] run c c' by auto
qed

text \<open>
  C36: calls never deadlock and always end. Whatever the policy by which a free lock admits one of the
  threads that wait for it (readers may be kept behind a waiting writer), from every reachable state
  with an unfinished thread some thread can go on, there is no infinite run, and a run on which all
  threads finish exists; the load at the start, which restores the graph under the database
  connection, is among the calls.
\<close>

theorem calls_terminate:
  assumes "admission_ok admits" "pool_run admits (graph_pool sh g css) c"
  shows "((\<exists>t \<in> set (pool_threads c). \<not> finished t) \<longrightarrow> (\<exists>i c'. pool_next admits c i = Some c')) \<and>
    \<not> (\<exists>f. f 0 = c \<and> (\<forall>n. \<exists>i. pool_next admits (f n) i = Some (f (Suc n)))) \<and>
    (\<exists>c'. pool_run admits c c' \<and> (\<forall>t \<in> set (pool_threads c'). finished t))"
proof -
  have o: "pool_ordered lock_rank c" using pool_run_ordered [OF assms(2) graph_pool_ordered] .
  then show ?thesis using pool_progress [OF assms(1) o] pool_no_infinite_run [of admits] pool_finishes [OF assms(1) o] by blast
qed

lemma calls_terminate_witness:
  "\<exists>c. pool_run writers_first (graph_pool sample_shards graph_new ([CallLoad (Some [])] # sample_calls)) c \<and>
    (\<forall>t \<in> set (pool_threads c). finished t)"
  using calls_terminate [OF writers_first_ok Stay, of sample_shards graph_new "[CallLoad (Some [])] # sample_calls"] by blast

text \<open>
  C37: no query permit is lost or made. Whatever requests, tasks, panics, departed clients and the vending
  machine do, four permits are free or out, so at most four tasks compute and a request is refused
  exactly while four are out; the vending machine has at most one task, and while it waits the first task
  that ends serves it before any later request; and from everywhere all four can still come back.
\<close>

theorem permits_conserved:
  assumes "slot_run es query_slots_new = Some s"
  shows "slots_free s + permits_out s = 4 \<and> dvm_jobs s \<le> 1 \<and>
    (\<forall>e. query_permit (slots_free s) = Err e \<longrightarrow> error_status e = 503) \<and>
    ((\<exists>e. query_permit (slots_free s) = Err e) \<longleftrightarrow> permits_out s = 4) \<and>
    (slots_dvm s = DvmWaiting \<longrightarrow> dvm_jobs s = 0 \<and>
       (\<forall>i. slot_step (HttpAsks i) s = Some s) \<and>
       (\<forall>n s'. slot_step (JobEnds n) s = Some s' \<longrightarrow> slots_dvm s' = DvmGranted)) \<and>
    (\<exists>es' s'. slot_run es' s = Some s' \<and> slots_jobs s' = [] \<and> slots_dvm s' = DvmFree \<and> slots_free s' = 4)"
proof -
  have ok: "slots_ok s" using slots_reachable_ok [OF assms] .
  then have sums: "slots_free s + permits_out s = 4" "dvm_jobs s \<le> 1" "slots_dvm s = DvmWaiting \<Longrightarrow> dvm_jobs s = 0"
    by (auto simp: slots_ok_def split: if_splits)
  have "(\<exists>e. query_permit (slots_free s) = Err e) \<longleftrightarrow> permits_out s = 4"
    using sums(1) guard_cases(5) [of "slots_free s"] by (cases "query_permit (slots_free s)") auto
  then show ?thesis
    using sums waiting_served(3,4) [OF ok] slots_drain [OF ok] guard_cases(6) by blast
qed

lemma permits_conserved_witness:
  "\<exists>s. slot_run [HttpAsks 1, HttpAsks 2, HttpAsks 3, HttpAsks 4, DvmAsks, HttpAsks 5, JobStarts 2, ClientGone 3] query_slots_new = Some s \<and>
    slots_dvm s = DvmWaiting \<and> permits_out s = 4 \<and> slot_step (HttpAsks 6) s = Some s"
proof -
  let ?es = "[HttpAsks 1, HttpAsks 2, HttpAsks 3, HttpAsks 4, DvmAsks, HttpAsks 5, JobStarts 2, ClientGone 3]"
  obtain s where s: "slot_run ?es query_slots_new = Some s" "slots_dvm s = DvmWaiting" "slots_free s = 0"
    by (simp add: query_slots_new_def query_permit_def spawn_job_def take_permit_def)
  show ?thesis using permits_conserved [OF s(1)] s by auto
qed

section \<open>The measuring program\<close>

text \<open>
  C38: with a working database no step of a benchmark trial panics and its assertion holds. The cold graph has
  the 5000 nodes and 200000 edges the program prints; the newer identical lists leave the revision alone, so
  no cached result goes stale; replacing one edge per list keeps the count; and the graph restored from
  the database holds the same lists, with the same provenance, as the one written directly. However the
  50000 authors of the hub are ordered, they end as its followers.
\<close>

theorem benchmark_restores:
  assumes "\<forall>n. env_ok (envs n) \<and> \<not> faulty (envs n)" "\<not> faulty open_env" "\<not> faulty load_env"
  shows "(\<exists>g1 g2 g3 restored. bench_trial open_env envs load_env now = Some ((g1, g2, g3), restored) \<and>
      stat_node_count (stats g1) = 5000 \<and> stat_edge_count (stats g1) = 200000 \<and>
      stat_edge_count (stats g2) = 200000 \<and> revision g2 = revision g1 \<and> stat_edge_count (stats g3) = 200000 \<and>
      follow_cell restored = follow_cell g1) \<and>
    (\<forall>reverse. \<exists>names. get_followers (hub_run reverse (bench_keys 50000)) ''hub'' = Some names \<and> distinct names \<and>
      set names = set (bench_keys 50000))"
proof -
  have "\<exists>names. get_followers (hub_run reverse (bench_keys 50000)) ''hub'' = Some names \<and> distinct names \<and>
      set names = set (bench_keys 50000)" for reverse
    by (rule hub_followers) simp_all
  then show ?thesis using bench_trial_ok [where envs = envs and now = now, OF _ assms(2,3)] assms(1) by blast
qed

lemma benchmark_restores_witness:
  "\<exists>gs restored. bench_trial plain_env (\<lambda>_. plain_env) plain_env 0 = Some (gs, restored) \<and>
    follow_cell restored = follow_cell (fst gs)"
  using benchmark_restores [of "\<lambda>_. plain_env" plain_env plain_env 0] by fastforce

section \<open>The process\<close>

text \<open>
  If the process exits without an error, it was asked to by a signal, and everything it was
  sent is safe: the tables are well-formed and hold the lists they held at the start with all
  received updates applied, and the next start on them builds the graph the process ended with.
\<close>

theorem clean_exit_keeps_all:
  assumes "db_wf db" "length (nodes db) < 2 ^ 32" "lru_ok ops"
    and "\<forall>i \<in> set inputs. input_sane i" "\<forall>n. attempt_ok (att n)"
    and "main_run env ops cfg connected inputs att disconnected first server db = Some (Ok (), s')" "graph_small (st_graph s')"
    and "\<not> faulty env'" "length (nodes (st_db s')) < 2 ^ 32"
  shows "first = Signalled (Ok ()) \<and> db_wf (st_db s') \<and>
    db_lists (st_db s') = fold apply_update (received_updates inputs) (db_lists db) \<and>
    (\<exists>t. start_process env' (st_db s') = Ok t \<and> st_db t = st_db s' \<and> graph_lists (st_graph t) = graph_lists (st_graph s'))"
proof -
  have "first = Signalled (Ok ())" "in_sync (st_db s') (st_graph s')"
    "db_lists (st_db s') = fold apply_update (received_updates inputs) (db_lists db)"
    using main_run_ok [OF assms(1-7)] by simp_all
  then show ?thesis using restart_finds [OF _ assms(8,9)] by (simp add: in_sync_def)
qed

lemma clean_exit_keeps_all_witness:
  "\<exists>s'. main_run plain_env list_lru (from_env (\<lambda>_. None)) True sample_inputs (\<lambda>_. plain_attempt) True
      (Signalled (Ok ())) (Returned (Ok ())) database_new = Some (Ok (), s') \<and>
    db_lists (st_db s') = fold apply_update (received_updates sample_inputs) (db_lists database_new)"
proof -
  let ?run = "main_run plain_env list_lru (from_env (\<lambda>_. None)) True sample_inputs (\<lambda>_. plain_attempt) True
      (Signalled (Ok ())) (Returned (Ok ())) database_new"
  have "map_option (\<lambda>(r, s). (is_ok r, graph_small (st_graph s), length (nodes (st_db s)))) ?run = Some (True, True, 2)"
    by code_simp
  then obtain r s' where run: "?run = Some (r, s')" "is_ok r" "graph_small (st_graph s')" "length (nodes (st_db s')) = 2" by auto
  then have ok: "?run = Some (Ok (), s')" by (cases r) simp_all
  have "\<forall>i \<in> set sample_inputs. input_sane i" using sample_inputs_ok(1) by blast
  moreover have "length (nodes database_new) < 2 ^ 32" by (simp add: database_new_def)
  ultimately have "db_lists (st_db s') = fold apply_update (received_updates sample_inputs) (db_lists database_new)"
    using clean_exit_keeps_all [OF database_new_wf _ list_lru_ok _ _ ok run(3) plain_env_ok(2)] run(4) by simp
  then show ?thesis using ok by blast
qed

text \<open>
  C39: opening the database never touches a row, whatever fails. It ends well with all five tables and the
  indexes in use, the two legacy indexes gone, or a statement has failed; then the file is as good as
  before and a later attempt without a fault completes it. A complete file is left as it is.
\<close>

theorem opening_keeps_rows:
  assumes "file_ok f" "open_database env f = (r, f')" "\<not> faulty env'"
  shows "file_ok f' \<and> file_rows f' = file_rows f \<and>
    (case r of Err _ \<Rightarrow> faulty env | Ok _ \<Rightarrow> schema_complete f' \<and> open_database env' f' = (Ok (), f')) \<and>
    (\<exists>f2. open_database env' f' = (Ok (), f2) \<and> schema_complete f2 \<and> file_rows f2 = file_rows f) \<and>
    (schema_complete f \<and> is_ok r \<longrightarrow> f' = f)"
proof -
  note ok = open_database_ok [OF assms(2)]
  obtain r2 f2 where f2: "open_database env' f' = (r2, f2)" by fastforce
  have "r2 = Ok ()" using open_database_ok [OF f2] assms(3) by (cases r2) auto
  then have "\<exists>f2. open_database env' f' = (Ok (), f2) \<and> schema_complete f2 \<and> file_rows f2 = file_rows f"
    using f2 open_database_ok [OF f2] ok by auto
  moreover have "schema_complete f \<and> is_ok r \<longrightarrow> f' = f" using open_again assms(2) by (cases r) auto
  moreover have "case r of Err _ \<Rightarrow> faulty env | Ok _ \<Rightarrow> schema_complete f' \<and> open_database env' f' = (Ok (), f')"
    using ok open_complete [OF _ assms(3)] by (cases r) auto
  ultimately show ?thesis using ok open_file_ok [OF assms(2,1)] by blast
qed

text \<open>A file of a version before the mute lists, whose opening fails half-way and is then repeated.\<close>

definition legacy_file :: db_file where
  "legacy_file =
     \<lparr>file_tables = [NodesTable, EdgesTable, SyncStateTable],
      file_indexes = [''idx_nodes_pubkey'', ''idx_edges_follower'', ''idx_edges_followed''],
      file_rows = database_new\<lparr>nodes := [\<lparr>node_id = 1, node_pubkey = ''a'', node_event_id = None,
                                     node_created_at = None, node_updated_at = 0\<rparr>]\<rparr>\<rparr>"

definition failing_env :: "nat \<Rightarrow> db_env" where
  "failing_env n = plain_env\<lparr>fails := (\<lambda>i. i = n)\<rparr>"

lemma legacy_file_ok: "file_ok legacy_file"
proof -
  have "table_rows t (file_rows legacy_file) = 0" if "t \<notin> set (file_tables legacy_file)" for t
    using that by (cases t) (simp_all add: legacy_file_def database_new_def)
  moreover have "db_wf (file_rows legacy_file)" by (simp add: legacy_file_def database_new_def db_wf_def)
  ultimately show ?thesis by (simp add: file_ok_def)
qed

lemma opening_keeps_rows_witness:
  "\<exists>e f' f2. open_database (failing_env 9) legacy_file = (Err e, f') \<and> file_indexes f' = [''idx_edges_follower'', ''idx_edges_followed''] \<and>
    open_database plain_env f' = (Ok (), f2) \<and> schema_complete f2 \<and> nodes (file_rows f2) = nodes (file_rows legacy_file)"
proof -
  let ?run = "open_database (failing_env 9) legacy_file"
  have "(\<lambda>(r, f). (is_ok r, file_indexes f)) ?run = (False, [''idx_edges_follower'', ''idx_edges_followed''])" by code_simp
  then obtain e f' where run: "?run = (Err e, f')" "file_indexes f' = [''idx_edges_follower'', ''idx_edges_followed'']"
    by (cases ?run; cases "fst ?run") auto
  then show ?thesis using opening_keeps_rows [OF legacy_file_ok run(1) plain_env_ok(2)] by auto
qed

text \<open>
  C40: if the process exits without an error, it was asked to by a signal, and everything it was sent is in
  the file it leaves: the schema is complete, the tables are well-formed and hold the lists of the file it
  opened with all received updates applied, and the next process that opens the file builds the
  graph this one ended with.
\<close>

theorem clean_exit_reopens:
  assumes "file_ok file" "length (nodes (file_rows file)) < 2 ^ 32" "lru_ok ops"
    and "\<forall>i \<in> set inputs. input_sane i" "\<forall>n. attempt_ok (att n)"
    and "main_process open_env env ops cfg connected inputs att disconnected first server file = Some (Ok (), file', g)"
    and "graph_small g" "\<not> faulty open_env'" "\<not> faulty env'" "length (nodes (file_rows file')) < 2 ^ 32"
  shows "first = Signalled (Ok ()) \<and> schema_complete file' \<and> file_ok file' \<and>
    db_lists (file_rows file') = fold apply_update (received_updates inputs) (db_lists (file_rows file)) \<and>
    open_database open_env' file' = (Ok (), file') \<and>
    (\<exists>t. start_process env' (file_rows file') = Ok t \<and> graph_lists (st_graph t) = graph_lists g)"
proof -
  obtain f s where f: "schema_complete f" "file' = f\<lparr>file_rows := st_db s\<rparr>" "g = st_graph s"
    "main_run env ops cfg connected inputs att disconnected first server (file_rows file) = Some (Ok (), s)"
    using main_process_Ok [OF assms(6)] by metis
  have complete: "schema_complete file'" using f(1,2) by (simp add: schema_complete_rows)
  have "db_wf (file_rows file)" using assms(1) by (simp add: file_ok_def)
  then have exit: "first = Signalled (Ok ())" "db_wf (file_rows file')"
    "db_lists (file_rows file') = fold apply_update (received_updates inputs) (db_lists (file_rows file))"
    "\<exists>t. start_process env' (file_rows file') = Ok t \<and> graph_lists (st_graph t) = graph_lists g"
    using clean_exit_keeps_all [OF _ assms(2-5) f(4)] assms(7,9,10) f(2,3) by auto
  then show ?thesis using complete complete_file_ok open_complete [OF complete assms(8)] by blast
qed

lemma clean_exit_reopens_witness:
  "\<exists>f' g. main_process plain_env plain_env list_lru (from_env (\<lambda>_. None)) True sample_inputs (\<lambda>_. plain_attempt) True
      (Signalled (Ok ())) (Returned (Ok ())) empty_file = Some (Ok (), f', g) \<and>
    db_lists (file_rows f') = fold apply_update (received_updates sample_inputs) (db_lists database_new) \<and>
    open_database plain_env f' = (Ok (), f')"
proof -
  let ?run = "main_process plain_env plain_env list_lru (from_env (\<lambda>_. None)) True sample_inputs (\<lambda>_. plain_attempt) True
      (Signalled (Ok ())) (Returned (Ok ())) empty_file"
  have "map_option (\<lambda>(r, f, g). (is_ok r, graph_small g, length (nodes (file_rows f)))) ?run = Some (True, True, 2)"
    by code_simp
  then obtain r f' g where run: "?run = Some (r, f', g)" "is_ok r" "graph_small g" "length (nodes (file_rows f')) = 2" by auto
  then have ok: "?run = Some (Ok (), f', g)" by (cases r) simp_all
  have "file_ok empty_file"
  proof -
    have "table_rows t database_new = 0" for t by (cases t) (simp_all add: database_new_def)
    then show ?thesis using database_new_wf by (simp add: file_ok_def empty_file_def)
  qed
  moreover have "length (nodes (file_rows empty_file)) < 2 ^ 32" by (simp add: empty_file_def database_new_def)
  moreover have "\<forall>i \<in> set sample_inputs. input_sane i" using sample_inputs_ok(1) by blast
  ultimately show ?thesis
    using clean_exit_reopens [OF _ _ list_lru_ok _ _ ok run(3) plain_env_ok(2) plain_env_ok(2)] run(4) ok
    by (auto simp: empty_file_def)
qed

end
